(* ===== verification/Prelude.thy ===== *)
theory Prelude
  imports Main "HOL-Library.Word" "HOL-Library.Signed_Division"
begin

text \<open>
  Shared vocabulary of the development: Go's machine integers as words, Go's \<open>(T, error)\<close>
  results as sums, Go's \<open>sort.Search\<close>, and the generic facts on words, lists and sums that the
  component theories use. Nothing in this theory is specific to one component.
\<close>

section \<open>Go's machine integers\<close>

text \<open>
  All fixed-width integers of the source are words: \<open>+\<close>, \<open>-\<close> and \<open>*\<close> wrap around exactly as
  in Go, \<open><\<close> and \<open>\<le>\<close> compare as unsigned. A signed type is the same word read through
  \<^const>\<open>sint\<close>; a conversion such as \<open>uint64(x)\<close> of an \<open>int64\<close> is the identity on the bits.
\<close>

type_synonym u8 = "8 word"
type_synonym u16 = "16 word"
type_synonym u32 = "32 word"
type_synonym u64 = "64 word"
type_synonym i32 = "32 word"
type_synonym i64 = "64 word"
type_synonym byte = u8

text \<open>\<open>github.com/google/uuid\<close>'s \<open>UUID\<close> is \<open>[16]byte\<close>; here its 128 bits, most significant byte
  first, so that \<open>bytes.Compare\<close> is the order on words.\<close>

type_synonym uuid = "128 word"

abbreviation uuid_Nil :: uuid where "uuid_Nil \<equiv> 0"

text \<open>Go's signed division truncates towards zero; a zero divisor panics and is checked first
  wherever the source can meet one.\<close>

definition i64_div :: "i64 \<Rightarrow> i64 \<Rightarrow> i64" where
  "i64_div a b = word_of_int (sint a sdiv sint b)"

definition i64_mod :: "i64 \<Rightarrow> i64 \<Rightarrow> i64" where
  "i64_mod a b = word_of_int (sint a smod sint b)"

section \<open>Results\<close>

text \<open>A Go function that returns \<open>(T, error)\<close> returns \<open>'e + 'a\<close>: \<open>Inl\<close> the error.\<close>

definition bind_res :: "'e + 'a \<Rightarrow> ('a \<Rightarrow> 'e + 'b) \<Rightarrow> 'e + 'b" where
  "bind_res r f = (case r of Inl e \<Rightarrow> Inl e | Inr x \<Rightarrow> f x)"

lemma bind_res_simps [simp]:
  "bind_res (Inl e) f = Inl e"
  "bind_res (Inr x) f = f x"
  by (simp_all add: bind_res_def)

lemma bind_res_eq_Inr: "bind_res r f = Inr y \<longleftrightarrow> (\<exists>x. r = Inr x \<and> f x = Inr y)"
  by (cases r) auto

section \<open>Collections of facts\<close>

named_theorems word_nat \<open>words as natural numbers, with the side conditions that rule out wrap-around\<close>

section \<open>Words as natural numbers\<close>

text \<open>Arithmetic on words is done on natural numbers here, so \<open>int (unat w)\<close> is kept as it is.\<close>

declare of_nat_unat [simp del]

lemma word_of_nat_unat [simp]: "word_of_nat (unat w) = w"
  by (simp add: of_nat_unat)

lemma u64_bound: "unat (w :: u64) < 2 ^ 64"
  using unsigned_less [of w] by simp

lemma unat_word_of_nat_u64: "n < 2 ^ 64 \<Longrightarrow> unat (word_of_nat n :: u64) = n"
  by (simp add: unat_of_nat take_bit_nat_eq_self)

lemma unat_add_u64 [word_nat]:
  "unat (a :: u64) + unat b < 2 ^ 64 \<Longrightarrow> unat (a + b) = unat a + unat b"
  using unat_add_lem [of a b] by simp

lemma unat_sub_u64 [word_nat]: "b \<le> a \<Longrightarrow> unat (a - b :: u64) = unat a - unat b"
  by (rule unat_sub)

lemma sint_small_u64:
  fixes a :: i64
  assumes "unat a < 2 ^ 63"
  shows "sint a = int (unat a)"
proof -
  have "signed_take_bit 63 (int (unat a)) = int (unat a)"
    using assms by (intro signed_take_bit_int_eq_self) simp_all
  then show ?thesis by (simp add: sint_uint of_nat_unat)
qed

lemma sint_neg_u64:
  fixes a :: i64
  assumes "2 ^ 63 \<le> unat a"
  shows "sint a < 0"
proof (rule ccontr)
  assume "\<not> sint a < 0"
  moreover have "sint a < 2 ^ 63" using sint_less [of a] by simp
  moreover have "uint (word_of_int (sint a) :: i64) = sint a mod 2 ^ 64" by (simp only: uint_word_of_int) simp
  ultimately have "uint a < 2 ^ 63" by simp
  then have "int (unat a) < 2 ^ 63" by (simp only: of_nat_unat)
  with assms show False by simp
qed

lemma sint_diff_u64:
  fixes a b :: i64
  assumes "unat a < 2 ^ 63" and "unat b < 2 ^ 63"
  shows "sint (a - b) = int (unat a) - int (unat b)"
proof -
  have "sint (a - b) = signed_take_bit 63 (int (unat a) - int (unat b))"
    using assms by (simp add: sint_word_ariths sint_small_u64)
  also have "\<dots> = int (unat a) - int (unat b)"
    using assms by (intro signed_take_bit_int_eq_self; simp; linarith)
  finally show ?thesis .
qed

lemma sint_diff_pos:
  fixes a b :: i64
  shows "unat a < 2 ^ 63 \<Longrightarrow> unat b < 2 ^ 63 \<Longrightarrow> 0 < sint (a - b) \<longleftrightarrow> unat b < unat a"
  by (simp add: sint_diff_u64)

lemma unat_ucast_u32 [simp]: "unat (ucast (w :: u32) :: u64) = unat w"
  using unsigned_less [of w, where 'a = nat] by (simp add: unsigned_ucast_eq take_bit_nat_eq_self_iff)

lemma unat_inject [simp]: "unat a = unat b \<longleftrightarrow> a = b"
  by (auto simp: word_unat_eq_iff)

lemma unat_eq_0_iff [simp]: "unat (a :: 'a::len word) = 0 \<longleftrightarrow> a = 0"
  by (rule unat_eq_zero)

lemma unat_ucast_u64_u32: "unat (w :: u64) < 2 ^ 32 \<Longrightarrow> unat (ucast w :: u32) = unat w"
  by (simp add: unsigned_ucast_eq take_bit_nat_eq_self)

lemma ucast_u32_u64: "unat (w :: u64) < 2 ^ 32 \<Longrightarrow> ucast (ucast w :: u32) = w"
  by (rule unat_inject [THEN iffD1]) (simp only: unat_ucast_u32 unat_ucast_u64_u32)

lemma ucast_u8_u32: "ucast (ucast (w :: u8) :: u32) = w"
  by (rule bit_word_eqI) (simp add: bit_simps)

lemma ucast_u8_u32_eq_0: "ucast (w :: u8) = (0 :: u32) \<longleftrightarrow> w = 0"
  by (metis ucast_u8_u32 unsigned_0)

section \<open>Signed words as integers\<close>

lemma sint_add_i64:
  fixes a b :: i64
  assumes "- (2 ^ 63) \<le> sint a + sint b" and "sint a + sint b < 2 ^ 63"
  shows "sint (a + b) = sint a + sint b"
  using assms by (simp add: sint_word_ariths signed_take_bit_int_eq_self)

lemma sint_scast_i32: "sint (scast (w :: i32) :: i64) = sint w"
  using sint_greater_eq [of w] sint_less [of w]
  by (simp add: signed_scast_eq signed_take_bit_int_eq_self)

section \<open>Binary search\<close>

text \<open>The loop of Go's \<open>sort.Search\<close>, between \<open>lo\<close> and \<open>hi\<close>, for the predicate \<open>f\<close>.\<close>

function bsearch :: "(nat \<Rightarrow> bool) \<Rightarrow> nat \<Rightarrow> nat \<Rightarrow> nat" where
  "bsearch f lo hi =
     (if lo < hi then
        let h = (lo + hi) div 2 in if f h then bsearch f lo h else bsearch f (h + 1) hi
      else lo)"
  by pat_completeness auto
termination
  by (relation "measure (\<lambda>(f, lo, hi). hi - lo)") auto

declare bsearch.simps [simp del]

definition sort_Search :: "nat \<Rightarrow> (nat \<Rightarrow> bool) \<Rightarrow> nat" where
  "sort_Search n f = bsearch f 0 n"

lemma bsearch_correct:
  assumes mono: "\<And>i j. i \<le> j \<Longrightarrow> j < n \<Longrightarrow> f i \<Longrightarrow> f j"
    and "lo \<le> hi" "hi \<le> n" "\<And>i. i < lo \<Longrightarrow> \<not> f i" "\<And>i. hi \<le> i \<Longrightarrow> i < n \<Longrightarrow> f i"
  shows "bsearch f lo hi \<le> n \<and> (\<forall>i < n. f i \<longleftrightarrow> bsearch f lo hi \<le> i)"
  using assms(2-)
proof (induction "hi - lo" arbitrary: lo hi rule: less_induct)
  case less
  let ?h = "(lo + hi) div 2"
  show ?case
  proof (cases "lo < hi")
    case True
    then have h: "lo \<le> ?h" "?h < hi" "?h < n" using less.prems by auto
    show ?thesis
    proof (cases "f ?h")
      case fh: True
      have "bsearch f lo ?h \<le> n \<and> (\<forall>i < n. f i \<longleftrightarrow> bsearch f lo ?h \<le> i)"
        using h less.prems mono [OF _ _ fh] by (intro less.hyps) auto
      then show ?thesis using fh True by (simp add: bsearch.simps [of f lo hi] Let_def)
    next
      case nf: False
      then have "\<not> f i" if "i < ?h + 1" for i
        using mono [of i ?h] h(3) that by auto
      then have "bsearch f (?h + 1) hi \<le> n \<and> (\<forall>i < n. f i \<longleftrightarrow> bsearch f (?h + 1) hi \<le> i)"
        using h less.prems by (intro less.hyps) auto
      then show ?thesis using nf True by (simp add: bsearch.simps [of f lo hi] Let_def)
    qed
  next
    case False
    then have "bsearch f lo hi = lo" by (simp add: bsearch.simps [of f lo hi])
    moreover have "f i \<longleftrightarrow> lo \<le> i" if "i < n" for i
      using less.prems(3) [of i] less.prems(4) [of i] that False by (cases "lo \<le> i") auto
    ultimately show ?thesis using False less.prems by simp
  qed
qed

lemma sort_Search_correct:
  assumes "\<And>i j. i \<le> j \<Longrightarrow> j < n \<Longrightarrow> f i \<Longrightarrow> f j"
  shows "sort_Search n f \<le> n" and "i < n \<Longrightarrow> f i \<longleftrightarrow> sort_Search n f \<le> i"
  using bsearch_correct [of n f 0 n] assms by (auto simp: sort_Search_def)

section \<open>Slices\<close>

text \<open>Go's slice expression \<open>xs[lo:hi]\<close> with \<open>int64\<close> bounds panics, here \<open>None\<close>, outside
  \<open>0 \<le> lo \<le> hi \<le> len(xs)\<close>; \<open>copy(dst, src)\<close> overwrites a prefix of \<open>dst\<close>; \<open>overwrite xs n ys\<close> is the
  memory after writing \<open>ys\<close> at position \<open>n\<close>.\<close>

definition go_slice :: "'a list \<Rightarrow> i64 \<Rightarrow> i64 \<Rightarrow> 'a list option" where
  "go_slice xs lo hi =
     (if 0 \<le> sint lo \<and> sint lo \<le> sint hi \<and> sint hi \<le> int (length xs)
      then Some (take (nat (sint hi - sint lo)) (drop (nat (sint lo)) xs)) else None)"

definition go_copy :: "'a list \<Rightarrow> 'a list \<Rightarrow> 'a list" where
  "go_copy dst src = take (length dst) src @ drop (length src) dst"

definition overwrite :: "'a list \<Rightarrow> nat \<Rightarrow> 'a list \<Rightarrow> 'a list" where
  "overwrite xs n ys = take n xs @ ys @ drop (n + length ys) xs"

definition i64_min :: "i64 \<Rightarrow> i64 \<Rightarrow> i64" where
  "i64_min a b = (if sint a \<le> sint b then a else b)"

lemma length_overwrite [simp]: "n + length ys \<le> length xs \<Longrightarrow> length (overwrite xs n ys) = length xs"
  by (simp add: overwrite_def)

lemma go_slice_nat:
  assumes "unat lo < 2 ^ 63" "unat hi < 2 ^ 63"
  shows "go_slice xs lo hi =
    (if unat lo \<le> unat hi \<and> unat hi \<le> length xs then Some (take (unat hi - unat lo) (drop (unat lo) xs)) else None)"
  using assms by (auto simp: go_slice_def sint_small_u64 nat_diff_distrib)

lemma i64_min_nat:
  assumes "unat a < 2 ^ 63" "unat b < 2 ^ 63"
  shows "unat (i64_min a b) = min (unat a) (unat b)"
  using assms by (simp add: i64_min_def sint_small_u64)

lemma go_copy_full [simp]: "length dst = length src \<Longrightarrow> go_copy dst src = src"
  by (simp add: go_copy_def)

section \<open>Loops that can fail\<close>

text \<open>A Go loop over a sequence whose body can return early with an error.\<close>

fun fold_res :: "('a \<Rightarrow> 's \<Rightarrow> 'e + 's) \<Rightarrow> 'a list \<Rightarrow> 's \<Rightarrow> 'e + 's" where
  "fold_res f [] s = Inr s"
| "fold_res f (x # xs) s = bind_res (f x s) (fold_res f xs)"

text \<open>The values of \<open>for i := i; i < end; i += step\<close>, or \<open>None\<close> when the loop never ends.\<close>

partial_function (option) i64_steps :: "i64 \<Rightarrow> i64 \<Rightarrow> i64 \<Rightarrow> i64 list option" where
  "i64_steps i end step =
     (if sint i < sint end then
        Option.bind (i64_steps (i + step) end step) (\<lambda>is. Some (i # is))
      else Some [])"

definition i64_max :: "i64 \<Rightarrow> i64 \<Rightarrow> i64" where
  "i64_max a b = (if sint a \<ge> sint b then a else b)"

lemma fold_res_append: "fold_res f (xs @ ys) s = bind_res (fold_res f xs s) (fold_res f ys)"
proof (induction xs arbitrary: s)
  case (Cons x xs)
  then show ?case by (cases "f x s") simp_all
qed simp

lemma i64_steps_ok:
  assumes "unat step = S" "0 < S" "unat end = unat i + n * S" "unat end + S < 2 ^ 63"
  shows "i64_steps i end step = Some (map (\<lambda>k. i + word_of_nat k * step) [0..<n])"
  using assms(3)
proof (induction n arbitrary: i)
  case 0
  then have "i = end" by (simp flip: unat_inject)
  then show ?case by (simp add: i64_steps.simps)
next
  case (Suc n)
  have next': "unat (i + step) = unat i + S" using Suc.prems assms by (subst unat_add_u64) simp_all
  have "i64_steps (i + step) end step = Some (map (\<lambda>k. i + step + word_of_nat k * step) [0..<n])"
    using Suc.prems next' by (intro Suc.IH) simp
  moreover have "sint i < sint end" using Suc.prems assms by (simp add: sint_small_u64 del: of_nat_mult of_nat_add)
  moreover have "map (\<lambda>k. i + word_of_nat k * step) [0..<Suc n] =
      i # map (\<lambda>k. i + step + word_of_nat k * step) [0..<n]"
    by (simp add: upt_conv_Cons map_Suc_upt [symmetric] comp_def algebra_simps del: upt_Suc)
  ultimately show ?case by (subst i64_steps.simps) simp
qed

end
