(* ===== verification/Block_Math.thy ===== *)
theory Block_Math
  imports Prelude
begin

text \<open>
  Block arithmetic and the all-zero test of \<open>packages/shared/pkg/storage/header\<close>
  (\<open>block.go\<close>, \<open>diff.go\<close>). Sizes, offsets and indices are \<open>int64\<close>, so every operation is on
  64-bit words; the lemmas say when nothing wraps and what the functions then compute.
\<close>

section \<open>block.go\<close>

definition PageSize :: u64 where "PageSize = 4096"

definition TotalBlocks :: "i64 \<Rightarrow> i64 \<Rightarrow> i64" where
  "TotalBlocks sz blockSize = i64_div (sz + blockSize - 1) blockSize"

definition BlockIdx :: "i64 \<Rightarrow> i64 \<Rightarrow> i64" where
  "BlockIdx off blockSize = i64_div off blockSize"

definition BlockCeilIdx :: "i64 \<Rightarrow> i64 \<Rightarrow> i64" where
  "BlockCeilIdx off blockSize = i64_div (off + blockSize - 1) blockSize"

definition BlockOffset :: "i64 \<Rightarrow> i64 \<Rightarrow> i64" where
  "BlockOffset idx blockSize = idx * blockSize"

text \<open>\<open>make([]int64, n)\<close> panics for a negative \<open>n\<close>: the result is \<open>None\<close> then.\<close>

definition BlocksOffsets :: "i64 \<Rightarrow> i64 \<Rightarrow> i64 list option" where
  "BlocksOffsets sz blockSize =
     (let n = sint (TotalBlocks sz blockSize) in
      if n < 0 then None
      else Some (map (\<lambda>i. BlockOffset (word_of_nat i) blockSize) [0..<nat n]))"

section \<open>diff.go\<close>

unbundle bit_operations_syntax

definition IsZero :: "byte list \<Rightarrow> bool" where
  "IsZero b =
     (let n = length b in
      if n = 0 then True
      else if b ! 0 OR b ! (n - 1) OR b ! (n div 2) \<noteq> 0 then False
      else if n \<le> 3 then True
      else take (n - 1) b = drop 1 b)"

section \<open>Block arithmetic without wrap-around\<close>

lemma sdiv_nonneg: "0 \<le> (x :: int) \<Longrightarrow> 0 \<le> y \<Longrightarrow> x sdiv y = x div y"
  by (simp add: signed_divide_int_def sgn_if)

lemma i64_div_nonneg [word_nat]:
  fixes a b :: i64
  assumes "unat a < 2 ^ 63" and "unat b < 2 ^ 63"
  shows "unat (i64_div a b) = unat a div unat b"
proof -
  have "sint a sdiv sint b = int (unat a) div int (unat b)"
    unfolding sint_small_u64 [OF assms(1)] sint_small_u64 [OF assms(2)]
    by (intro sdiv_nonneg of_nat_0_le_iff)
  also have "\<dots> = int (unat a div unat b)" by (simp only: zdiv_int)
  finally have "i64_div a b = word_of_nat (unat a div unat b)"
    by (simp only: i64_div_def of_int_of_nat_eq)
  moreover have "unat a div unat b < 2 ^ 64"
    using assms(1) by (intro le_less_trans [OF div_le_dividend]) simp
  ultimately show ?thesis by (simp add: unat_of_nat take_bit_eq_mod)
qed

lemma BlockIdx_floor:
  assumes "unat off < 2 ^ 63" and "0 < unat bs" and "unat bs < 2 ^ 63"
  shows "unat (BlockIdx off bs) * unat bs \<le> unat off"
    and "unat off < Suc (unat (BlockIdx off bs)) * unat bs"
  using assms by (simp_all add: BlockIdx_def word_nat dividend_less_div_times add.commute)

section \<open>The all-zero test\<close>

lemma shifted_eq_const:
  assumes "take (length b - 1) b = drop 1 b"
  shows "i < length b \<Longrightarrow> b ! i = b ! 0"
proof (induction i)
  case (Suc i)
  then have "take (length b - 1) b ! i = b ! i" and "drop 1 b ! i = b ! Suc i" by simp_all
  with assms Suc show ?case by simp
qed simp

lemma IsZero_iff: "IsZero b \<longleftrightarrow> b = replicate (length b) 0"
proof (cases "b = []")
  case False
  let ?n = "length b"
  have idx: "0 < ?n" "?n - 1 < ?n" "?n div 2 < ?n" using False by auto
  show ?thesis
  proof
    assume all: "b = replicate ?n 0"
    then have "take (?n - 1) b = drop 1 b" by (metis drop_replicate take_replicate min_def diff_le_self)
    moreover have "b ! i = 0" if "i < ?n" for i using all that by (metis nth_replicate)
    ultimately show "IsZero b" using idx by (simp add: IsZero_def Let_def)
  next
    assume z: "IsZero b"
    with False have s: "b ! 0 = 0" "b ! (?n - 1) = 0" "b ! (?n div 2) = 0"
      by (auto simp: IsZero_def Let_def or_eq_0_iff split: if_splits)
    have "b ! i = 0" if "i < ?n" for i
    proof (cases "?n \<le> 3")
      case True
      with that consider "i = 0" | "i = ?n - 1" | "i = ?n div 2" by force
      then show ?thesis using s by cases simp_all
    next
      case False
      with z s have "take (?n - 1) b = drop 1 b" by (auto simp: IsZero_def Let_def split: if_splits)
      from shifted_eq_const [OF this that] s show ?thesis by simp
    qed
    then show "b = replicate ?n 0" by (simp add: nth_equalityI)
  qed
qed (simp add: IsZero_def)

text \<open>
  C40. \<open>IsZero\<close> samples three bytes and then compares the buffer with itself shifted by one; it
  answers true exactly when every byte of the buffer is zero, on buffers of every length.
\<close>

theorem IsZero_correct: "IsZero b \<longleftrightarrow> b = replicate (length b) 0"
  by (rule IsZero_iff)

end
