(* ===== verification/Build_Mapping.thy ===== *)
theory Build_Mapping
  imports Block_Math
begin

text \<open>
  The block-device mapping of a build (\<open>packages/shared/pkg/storage/header/mapping.go\<close>, with
  \<open>ValidateMappings\<close> of \<open>inspect.go\<close>). A mapping list says, for every byte of a sandbox's disk or
  memory image, which build stores it and where. A snapshot composes the mapping of its dirty and
  empty blocks over the mapping of its parent (\<open>MergeMappings\<close>) and joins neighbouring entries
  (\<open>NormalizeMappings\<close>). The specification is \<open>resolve\<close>: what a byte of the device reads.
\<close>

section \<open>Data\<close>

record BuildMap =
  Offset :: u64
  Length :: u64
  BuildId :: uuid
  BuildStorageOffset :: u64

text \<open>A bitmap of \<open>RoaringBitmap/roaring\<close> enters through the sequence of runs \<open>[start, endExcl)\<close>
  that its \<open>Ranges()\<close> iterator yields.\<close>

type_synonym ranges = "(u32 \<times> u64) list"

section \<open>mapping.go\<close>

fun create_mapping_loop :: "uuid \<Rightarrow> i64 \<Rightarrow> u64 \<Rightarrow> ranges \<Rightarrow> BuildMap list" where
  "create_mapping_loop buildId blockSize buildStorageOffset [] = []"
| "create_mapping_loop buildId blockSize buildStorageOffset ((start, endExcl) # rs) =
     (let blockLength = endExcl - ucast start;
          m = \<lparr>Offset = BlockOffset (ucast start) blockSize,
               Length = BlockOffset blockLength blockSize,
               BuildId = buildId,
               BuildStorageOffset = buildStorageOffset\<rparr>
      in m # create_mapping_loop buildId blockSize (buildStorageOffset + Length m) rs)"

definition CreateMapping :: "uuid \<Rightarrow> ranges \<Rightarrow> i64 \<Rightarrow> BuildMap list" where
  "CreateMapping buildId dirty blockSize = create_mapping_loop buildId blockSize 0 dirty"

definition createIdentityMapping :: "uuid \<Rightarrow> ranges \<Rightarrow> i64 \<Rightarrow> BuildMap list" where
  "createIdentityMapping buildId dirty blockSize =
     map (\<lambda>(start, endExcl).
       let blockLength = endExcl - ucast start; off = BlockOffset (ucast start) blockSize
       in \<lparr>Offset = off, Length = BlockOffset blockLength blockSize,
           BuildId = buildId, BuildStorageOffset = off\<rparr>) dirty"

text \<open>The part of \<open>base\<close> left of \<open>diff\<close>, emitted when \<open>int64(diff.Offset) - int64(base.Offset)\<close>
  is positive, and the part right of \<open>diff\<close>, which replaces \<open>baseMapping[baseIdx]\<close> when its length
  is positive; otherwise \<open>baseIdx\<close> advances.\<close>

definition left_base :: "BuildMap \<Rightarrow> BuildMap \<Rightarrow> BuildMap list" where
  "left_base base diff =
     (let leftBaseLength = Offset diff - Offset base in
      if 0 < sint leftBaseLength
      then [\<lparr>Offset = Offset base, Length = leftBaseLength, BuildId = BuildId base,
             BuildStorageOffset = BuildStorageOffset base\<rparr>]
      else [])"

definition right_base :: "BuildMap \<Rightarrow> BuildMap \<Rightarrow> BuildMap list" where
  "right_base base diff =
     (let rightBaseShift = Offset diff + Length diff - Offset base;
          rightBaseLength = Length base - rightBaseShift
      in if 0 < sint rightBaseLength
         then [\<lparr>Offset = Offset base + rightBaseShift, Length = rightBaseLength,
                BuildId = BuildId base,
                BuildStorageOffset = BuildStorageOffset base + rightBaseShift\<rparr>]
         else [])"

text \<open>
  The loop of \<open>MergeMappings\<close>, with the unread suffixes of the two slices as its state. The last
  branch is the fall-through that only prints "invalid case" and goes round the loop with
  nothing changed; that the loop ends therefore rests on the branch being unreachable, which the
  termination proof shows for all inputs, wrapped sums included.
\<close>

function merge_loop :: "BuildMap list \<Rightarrow> BuildMap list \<Rightarrow> BuildMap list" where
  "merge_loop [] diffs = diffs"
| "merge_loop (base # bases) [] = base # bases"
| "merge_loop (base # bases) (diff # diffs) =
     (if Length base = 0 then merge_loop bases (diff # diffs)
      else if Length diff = 0 then merge_loop (base # bases) diffs
      else if Offset base + Length base \<le> Offset diff
        then base # merge_loop bases (diff # diffs)
      else if Offset diff + Length diff \<le> Offset base
        then diff # merge_loop (base # bases) diffs
      else if Offset base \<ge> Offset diff \<and> Offset base + Length base \<le> Offset diff + Length diff
        then merge_loop bases (diff # diffs)
      else if Offset diff \<ge> Offset base \<and> Offset diff + Length diff \<le> Offset base + Length base
        then left_base base diff @ diff # merge_loop (right_base base diff @ bases) diffs
      else if Offset base > Offset diff
        then diff # merge_loop (right_base base diff @ bases) diffs
      else if Offset diff > Offset base
        then left_base base diff @ merge_loop bases (diff # diffs)
      else merge_loop (base # bases) (diff # diffs))"
  by pat_completeness auto

lemma length_right_base: "length (right_base base diff) \<le> 1"
  by (simp add: right_base_def Let_def)

termination merge_loop
proof (relation "measure (\<lambda>(bs, ds). length bs + length ds)", goal_cases)
  case (7 base bases diff diffs)
  then show ?case using length_right_base [of base diff] by simp
next
  case (8 base bases diff diffs)
  then show ?case using length_right_base [of base diff] by simp
next
  case (10 base bases diff diffs)
  then have "Offset base = Offset diff" by simp
  with 10 show ?case by auto
qed auto

definition MergeMappings :: "BuildMap list \<Rightarrow> BuildMap list \<Rightarrow> BuildMap list" where
  "MergeMappings baseMapping diffMapping =
     (if diffMapping = [] then baseMapping else merge_loop baseMapping diffMapping)"

fun normalize_loop :: "BuildMap \<Rightarrow> BuildMap list \<Rightarrow> BuildMap list" where
  "normalize_loop current [] = [current]"
| "normalize_loop current (mp # mps) =
     (let storageContiguous = (BuildId mp = uuid_Nil \<or>
            BuildStorageOffset mp = BuildStorageOffset current + Length current)
      in if BuildId mp = BuildId current \<and> storageContiguous
         then normalize_loop (current\<lparr>Length := Length current + Length mp\<rparr>) mps
         else current # normalize_loop mp mps)"

definition NormalizeMappings :: "BuildMap list \<Rightarrow> BuildMap list" where
  "NormalizeMappings mappings =
     (case mappings of [] \<Rightarrow> [] | m # ms \<Rightarrow> normalize_loop m ms)"

section \<open>inspect.go\<close>

datatype mapping_error =
    BadOffset | BadLength | BeyondSize | NotCovering | ZeroBlockSize
  | DividePanic | IndexPanic

text \<open>
  \<open>ValidateMappings\<close> formats its last error with \<open>mappings[len(mappings)-1]\<close>, which panics on an
  empty list of a non-empty device, and its checks divide by \<open>blockSize\<close>, which panics on zero.
\<close>

fun validate_loop :: "u64 \<Rightarrow> u64 \<Rightarrow> u64 \<Rightarrow> BuildMap list \<Rightarrow> mapping_error + u64" where
  "validate_loop currentOffset sz blockSize [] = Inr currentOffset"
| "validate_loop currentOffset sz blockSize (m # ms) =
     (if currentOffset \<noteq> Offset m then Inl BadOffset
      else if Length m mod blockSize \<noteq> 0 then Inl BadLength
      else if currentOffset + Length m > sz then Inl BeyondSize
      else validate_loop (currentOffset + Length m) sz blockSize ms)"

definition ValidateMappings :: "BuildMap list \<Rightarrow> u64 \<Rightarrow> u64 \<Rightarrow> mapping_error + unit" where
  "ValidateMappings mappings sz blockSize =
     (if blockSize = 0 \<and> mappings \<noteq> [] then Inl DividePanic
      else case validate_loop 0 sz blockSize mappings of
        Inl e \<Rightarrow> Inl e
      | Inr currentOffset \<Rightarrow>
          if currentOffset \<noteq> sz then (if mappings = [] then Inl IndexPanic else Inl NotCovering)
          else Inr ())"


section \<open>What a mapping list means\<close>

text \<open>Regions of the nil build are served as zeros and their storage offset is never read.\<close>

datatype source = Zeros | FromBuild uuid nat

definition mstart :: "BuildMap \<Rightarrow> nat" where "mstart m = unat (Offset m)"
definition mend :: "BuildMap \<Rightarrow> nat" where "mend m = unat (Offset m) + unat (Length m)"

definition source_of :: "BuildMap \<Rightarrow> nat \<Rightarrow> source" where
  "source_of m p =
     (if BuildId m = uuid_Nil then Zeros
      else FromBuild (BuildId m) (unat (BuildStorageOffset m) + (p - mstart m)))"

fun resolve :: "BuildMap list \<Rightarrow> nat \<Rightarrow> source option" where
  "resolve [] p = None"
| "resolve (m # ms) p = (if mstart m \<le> p \<and> p < mend m then Some (source_of m p) else resolve ms p)"

text \<open>Entries whose device ranges, and storage ranges where they are read, stay below \<open>2\<^sup>6\<^sup>3\<close>, so that neither the unsigned sums
  nor the signed differences of the code wrap; entries in device order without overlap.\<close>

definition bm_ok :: "BuildMap \<Rightarrow> bool" where
  "bm_ok m \<longleftrightarrow> mend m < 2 ^ 63 \<and>
     (BuildId m = uuid_Nil \<or> unat (BuildStorageOffset m) + unat (Length m) < 2 ^ 63)"

fun ordered_from :: "nat \<Rightarrow> BuildMap list \<Rightarrow> bool" where
  "ordered_from k [] = True"
| "ordered_from k (m # ms) = (k \<le> mstart m \<and> bm_ok m \<and> ordered_from (mend m) ms)"

fun contiguous :: "nat \<Rightarrow> BuildMap list \<Rightarrow> nat \<Rightarrow> bool" where
  "contiguous k [] n = (k = n)"
| "contiguous k (m # ms) n = (mstart m = k \<and> bm_ok m \<and> contiguous (mend m) ms n)"

section \<open>Facts on ordered mapping lists\<close>

lemma mstart_le_mend [simp]: "mstart m \<le> mend m"
  by (simp add: mstart_def mend_def)

lemma ordered_from_mono: "ordered_from k ms \<Longrightarrow> j \<le> k \<Longrightarrow> ordered_from j ms"
  by (cases ms) auto

lemma resolve_below: "ordered_from k ms \<Longrightarrow> p < k \<Longrightarrow> resolve ms p = None"
proof (induction ms arbitrary: k)
  case (Cons m ms)
  then have "p < mstart m" and "p < mend m" and "ordered_from (mend m) ms"
    using mstart_le_mend [of m] by (auto simp del: mstart_le_mend)
  with Cons.IH show ?case by auto
qed simp

lemma bm_ok_end [word_nat]: "bm_ok m \<Longrightarrow> unat (Offset m + Length m) = mend m"
  by (simp add: bm_ok_def mend_def word_nat)

lemmas bm_words = word_le_nat_alt word_less_nat_alt mstart_def [symmetric]

subsection \<open>The two remainders of a split entry\<close>

text \<open>\<open>piece r m lo hi\<close>: the entry \<open>r\<close> is \<open>m\<close> restricted to the device range \<open>[lo, hi)\<close>.\<close>

definition piece :: "BuildMap \<Rightarrow> BuildMap \<Rightarrow> nat \<Rightarrow> nat \<Rightarrow> bool" where
  "piece r m lo hi \<longleftrightarrow> mstart r = lo \<and> mend r = hi \<and> bm_ok r \<and>
     (\<forall>p \<ge> lo. source_of r p = source_of m p)"

lemma left_base_piece:
  assumes ok: "bm_ok base" "bm_ok diff" and le: "mstart base \<le> mstart diff" "mstart diff \<le> mend base"
  shows "mstart base = mstart diff \<and> left_base base diff = [] \<or>
    (\<exists>l. left_base base diff = [l] \<and> piece l base (mstart base) (mstart diff))"
proof -
  have b: "unat (Offset diff) < 2 ^ 63" "unat (Offset base) < 2 ^ 63"
    using ok by (simp_all add: bm_ok_def mend_def)
  have u: "unat (Offset diff - Offset base) = mstart diff - mstart base"
    using le by (simp add: word_nat bm_words)
  have "0 < sint (Offset diff - Offset base) \<longleftrightarrow> mstart base < mstart diff"
    using b by (simp only: sint_diff_pos mstart_def)
  moreover have "piece \<lparr>Offset = Offset base, Length = Offset diff - Offset base,
      BuildId = BuildId base, BuildStorageOffset = BuildStorageOffset base\<rparr> base
      (mstart base) (mstart diff)"
    using ok le u by (auto simp: piece_def bm_ok_def mstart_def mend_def source_of_def)
  ultimately show ?thesis using le by (auto simp: left_base_def Let_def)
qed

lemma right_base_piece:
  assumes ok: "bm_ok base" "bm_ok diff" and le: "mstart base \<le> mend diff"
  shows "mend base \<le> mend diff \<and> right_base base diff = [] \<or>
    mend diff < mend base \<and>
      (\<exists>r. right_base base diff = [r] \<and> piece r base (mend diff) (mend base))"
proof -
  define sh where "sh = Offset diff + Length diff - Offset base"
  have s: "unat sh = mend diff - mstart base"
    using ok le by (simp add: sh_def word_nat bm_words)
  have b: "unat (Length base) < 2 ^ 63" "unat sh < 2 ^ 63"
    using ok by (auto simp: bm_ok_def mend_def s)
  have len: "unat (Length base) = mend base - mstart base" by (simp add: mstart_def mend_def)
  have pos: "0 < sint (Length base - sh) \<longleftrightarrow> mend diff < mend base"
    using b le by (simp only: sint_diff_pos s len) linarith
  show ?thesis
  proof (cases "mend diff < mend base")
    case True
    let ?r = "\<lparr>Offset = Offset base + sh, Length = Length base - sh,
      BuildId = BuildId base, BuildStorageOffset = BuildStorageOffset base + sh\<rparr>"
    have l: "unat (Length base - sh) = mend base - mend diff"
      using True le s len by (simp add: word_nat word_le_nat_alt)
    have o: "unat (Offset base + sh) = mend diff"
      using ok le s by (simp add: bm_ok_def mstart_def [symmetric] word_nat)
    have st: "unat (BuildStorageOffset base + sh) = unat (BuildStorageOffset base) + unat sh"
      if "BuildId base \<noteq> uuid_Nil"
      using that ok le s len True by (intro unat_add_u64) (auto simp: bm_ok_def)
    have m: "mstart ?r = mend diff" "mend ?r = mend base"
      using o l True by (simp_all add: mstart_def [of ?r] mend_def [of ?r])
    have "unat (BuildStorageOffset base + sh) + unat (Length base - sh) < 2 ^ 63"
      if "BuildId base \<noteq> uuid_Nil"
      using that ok(1) le s len True st by (simp add: bm_ok_def l)
    then have "bm_ok ?r" using ok(1) m by (auto simp: bm_ok_def)
    moreover have "source_of ?r p = source_of base p" if "mend diff \<le> p" for p
      using that le st by (simp add: source_of_def m s)
    ultimately have "piece ?r base (mend diff) (mend base)" by (simp add: piece_def m)
    with True pos show ?thesis by (auto simp: right_base_def Let_def sh_def)
  qed (use pos in \<open>simp add: right_base_def Let_def sh_def\<close>)
qed


section \<open>MergeMappings composes\<close>

definition override :: "source option \<Rightarrow> source option \<Rightarrow> source option" where
  "override diff base = (case diff of None \<Rightarrow> base | Some x \<Rightarrow> Some x)"

lemma override_simps [simp]:
  "override None b = b" "override (Some x) b = Some x" "override d None = d"
  by (auto simp: override_def split: option.splits)

lemma right_base_resolve:
  assumes "bm_ok base" "bm_ok diff" "mstart base \<le> mend diff"
  shows "resolve (right_base base diff @ bases) p =
    (if mend diff \<le> p \<and> p < mend base then Some (source_of base p) else resolve bases p)"
  using right_base_piece [OF assms] by (auto simp: piece_def)

lemma right_base_ordered:
  assumes "bm_ok base" "bm_ok diff" "mstart base \<le> mend diff"
    and "ordered_from (mend base) bases"
  shows "ordered_from (min (mend diff) (mend base)) (right_base base diff @ bases)"
  using right_base_piece [OF assms(1-3)] assms(4)
  by (auto simp: piece_def min_def)

lemma left_base_resolve:
  assumes "bm_ok base" "bm_ok diff" "mstart base \<le> mstart diff" "mstart diff \<le> mend base"
  shows "resolve (left_base base diff @ ms) p =
    (if mstart base \<le> p \<and> p < mstart diff then Some (source_of base p) else resolve ms p)"
  using left_base_piece [OF assms] by (auto simp: piece_def)

lemma left_base_ordered:
  assumes "bm_ok base" "bm_ok diff" "mstart base \<le> mstart diff" "mstart diff \<le> mend base"
    and "ordered_from (mstart diff) ms" and "k \<le> mstart base"
  shows "ordered_from k (left_base base diff @ ms)"
  using left_base_piece [OF assms(1-4)] assms(5,6)
  by (auto simp: piece_def intro: ordered_from_mono)

subsection \<open>The loop over natural numbers\<close>

declare merge_loop.simps(3) [simp del]

lemma merge_loop_step:
  assumes "bm_ok base" "bm_ok diff"
  shows "merge_loop (base # bases) (diff # diffs) =
     (if mend base = mstart base then merge_loop bases (diff # diffs)
      else if mend diff = mstart diff then merge_loop (base # bases) diffs
      else if mend base \<le> mstart diff then base # merge_loop bases (diff # diffs)
      else if mend diff \<le> mstart base then diff # merge_loop (base # bases) diffs
      else if mstart diff \<le> mstart base \<and> mend base \<le> mend diff then merge_loop bases (diff # diffs)
      else if mstart base \<le> mstart diff \<and> mend diff \<le> mend base
        then left_base base diff @ diff # merge_loop (right_base base diff @ bases) diffs
      else if mstart diff < mstart base then diff # merge_loop (right_base base diff @ bases) diffs
      else left_base base diff @ merge_loop bases (diff # diffs))"
proof -
  have z: "Length m = 0 \<longleftrightarrow> mend m = mstart m" for m by (simp add: mend_def mstart_def unat_eq_zero)
  have le: "Offset a \<le> Offset b \<longleftrightarrow> mstart a \<le> mstart b"
    "Offset a < Offset b \<longleftrightarrow> mstart a < mstart b" for a b
    by (simp_all add: bm_words)
  have e: "Offset base + Length base \<le> w \<longleftrightarrow> mend base \<le> unat w"
    "Offset diff + Length diff \<le> w \<longleftrightarrow> mend diff \<le> unat w" for w
    using assms by (simp_all add: word_le_nat_alt bm_ok_end)
  show ?thesis
    by (subst merge_loop.simps(3))
      (simp only: z le e mstart_def [symmetric] bm_ok_end [OF assms(1)] bm_ok_end [OF assms(2)],
       simp add: linorder_not_le [symmetric])
qed

text \<open>One lemma for both results, by induction on the number of entries left.\<close>

definition merges :: "nat \<Rightarrow> BuildMap list \<Rightarrow> BuildMap list \<Rightarrow> BuildMap list \<Rightarrow> bool" where
  "merges k ms bases diffs \<longleftrightarrow> ordered_from k ms \<and>
     (\<forall>p. resolve ms p = override (resolve diffs p) (resolve bases p))"

lemma merges_if:
  "(c \<Longrightarrow> merges k ms bs ds) \<Longrightarrow> (\<not> c \<Longrightarrow> merges k ns bs ds) \<Longrightarrow>
   merges k (if c then ms else ns) bs ds"
  by simp

text \<open>One lemma per branch of the loop: the list that the branch builds from the result of the rest
  of the loop is correct for the two slices it started from.\<close>

lemma merges_cons_base:
  assumes "merges (mend base) ms bases diffs" "k \<le> mstart base" "bm_ok base"
    and "ordered_from (mend base) diffs"
  shows "merges k (base # ms) (base # bases) diffs"
  using assms resolve_below [OF assms(4)] by (auto simp: merges_def)

lemma merges_cons_diff:
  assumes "merges (mend diff) ms bases diffs" "k \<le> mstart diff" "bm_ok diff"
  shows "merges k (diff # ms) bases (diff # diffs)"
  using assms by (auto simp: merges_def)

lemma merges_drop_base:
  assumes "merges k ms bases (diff # diffs)"
    and "mend base = mstart base \<or> mstart diff \<le> mstart base \<and> mend base \<le> mend diff"
  shows "merges k ms (base # bases) (diff # diffs)"
  using assms by (auto simp: merges_def)

lemma merges_drop_diff:
  "merges k ms bases diffs \<Longrightarrow> mend diff = mstart diff \<Longrightarrow> merges k ms bases (diff # diffs)"
  by (auto simp: merges_def)

lemma merges_diff_right:
  assumes m: "merges (mend diff) ms (right_base base diff @ bases) diffs"
    and ok: "bm_ok base" "bm_ok diff" and "k \<le> mstart diff"
    and le: "mstart diff \<le> mstart base" "mstart base \<le> mend diff"
  shows "merges k (diff # ms) (base # bases) (diff # diffs)"
  using m ok assms(4) le
  by (auto simp: merges_def right_base_resolve)

lemma merges_left_diff_right:
  assumes m: "merges (mend diff) ms (right_base base diff @ bases) diffs"
    and ok: "bm_ok base" "bm_ok diff" and k: "k \<le> mstart base" and o: "ordered_from (mend diff) diffs"
    and le: "mstart base \<le> mstart diff" "mend diff \<le> mend base"
  shows "merges k (left_base base diff @ diff # ms) (base # bases) (diff # diffs)"
proof -
  have le': "mstart diff \<le> mend base" "mstart base \<le> mend diff"
    using le mstart_le_mend [of diff] by linarith+
  have "ordered_from k (left_base base diff @ diff # ms)"
    using m ok k le le' by (intro left_base_ordered) (auto simp: merges_def)
  moreover have "resolve diffs p = None" if "p < mend diff" for p by (rule resolve_below [OF o that])
  ultimately show ?thesis
    using m ok le le' mstart_le_mend [of diff]
    by (auto simp: merges_def left_base_resolve right_base_resolve simp del: mstart_le_mend)
qed

lemma merges_left:
  assumes m: "merges (mstart diff) ms bases (diff # diffs)"
    and ok: "bm_ok base" "bm_ok diff" and k: "k \<le> mstart base" and o: "ordered_from (mend diff) diffs"
    and le: "mstart base \<le> mstart diff" "mstart diff \<le> mend base" "mend base \<le> mend diff"
  shows "merges k (left_base base diff @ ms) (base # bases) (diff # diffs)"
proof -
  have "ordered_from k (left_base base diff @ ms)"
    using m ok k le by (intro left_base_ordered) (auto simp: merges_def)
  moreover have "resolve diffs p = None" if "p < mend diff" for p by (rule resolve_below [OF o that])
  ultimately show ?thesis
    using m ok le mstart_le_mend [of diff]
    by (auto simp: merges_def left_base_resolve simp del: mstart_le_mend)
qed

lemma merge_step_merges:
  assumes ok: "bm_ok base" "bm_ok diff" and k: "k \<le> mstart base" "k \<le> mstart diff"
    and od: "ordered_from (mend diff) diffs"
    and base_next: "\<And>j. j \<le> mend base \<Longrightarrow> j \<le> mstart diff \<Longrightarrow>
      merges j (merge_loop bases (diff # diffs)) bases (diff # diffs)"
    and diff_next: "\<And>j. j \<le> mstart base \<Longrightarrow> j \<le> mend diff \<Longrightarrow>
      merges j (merge_loop (base # bases) diffs) (base # bases) diffs"
    and right_next: "mstart base \<le> mend diff \<Longrightarrow> mend diff \<le> mend base \<Longrightarrow>
      merges (mend diff) (merge_loop (right_base base diff @ bases) diffs)
        (right_base base diff @ bases) diffs"
  shows "merges k (merge_loop (base # bases) (diff # diffs)) (base # bases) (diff # diffs)"
proof (subst merge_loop_step [OF ok], intro merges_if, goal_cases)
  case 1 then show ?case using k by (intro merges_drop_base base_next) simp_all
  next
  case 2 then show ?case using k by (intro merges_drop_diff diff_next) simp_all
  next
  case 3 then show ?case using k ok od by (intro merges_cons_base base_next) auto
  next
  case 4 then show ?case using k ok by (intro merges_cons_diff diff_next) auto
  next
  case 5 then show ?case using k order_trans [OF k(1) mstart_le_mend] by (intro merges_drop_base base_next) auto
  next
  case 6 then show ?case using k ok od by (intro merges_left_diff_right right_next) auto
  next
  case 7 then show ?case using k ok by (intro merges_diff_right right_next) auto
  next
  case 8 then show ?case using k ok od by (intro merges_left base_next) auto
qed

lemma merge_loop_merges:
  "ordered_from k bases \<Longrightarrow> ordered_from k diffs \<Longrightarrow> merges k (merge_loop bases diffs) bases diffs"
proof (induction "length bases + length diffs" arbitrary: k bases diffs rule: less_induct)
  case less
  show ?case
  proof (cases "bases = [] \<or> diffs = []")
    case True
    with less.prems show ?thesis by (cases bases) (auto simp: merges_def)
  next
    case False
    then obtain base bs diff ds where e: "bases = base # bs" "diffs = diff # ds"
      by (meson neq_Nil_conv)
    with less.prems have ok: "bm_ok base" "bm_ok diff" and k: "k \<le> mstart base" "k \<le> mstart diff"
      and ob: "ordered_from (mend base) bs" and od: "ordered_from (mend diff) ds" by auto
    have IH: "merges j (merge_loop bs' ds') bs' ds'"
      if "length bs' + length ds' < Suc (Suc (length bs + length ds))"
        "ordered_from j bs'" "ordered_from j ds'" for j bs' ds'
      using less.hyps [OF _ that(2,3)] that(1) e by simp
    show ?thesis unfolding e
    proof (rule merge_step_merges [OF ok k od])
      fix j assume "j \<le> mend base" "j \<le> mstart diff"
      then show "merges j (merge_loop bs (diff # ds)) bs (diff # ds)"
        using ok od ordered_from_mono [OF ob] by (intro IH) auto
    next
      fix j assume "j \<le> mstart base" "j \<le> mend diff"
      then show "merges j (merge_loop (base # bs) ds) (base # bs) ds"
        using ok ob ordered_from_mono [OF od] by (intro IH) auto
    next
      assume le: "mstart base \<le> mend diff" "mend diff \<le> mend base"
      then show "merges (mend diff) (merge_loop (right_base base diff @ bs) ds)
          (right_base base diff @ bs) ds"
        using od right_base_ordered [OF ok le(1) ob] length_right_base [of base diff]
        by (intro IH) auto
    qed
  qed
qed

lemma MergeMappings_merges:
  assumes "ordered_from 0 baseMapping" and "ordered_from 0 diffMapping"
  shows "merges 0 (MergeMappings baseMapping diffMapping) baseMapping diffMapping"
  using merge_loop_merges [OF assms] assms(1) by (auto simp: MergeMappings_def merges_def)

text \<open>
  C29. \<open>MergeMappings\<close> composes: when both lists are in device order without overlap, the result is
  too, and every byte of the device resolves through the diff where the diff has it and through
  the base elsewhere; no byte is lost, duplicated or moved.
\<close>

theorem MergeMappings_correct:
  assumes "ordered_from 0 baseMapping" and "ordered_from 0 diffMapping"
  shows "ordered_from 0 (MergeMappings baseMapping diffMapping) \<and>
    resolve (MergeMappings baseMapping diffMapping) p =
      (case resolve diffMapping p of None \<Rightarrow> resolve baseMapping p | Some s \<Rightarrow> Some s)"
  using MergeMappings_merges [OF assms] by (simp add: merges_def override_def)

theorem MergeMappings_correct_witness:
  "let base = [\<lparr>Offset = 0, Length = 12288, BuildId = 7, BuildStorageOffset = 0\<rparr>];
       diff = [\<lparr>Offset = 4096, Length = 4096, BuildId = 9, BuildStorageOffset = 0\<rparr>]
   in ordered_from 0 base \<and> ordered_from 0 diff \<and>
      ordered_from 0 (MergeMappings base diff) \<and>
      resolve (MergeMappings base diff) 5000 = Some (FromBuild 9 904) \<and>
      resolve (MergeMappings base diff) 9000 = Some (FromBuild 7 9000)"
proof -
  let ?base = "[\<lparr>Offset = 0, Length = 12288, BuildId = 7, BuildStorageOffset = 0\<rparr>]"
  let ?diff = "[\<lparr>Offset = 4096, Length = 4096, BuildId = 9, BuildStorageOffset = 0\<rparr>]"
  have o: "ordered_from 0 ?base" "ordered_from 0 ?diff"
    by (simp_all add: bm_ok_def mstart_def mend_def)
  show ?thesis
    using o MergeMappings_correct [OF o, of 5000] MergeMappings_correct [OF o, of 9000]
    by (simp add: Let_def mstart_def mend_def source_of_def)
qed

section \<open>CreateMapping packs the dirty runs\<close>

text \<open>The runs of a roaring bitmap: non-empty, ascending and disjoint, and (a device limit) small
  enough for \<open>int64\<close> byte offsets.\<close>

fun ranges_ok :: "nat \<Rightarrow> nat \<Rightarrow> ranges \<Rightarrow> bool" where
  "ranges_ok bs k [] = True"
| "ranges_ok bs k ((start, endExcl) # rs) =
     (k \<le> unat start \<and> unat start < unat endExcl \<and> unat endExcl * bs < 2 ^ 63 \<and>
      ranges_ok bs (unat endExcl) rs)"

definition in_ranges :: "ranges \<Rightarrow> nat \<Rightarrow> bool" where
  "in_ranges rs b \<longleftrightarrow> (\<exists>(start, endExcl) \<in> set rs. unat start \<le> b \<and> b < unat endExcl)"

text \<open>How many blocks of the runs lie below block \<open>b\<close>.\<close>

fun rank :: "ranges \<Rightarrow> nat \<Rightarrow> nat" where
  "rank [] b = 0"
| "rank ((start, endExcl) # rs) b = (min b (unat endExcl) - min b (unat start)) + rank rs b"

lemma ranges_ok_above:
  "ranges_ok bs k rs \<Longrightarrow> b < k \<Longrightarrow> \<not> in_ranges rs b \<and> rank rs b = 0"
  by (induction rs arbitrary: k) (fastforce simp: in_ranges_def)+

lemma block_mult:
  fixes x bs :: u64
  assumes "unat x * unat bs < 2 ^ 63"
  shows "unat (x * bs) = unat x * unat bs"
  using assms by (simp add: unat_mult_lem [THEN iffD1])

lemma block_range:
  fixes B :: nat
  assumes "0 < B"
  shows "s * B \<le> p \<and> p < e * B \<longleftrightarrow> s \<le> p div B \<and> p div B < e"
  using assms by (simp add: less_eq_div_iff_mult_less_eq div_less_iff_less_mult)

lemma block_shift:
  fixes B :: nat
  assumes "s \<le> p div B"
  shows "p - s * B = (p div B - s) * B + p mod B"
proof -
  have "s * B \<le> p div B * B" using assms by (rule mult_le_mono1)
  then show ?thesis using div_mult_mod_eq [of p B] unfolding diff_mult_distrib by linarith
qed

text \<open>The entry that \<open>CreateMapping\<close> makes of one run.\<close>

abbreviation run_entry :: "uuid \<Rightarrow> i64 \<Rightarrow> u64 \<Rightarrow> u32 \<Rightarrow> u64 \<Rightarrow> BuildMap" where
  "run_entry bid bs so s e \<equiv> \<lparr>Offset = BlockOffset (ucast s) bs,
     Length = BlockOffset (e - ucast s) bs, BuildId = bid, BuildStorageOffset = so\<rparr>"

lemma run_entry_ok:
  assumes se: "unat s < unat e" and eB: "unat e * unat bs < 2 ^ 63" and so: "unat so \<le> unat s * unat bs"
  shows "mstart (run_entry bid bs so s e) = unat s * unat bs"
    and "mend (run_entry bid bs so s e) = unat e * unat bs"
    and "bm_ok (run_entry bid bs so s e)"
    and "unat (so + BlockOffset (e - ucast s) bs) = unat so + (unat e - unat s) * unat bs"
    and "unat so + (unat e - unat s) * unat bs \<le> unat e * unat bs"
proof -
  have ue: "unat (e - ucast s) = unat e - unat s"
    using se by (simp add: word_nat word_le_nat_alt)
  have sB: "unat s * unat bs < 2 ^ 63" "(unat e - unat s) * unat bs < 2 ^ 63"
    using eB se by (auto intro: le_less_trans [OF mult_le_mono1, of _ "unat e"])
  have len: "unat (BlockOffset (e - ucast s) bs) = (unat e - unat s) * unat bs"
    and off: "unat (BlockOffset (ucast s) bs) = unat s * unat bs"
    using sB ue by (simp_all add: BlockOffset_def block_mult)
  show so': "unat so + (unat e - unat s) * unat bs \<le> unat e * unat bs"
    using so se by (simp add: diff_mult_distrib)
  show "mstart (run_entry bid bs so s e) = unat s * unat bs" by (simp add: mstart_def off)
  show me: "mend (run_entry bid bs so s e) = unat e * unat bs"
    using se by (simp add: mend_def off len flip: add_mult_distrib)
  show "bm_ok (run_entry bid bs so s e)" using so' eB len by (simp add: bm_ok_def me)
  show "unat (so + BlockOffset (e - ucast s) bs) = unat so + (unat e - unat s) * unat bs"
    using so' eB len by (subst unat_add_u64) simp_all
qed

lemma in_ranges_Cons [simp]:
  "in_ranges ((s, e) # rs) b \<longleftrightarrow> unat s \<le> b \<and> b < unat e \<or> in_ranges rs b"
  by (simp add: in_ranges_def)

lemma in_ranges_Nil [simp]: "\<not> in_ranges [] b"
  by (simp add: in_ranges_def)

lemma create_mapping_loop_correct:
  assumes "ranges_ok (unat bs) k rs" and B: "0 < unat bs" and "unat so \<le> k * unat bs"
  shows "ordered_from (k * unat bs) (create_mapping_loop bid bs so rs) \<and>
    resolve (create_mapping_loop bid bs so rs) p =
      (if in_ranges rs (p div unat bs)
       then Some (if bid = uuid_Nil then Zeros
                  else FromBuild bid (unat so + rank rs (p div unat bs) * unat bs + p mod unat bs))
       else None)"
  using assms(1,3)
proof (induction rs arbitrary: k so)
  case (Cons r rs)
  obtain s e where r: "r = (s, e)" by (cases r)
  let ?B = "unat bs" let ?b = "p div unat bs" let ?m = "run_entry bid bs so s e"
  from Cons.prems r have ks: "k \<le> unat s" and se: "unat s < unat e" and eB: "unat e * ?B < 2 ^ 63"
    and ok: "ranges_ok ?B (unat e) rs" by simp_all
  have so: "unat so \<le> unat s * ?B" using Cons.prems(2) ks by (meson le_trans mult_le_mono1)
  note e = run_entry_ok [OF se eB so]
  note IH = Cons.IH [OF ok, of "so + BlockOffset (e - ucast s) bs", unfolded e(4), OF e(5)]
  have src: "source_of ?m p = (if bid = uuid_Nil then Zeros
      else FromBuild bid (unat so + (?b - unat s) * ?B + p mod ?B))" if "unat s \<le> ?b"
    using that by (simp add: source_of_def e(1) block_shift)
  have in_m: "mstart ?m \<le> p \<and> p < mend ?m \<longleftrightarrow> unat s \<le> ?b \<and> ?b < unat e"
    unfolding e(1,2) by (rule block_range [OF B])
  consider "?b < unat s" | "unat s \<le> ?b" "?b < unat e" | "unat e \<le> ?b" by linarith
  then show ?case
  proof cases
    case 3
    then have "rank (r # rs) ?b = (unat e - unat s) + rank rs ?b" using r se by simp
    then have "rank (r # rs) ?b * ?B = (unat e - unat s) * ?B + rank rs ?b * ?B"
      by (simp only: add_mult_distrib)
    with 3 IH e(1-3) in_m ks show ?thesis by (auto simp: r Let_def mult_le_mono1)
  qed (use IH e(1-3) in_m src ks se ranges_ok_above [OF ok, of ?b] in
        \<open>simp_all add: r Let_def mult_le_mono1\<close>)
qed simp

lemma CreateMapping_ok:
  assumes "ranges_ok (unat bs) 0 dirty" and "0 < unat bs"
  shows "ordered_from 0 (CreateMapping bid dirty bs) \<and>
    resolve (CreateMapping bid dirty bs) p =
      (if in_ranges dirty (p div unat bs)
       then Some (if bid = uuid_Nil then Zeros
                  else FromBuild bid (rank dirty (p div unat bs) * unat bs + p mod unat bs))
       else None)"
  using create_mapping_loop_correct [OF assms, of 0 bid p] by (simp add: CreateMapping_def)

text \<open>
  C31. \<open>CreateMapping\<close> maps exactly the bytes of the dirty blocks, and packs them: the byte at device
  offset \<open>p\<close> of a dirty block is stored at (number of dirty blocks before it) times the block size
  plus its offset in the block. For the nil build the same bytes read as zeros.
\<close>

theorem CreateMapping_packs:
  assumes "ranges_ok (unat bs) 0 dirty" and "0 < unat bs"
  shows "ordered_from 0 (CreateMapping bid dirty bs) \<and>
    resolve (CreateMapping bid dirty bs) p =
      (if in_ranges dirty (p div unat bs)
       then Some (if bid = uuid_Nil then Zeros
                  else FromBuild bid (rank dirty (p div unat bs) * unat bs + p mod unat bs))
       else None)"
  by (rule CreateMapping_ok [OF assms])

theorem CreateMapping_packs_witness:
  "ranges_ok (unat (4096 :: u64)) 0 [(1, 2), (5, 7)] \<and>
   resolve (CreateMapping 9 [(1, 2), (5, 7)] 4096) 24600 = Some (FromBuild 9 8216)"
proof -
  have ok: "ranges_ok (unat (4096 :: u64)) 0 [(1, 2), (5, 7)]" by simp
  show ?thesis
    using ok CreateMapping_packs [OF ok, of 9 24600] by (simp add: in_ranges_def)
qed

lemma createIdentityMapping_correct:
  assumes "ranges_ok (unat bs) k dirty" and B: "0 < unat bs" and "bid \<noteq> uuid_Nil"
  shows "ordered_from (k * unat bs) (createIdentityMapping bid dirty bs) \<and>
    resolve (createIdentityMapping bid dirty bs) p =
      (if in_ranges dirty (p div unat bs) then Some (FromBuild bid p) else None)"
  using assms(1)
proof (induction dirty arbitrary: k)
  case (Cons r rs)
  obtain s e where r: "r = (s, e)" by (cases r)
  let ?so = "BlockOffset (ucast s) bs"
  let ?m = "run_entry bid bs ?so s e"
  from Cons.prems r have ks: "k \<le> unat s" and se: "unat s < unat e" and eB: "unat e * unat bs < 2 ^ 63"
    and ok: "ranges_ok (unat bs) (unat e) rs" by simp_all
  have so: "unat ?so = unat s * unat bs"
    using se eB by (simp add: BlockOffset_def block_mult le_less_trans [OF mult_le_mono1, of _ "unat e"])
  note e = run_entry_ok [OF se eB eq_refl [OF so]]
  have "source_of ?m p = FromBuild bid p" if "mstart ?m \<le> p"
    using that assms(3) by (simp add: source_of_def e(1) so)
  with Cons.IH [OF ok] e(1-3) ks block_range [OF B, of "unat s" p "unat e"] show ?case
    by (auto simp: r createIdentityMapping_def Let_def mult_le_mono1)
qed (simp add: createIdentityMapping_def)

section \<open>Contiguous lists and validation\<close>

lemma contiguous_ordered: "contiguous k ms n \<Longrightarrow> ordered_from k ms"
  by (induction ms arbitrary: k) auto

lemma contiguous_le: "contiguous k ms n \<Longrightarrow> k \<le> n"
  by (induction ms arbitrary: k) (auto intro: le_trans [OF mstart_le_mend])

lemma contiguous_covers:
  "contiguous k ms n \<Longrightarrow> k \<le> p \<Longrightarrow> p < n \<Longrightarrow> \<exists>s. resolve ms p = Some s"
  by (induction ms arbitrary: k) (auto simp: not_le)

lemma contiguous_append: "contiguous k ms l \<Longrightarrow> contiguous l ms' n \<Longrightarrow> contiguous k (ms @ ms') n"
  by (induction ms arbitrary: k) auto

lemma contiguous_end_dvd:
  "contiguous k ms n \<Longrightarrow> B dvd k \<Longrightarrow> \<forall>e \<in> set ms. B dvd mend e \<Longrightarrow> B dvd n"
  by (induction ms arbitrary: k) auto

lemma resolve_append:
  "resolve (ms @ ms') p = (case resolve ms p of None \<Rightarrow> resolve ms' p | Some s \<Rightarrow> Some s)"
  by (induction ms) auto

lemma ordered_covering_contiguous:
  assumes "ordered_from k ms" and "\<forall>p. k \<le> p \<and> p < n \<longrightarrow> resolve ms p \<noteq> None"
    and "\<forall>m \<in> set ms. mend m \<le> n" and "k \<le> n"
  shows "contiguous k ms n"
  using assms
proof (induction ms arbitrary: k)
  case Nil
  then show ?case by (auto simp: le_eq_less_or_eq)
next
  case (Cons m ms)
  then have o: "ordered_from (mend m) ms" and km: "k \<le> mstart m" and mn: "mend m \<le> n" by auto
  have "mstart m = k"
  proof (rule ccontr)
    assume "mstart m \<noteq> k"
    then have lt: "k < mstart m" using km by simp
    then have "resolve (m # ms) k = None"
      using resolve_below [OF o, of k] mstart_le_mend [of m] by simp
    with Cons.prems(2) lt mn mstart_le_mend [of m] show False
      by (metis le_refl less_le_trans order.trans)
  qed
  moreover have "resolve ms p \<noteq> None" if "mend m \<le> p" "p < n" for p
  proof -
    have "k \<le> p" using that(1) km mstart_le_mend [of m] by linarith
    with Cons.prems(2) that have "resolve (m # ms) p \<noteq> None" by blast
    with that(1) show ?thesis by (simp split: if_splits)
  qed
  then have "contiguous (mend m) ms n" using Cons.prems(3) o mn by (intro Cons.IH) auto
  ultimately show ?case using Cons.prems by simp
qed

text \<open>\<open>ValidateMappings\<close> accepts exactly the contiguous, block-aligned lists that end at the size.\<close>

lemma validate_loop_contiguous:
  assumes "contiguous (unat c) ms n" and "\<forall>m \<in> set ms. Length m mod bs = 0" and "n \<le> unat sz"
  shows "\<exists>c'. validate_loop c sz bs ms = Inr c' \<and> unat c' = n"
  using assms
proof (induction ms arbitrary: c)
  case (Cons m ms)
  then have c: "c = Offset m" and ok: "bm_ok m" and r: "contiguous (mend m) ms n"
    by (auto simp: mstart_def)
  have "unat (c + Length m) = mend m" using ok by (simp add: c bm_ok_end)
  moreover have "mend m \<le> unat sz" using contiguous_le [OF r] Cons.prems(3) by simp
  ultimately show ?case using Cons r c by (simp add: word_less_nat_alt)
qed simp

lemma ValidateMappings_contiguous:
  assumes "contiguous 0 ms (unat sz)" and "\<forall>m \<in> set ms. Length m mod bs = 0" and "bs \<noteq> 0"
  shows "ValidateMappings ms sz bs = Inr ()"
  using validate_loop_contiguous [of 0 ms "unat sz" bs sz] assms
  by (auto simp: ValidateMappings_def)

section \<open>NormalizeMappings\<close>

fun normalized :: "BuildMap list \<Rightarrow> bool" where
  "normalized (a # b # ms) =
     (\<not> (BuildId b = BuildId a \<and>
          (BuildId b = uuid_Nil \<or> BuildStorageOffset b = BuildStorageOffset a + Length a)) \<and>
      normalized (b # ms))"
| "normalized ms = True"

lemma normalize_loop_shape:
  "\<exists>len ms'. normalize_loop m ms = m\<lparr>Length := len\<rparr> # ms'"
proof (induction ms arbitrary: m)
  case Nil
  show ?case by (rule exI [of _ "Length m"]) simp
next
  case (Cons mp ms)
  show ?case
  proof (cases "BuildId mp = BuildId m \<and>
      (BuildId mp = uuid_Nil \<or> BuildStorageOffset mp = BuildStorageOffset m + Length m)")
    case True
    then show ?thesis using Cons.IH [of "m\<lparr>Length := Length m + Length mp\<rparr>"] by (auto simp: Let_def)
  next
    case False
    then show ?thesis by (intro exI [of _ "Length m"]) (auto simp: Let_def)
  qed
qed

text \<open>Joining two neighbours keeps what every byte reads.\<close>

lemma join_ok:
  assumes "bm_ok m" "bm_ok mp" "mstart mp = mend m" "BuildId mp = BuildId m"
    and "BuildId mp = uuid_Nil \<or> BuildStorageOffset mp = BuildStorageOffset m + Length m"
  defines "j \<equiv> m\<lparr>Length := Length m + Length mp\<rparr>"
  shows "mstart j = mstart m" "mend j = mend mp" "bm_ok j"
    "mstart m \<le> p \<Longrightarrow> p < mend m \<Longrightarrow> source_of j p = source_of m p"
    "mend m \<le> p \<Longrightarrow> source_of j p = source_of mp p"
proof -
  have b: "unat (Length m) + unat (Length mp) < 2 ^ 64"
    using assms(1-3) by (auto simp: bm_ok_def mstart_def mend_def)
  then have l: "unat (Length m + Length mp) = unat (Length m) + unat (Length mp)" by (rule unat_add_u64)
  show j: "mstart j = mstart m" "mend j = mend mp"
    using assms(3) l by (simp_all add: j_def mstart_def mend_def)
  have st: "unat (BuildStorageOffset mp) = unat (BuildStorageOffset m) + unat (Length m)"
    if "BuildId m \<noteq> uuid_Nil"
    using assms(1,4,5) that by (simp add: bm_ok_def unat_add_u64)
  show "bm_ok j" using assms(2,4) st l by (auto simp: bm_ok_def j) (auto simp: j_def)
  show "mstart m \<le> p \<Longrightarrow> p < mend m \<Longrightarrow> source_of j p = source_of m p"
    by (simp add: source_of_def j) (simp add: j_def)
  show "source_of j p = source_of mp p" if "mend m \<le> p"
    using that st assms(3,4) by (auto simp: source_of_def j) (auto simp: j_def mstart_def mend_def)
qed

lemma normalize_loop_correct:
  "contiguous k (m # ms) n \<Longrightarrow>
   contiguous k (normalize_loop m ms) n \<and> normalized (normalize_loop m ms) \<and>
   resolve (normalize_loop m ms) p = resolve (m # ms) p"
proof (induction ms arbitrary: m k)
  case (Cons mp ms)
  then have c: "mstart m = k" "bm_ok m" "mstart mp = mend m" "bm_ok mp" "contiguous (mend mp) ms n" by auto
  show ?case
  proof (cases "BuildId mp = BuildId m \<and>
      (BuildId mp = uuid_Nil \<or> BuildStorageOffset mp = BuildStorageOffset m + Length m)")
    case True
    note j = join_ok [OF c(2,4,3) conjunct1 [OF True] conjunct2 [OF True]]
    have "contiguous k (m\<lparr>Length := Length m + Length mp\<rparr> # ms) n" using c j(1-3) by simp
    from Cons.IH [OF this] True c j(1,2) j(4,5) [of p] mstart_le_mend [of m] mstart_le_mend [of mp] show ?thesis
      by (auto simp: Let_def simp del: mstart_le_mend)
  next
    case False
    moreover obtain len ms' where "normalize_loop mp ms = mp\<lparr>Length := len\<rparr> # ms'"
      using normalize_loop_shape by blast
    ultimately show ?thesis using Cons.IH [of "mend m" mp] c by (auto simp: Let_def)
  qed
qed simp

lemma NormalizeMappings_ok:
  assumes "contiguous 0 ms n"
  shows "contiguous 0 (NormalizeMappings ms) n \<and> normalized (NormalizeMappings ms) \<and>
    resolve (NormalizeMappings ms) p = resolve ms p"
  using assms normalize_loop_correct [of 0 "hd ms" "tl ms" n p]
  by (cases ms) (auto simp: NormalizeMappings_def)

text \<open>
  C30. \<open>NormalizeMappings\<close> joins neighbours without changing the device: on a contiguous mapping the
  result is contiguous over the same range, no two neighbours of it could still be joined, and
  every byte resolves as before.
\<close>

theorem NormalizeMappings_correct:
  assumes "contiguous 0 ms n"
  shows "contiguous 0 (NormalizeMappings ms) n \<and> normalized (NormalizeMappings ms) \<and>
    resolve (NormalizeMappings ms) p = resolve ms p"
  by (rule NormalizeMappings_ok [OF assms])

theorem NormalizeMappings_correct_witness:
  "let ms = [\<lparr>Offset = 0, Length = 4096, BuildId = 7, BuildStorageOffset = 0\<rparr>,
             \<lparr>Offset = 4096, Length = 4096, BuildId = 7, BuildStorageOffset = 4096\<rparr>]
   in contiguous 0 ms 8192 \<and> normalized (NormalizeMappings ms) \<and>
      resolve (NormalizeMappings ms) 5000 = Some (FromBuild 7 5000)"
proof -
  let ?ms = "[\<lparr>Offset = 0, Length = 4096, BuildId = 7, BuildStorageOffset = 0\<rparr>,
             \<lparr>Offset = 4096, Length = 4096, BuildId = 7, BuildStorageOffset = 4096\<rparr>]"
  have c: "contiguous 0 ?ms 8192" by (simp add: mstart_def mend_def bm_ok_def)
  show ?thesis
    using c NormalizeMappings_correct [OF c, of 5000]
    by (simp add: Let_def mstart_def mend_def source_of_def)
qed

section \<open>Properties of single entries\<close>

text \<open>
  The contract of a property of entries that the operations keep: the two remainders of a split
  entry have it, and so has the join of two neighbours. Then every list that \<open>MergeMappings\<close> and
  \<open>NormalizeMappings\<close> make of entries with the property consists of such entries.
\<close>

locale entry_property =
  fixes Q :: "BuildMap \<Rightarrow> bool"
  assumes Q_left: "\<lbrakk>Q base; Q diff; bm_ok base; bm_ok diff; mstart base \<le> mstart diff; mstart diff \<le> mend base;
      l \<in> set (left_base base diff)\<rbrakk> \<Longrightarrow> Q l"
    and Q_right: "\<lbrakk>Q base; Q diff; bm_ok base; bm_ok diff; mstart base \<le> mend diff;
      r \<in> set (right_base base diff)\<rbrakk> \<Longrightarrow> Q r"
    and Q_join: "\<lbrakk>Q m; Q mp; bm_ok m; bm_ok mp; mstart mp = mend m; BuildId mp = BuildId m;
      BuildId mp = uuid_Nil \<or> BuildStorageOffset mp = BuildStorageOffset m + Length m\<rbrakk> \<Longrightarrow>
      Q (m\<lparr>Length := Length m + Length mp\<rparr>)"
begin

lemma merge_loop_Q:
  "ordered_from k bases \<Longrightarrow> ordered_from k diffs \<Longrightarrow> \<forall>m \<in> set bases \<union> set diffs. Q m \<Longrightarrow>
   \<forall>m \<in> set (merge_loop bases diffs). Q m"
proof (induction "length bases + length diffs" arbitrary: k bases diffs rule: less_induct)
  case less
  show ?case
  proof (cases "bases = [] \<or> diffs = []")
    case True
    with less.prems show ?thesis by (cases bases) auto
  next
    case False
    then obtain base bs diff ds where e: "bases = base # bs" "diffs = diff # ds"
      by (meson neq_Nil_conv)
    with less.prems have ok: "bm_ok base" "bm_ok diff"
      and ob: "ordered_from (mend base) bs" and od: "ordered_from (mend diff) ds"
      and ob0: "ordered_from 0 bs" and od0: "ordered_from 0 ds"
      and q: "Q base" "Q diff" "\<forall>m \<in> set bs. Q m" "\<forall>m \<in> set ds. Q m"
      by (auto intro: ordered_from_mono)
    have base_next: "\<forall>m \<in> set (merge_loop bs (diff # ds)). Q m"
      using q ok od e by (intro less.hyps [OF _ ob0]) auto
    have diff_next: "\<forall>m \<in> set (merge_loop (base # bs) ds). Q m"
      using q ok ob e by (intro less.hyps [OF _ _ od0]) auto
    have left: "\<forall>m \<in> set (left_base base diff). Q m"
      if "mstart base \<le> mstart diff" "mstart diff \<le> mend base"
      using Q_left [OF q(1,2) ok that] by blast
    have right_next: "\<forall>m \<in> set (merge_loop (right_base base diff @ bs) ds). Q m"
      if "mstart base \<le> mend diff"
    proof -
      have "ordered_from 0 (right_base base diff @ bs)"
        using right_base_ordered [OF ok that ob] by (rule ordered_from_mono) simp
      then show ?thesis
        using q e length_right_base [of base diff] Q_right [OF q(1,2) ok that] that
        by (intro less.hyps [OF _ _ od0]) auto
    qed
    show ?thesis
      unfolding e merge_loop_step [OF ok] using base_next diff_next left right_next q by auto
  qed
qed

lemma MergeMappings_Q:
  assumes "ordered_from 0 bases" "ordered_from 0 diffs" "\<forall>m \<in> set bases \<union> set diffs. Q m"
  shows "\<forall>m \<in> set (MergeMappings bases diffs). Q m"
  using merge_loop_Q [OF assms] assms(3) by (auto simp: MergeMappings_def)

lemma normalize_loop_Q:
  "contiguous k (m # ms) n \<Longrightarrow> Q m \<Longrightarrow> \<forall>m \<in> set ms. Q m \<Longrightarrow> \<forall>m \<in> set (normalize_loop m ms). Q m"
proof (induction ms arbitrary: m k)
  case (Cons mp ms)
  then have c: "bm_ok m" "mstart mp = mend m" "bm_ok mp" "contiguous (mend mp) ms n" "mstart m = k" by auto
  show ?case
  proof (cases "BuildId mp = BuildId m \<and>
      (BuildId mp = uuid_Nil \<or> BuildStorageOffset mp = BuildStorageOffset m + Length m)")
    case True
    note j = join_ok [OF c(1,3,2) conjunct1 [OF True] conjunct2 [OF True]]
    have "Q (m\<lparr>Length := Length m + Length mp\<rparr>)" using Cons.prems c True by (intro Q_join) auto
    then have "\<forall>x \<in> set (normalize_loop (m\<lparr>Length := Length m + Length mp\<rparr>) ms). Q x"
      using c j(1-3) Cons.prems by (intro Cons.IH [of k]) auto
    with True show ?thesis by (auto simp: Let_def)
  next
    case False
    then show ?thesis using Cons.IH [of "mend m" mp] Cons.prems c by (auto simp: Let_def)
  qed
qed simp

lemma NormalizeMappings_Q:
  "contiguous 0 ms n \<Longrightarrow> \<forall>m \<in> set ms. Q m \<Longrightarrow> \<forall>m \<in> set (NormalizeMappings ms). Q m"
  using normalize_loop_Q [of 0 "hd ms" "tl ms" n] by (cases ms) (auto simp: NormalizeMappings_def)

end

end
