(* ===== verification/Compact_Mapping.thy ===== *)
theory Compact_Mapping
  imports Build_Mapping
begin

text \<open>
  The compact in-memory mapping (\<open>packages/shared/pkg/storage/header/compact.go\<close>): the entries of a
  header as parallel columns of block indices, with the build ids in a table addressed by
  \<open>uint16\<close>. An index out of range and a division by zero panic in Go; they are \<open>None\<close> here.
\<close>

section \<open>Data\<close>

record Mapping =
  blockSize :: u64
  builds :: "uuid list"
  offsets :: "u32 list"
  lengths :: "u32 list"
  storage :: "u32 list"
  buildIdx :: "u16 list"

definition nilBuildIdx :: u16 where "nilBuildIdx = 65535"
definition maxBuildsPerHeader :: nat where "maxBuildsPerHeader = unat nilBuildIdx"
definition maxBlockIdx :: u64 where "maxBlockIdx = 4294967295"

datatype compact_error =
    CZeroBlockSize | OffsetUnaligned | LengthUnaligned | StorageUnaligned
  | BlockIdxRange | TooManyBuilds | ColumnMismatch | BuildIdxRange

section \<open>NewMapping\<close>

type_synonym row = "u32 \<times> u32 \<times> u32 \<times> u16"

text \<open>One round of the loop over \<open>src\<close>: the three alignment checks, the range check, the build
  table, and the entry's four columns.\<close>

definition pack_entry ::
  "u64 \<Rightarrow> (uuid \<rightharpoonup> u16) \<Rightarrow> uuid list \<Rightarrow> BuildMap \<Rightarrow> compact_error + ((uuid \<rightharpoonup> u16) \<times> uuid list \<times> row)" where
  "pack_entry bsz idxByBuild blds m =
     (if Offset m mod bsz \<noteq> 0 then Inl OffsetUnaligned
      else if Length m mod bsz \<noteq> 0 then Inl LengthUnaligned
      else if BuildStorageOffset m mod bsz \<noteq> 0 then Inl StorageUnaligned
      else
        let offBlocks = Offset m div bsz; lenBlocks = Length m div bsz;
            stoBlocks = BuildStorageOffset m div bsz in
        if offBlocks > maxBlockIdx \<or> lenBlocks > maxBlockIdx \<or> stoBlocks > maxBlockIdx
        then Inl BlockIdxRange
        else if BuildId m = uuid_Nil
        then Inr (idxByBuild, blds, ucast offBlocks, ucast lenBlocks, ucast stoBlocks, nilBuildIdx)
        else case idxByBuild (BuildId m) of
          Some idx \<Rightarrow> Inr (idxByBuild, blds, ucast offBlocks, ucast lenBlocks, ucast stoBlocks, idx)
        | None \<Rightarrow>
            if length blds \<ge> maxBuildsPerHeader then Inl TooManyBuilds
            else let idx = word_of_nat (length blds) in
              Inr (idxByBuild(BuildId m \<mapsto> idx), blds @ [BuildId m],
                   ucast offBlocks, ucast lenBlocks, ucast stoBlocks, idx))"

fun pack_loop ::
  "u64 \<Rightarrow> (uuid \<rightharpoonup> u16) \<Rightarrow> uuid list \<Rightarrow> BuildMap list \<Rightarrow> compact_error + (uuid list \<times> row list)" where
  "pack_loop bsz idxByBuild blds [] = Inr (blds, [])"
| "pack_loop bsz idxByBuild blds (m # ms) =
     (case pack_entry bsz idxByBuild blds m of
        Inl e \<Rightarrow> Inl e
      | Inr (idxByBuild', blds', r) \<Rightarrow>
          (case pack_loop bsz idxByBuild' blds' ms of
             Inl e \<Rightarrow> Inl e
           | Inr (blds'', rs) \<Rightarrow> Inr (blds'', r # rs)))"

definition NewMapping :: "u64 \<Rightarrow> BuildMap list \<Rightarrow> compact_error + Mapping" where
  "NewMapping bsz src =
     (if bsz = 0 then Inl CZeroBlockSize
      else if src = [] then
        Inr \<lparr>blockSize = bsz, builds = [], offsets = [], lengths = [], storage = [], buildIdx = []\<rparr>
      else case pack_loop bsz Map.empty [] src of
        Inl e \<Rightarrow> Inl e
      | Inr (blds, rs) \<Rightarrow>
          Inr \<lparr>blockSize = bsz, builds = blds, offsets = map (\<lambda>(o', l, s, i). o') rs,
               lengths = map (\<lambda>(o', l, s, i). l) rs, storage = map (\<lambda>(o', l, s, i). s) rs,
               buildIdx = map (\<lambda>(o', l, s, i). i) rs\<rparr>)"

definition newMappingFromColumns ::
  "u64 \<Rightarrow> uuid list \<Rightarrow> u32 list \<Rightarrow> u32 list \<Rightarrow> u32 list \<Rightarrow> u16 list \<Rightarrow> compact_error + Mapping" where
  "newMappingFromColumns bsz blds offs lens sto bidx =
     (let n = length offs in
      if length lens \<noteq> n \<or> length sto \<noteq> n \<or> length bidx \<noteq> n then Inl ColumnMismatch
      else if list_ex (\<lambda>bi. bi \<noteq> nilBuildIdx \<and> unat bi \<ge> length blds) bidx then Inl BuildIdxRange
      else Inr \<lparr>blockSize = bsz, builds = blds, offsets = offs, lengths = lens, storage = sto,
                buildIdx = bidx\<rparr>)"

section \<open>Reading\<close>

definition nth_opt :: "'a list \<Rightarrow> nat \<Rightarrow> 'a option" where
  "nth_opt xs i = (if i < length xs then Some (xs ! i) else None)"

definition At :: "Mapping \<Rightarrow> nat \<Rightarrow> BuildMap option" where
  "At m i =
     (case nth_opt (buildIdx m) i of None \<Rightarrow> None | Some bi \<Rightarrow>
      case (if bi \<noteq> nilBuildIdx then nth_opt (builds m) (unat bi) else Some uuid_Nil) of
        None \<Rightarrow> None
      | Some buildID \<Rightarrow>
          (case (nth_opt (offsets m) i, nth_opt (lengths m) i, nth_opt (storage m) i) of
             (Some off, Some len, Some sto) \<Rightarrow>
               Some \<lparr>Offset = ucast off * blockSize m, Length = ucast len * blockSize m,
                     BuildId = buildID, BuildStorageOffset = ucast sto * blockSize m\<rparr>
           | _ \<Rightarrow> None))"

definition Slice :: "Mapping \<Rightarrow> BuildMap list option" where
  "Slice m = List.those (map (At m) [0..<length (offsets m)])"

definition Len :: "Mapping \<Rightarrow> nat" where
  "Len m = length (offsets m)"

fun sum_loop :: "u64 list \<Rightarrow> (u16 \<times> u32 option) list \<Rightarrow> u64 list option" where
  "sum_loop sums [] = Some sums"
| "sum_loop sums ((bi, len) # rest) =
     (if bi \<noteq> nilBuildIdx
      then (case len of
              None \<Rightarrow> None
            | Some l \<Rightarrow> if unat bi < length sums
                then sum_loop (sums[unat bi := sums ! unat bi + ucast l]) rest else None)
      else sum_loop sums rest)"

definition BytesByBuild :: "Mapping \<Rightarrow> (uuid \<rightharpoonup> u64) option" where
  "BytesByBuild m =
     (case sum_loop (replicate (length (builds m)) 0)
             (map (\<lambda>i. (buildIdx m ! i, nth_opt (lengths m) i)) [0..<length (buildIdx m)]) of
        None \<Rightarrow> None
      | Some sums \<Rightarrow>
          Some (foldl (\<lambda>out (bid, blocks). out(bid \<mapsto> blocks * blockSize m)) Map.empty
                 (zip (builds m) sums)))"

fun compact_validate_loop ::
  "u64 \<Rightarrow> u64 \<Rightarrow> u64 \<Rightarrow> (u32 \<times> u32 option) list \<Rightarrow> (mapping_error + u64) option" where
  "compact_validate_loop currentOffset sz bsz [] = Some (Inr currentOffset)"
| "compact_validate_loop currentOffset sz bsz ((off, len) # rest) =
     (case len of
        None \<Rightarrow> None
      | Some ln \<Rightarrow>
          let offset = ucast off * bsz; l = ucast ln * bsz in
          if currentOffset \<noteq> offset then Some (Inl BadOffset)
          else if currentOffset + l > sz then Some (Inl BeyondSize)
          else compact_validate_loop (currentOffset + l) sz bsz rest)"

text \<open>\<open>None\<close> is the panic of the \<open>Slice\<close> fallback or of a \<open>lengths\<close> column that is too short.\<close>

definition Validate :: "Mapping \<Rightarrow> u64 \<Rightarrow> u64 \<Rightarrow> (mapping_error + unit) option" where
  "Validate m sz bsz =
     (if bsz = 0 then Some (Inl ZeroBlockSize)
      else if blockSize m mod bsz \<noteq> 0 then map_option (\<lambda>ms. ValidateMappings ms sz bsz) (Slice m)
      else map_option
        (\<lambda>r. case r of
           Inl e \<Rightarrow> Inl e
         | Inr currentOffset \<Rightarrow> if currentOffset \<noteq> sz then Inl NotCovering else Inr ())
        (compact_validate_loop 0 sz (blockSize m)
          (map (\<lambda>i. (offsets m ! i, nth_opt (lengths m) i)) [0..<length (offsets m)])))"

function search_loop :: "u32 list \<Rightarrow> u64 \<Rightarrow> nat \<Rightarrow> nat \<Rightarrow> nat" where
  "search_loop offs target lo hi =
     (if lo < hi then
        let mid = (lo + hi) div 2 in
        if ucast (offs ! mid) > target then search_loop offs target lo mid
        else search_loop offs target (mid + 1) hi
      else lo)"
  by pat_completeness auto
termination
  by (relation "measure (\<lambda>(offs, target, lo, hi). hi - lo)") auto

definition SearchOffset :: "Mapping \<Rightarrow> i64 \<Rightarrow> nat option" where
  "SearchOffset m off =
     (if sint off < 0 \<or> offsets m = [] then Some 0
      else if blockSize m = 0 then None
      else Some (search_loop (offsets m) (off div blockSize m) 0 (length (offsets m))))"


declare search_loop.simps [simp del]

section \<open>The invariant of a compact mapping\<close>

definition mapping_wf :: "Mapping \<Rightarrow> bool" where
  "mapping_wf m \<longleftrightarrow> blockSize m \<noteq> 0 \<and>
     length (lengths m) = length (offsets m) \<and> length (storage m) = length (offsets m) \<and>
     length (buildIdx m) = length (offsets m) \<and>
     (\<forall>bi \<in> set (buildIdx m). bi = nilBuildIdx \<or> unat bi < length (builds m))"

definition build_at :: "uuid list \<Rightarrow> u16 \<Rightarrow> uuid" where
  "build_at blds bi = (if bi = nilBuildIdx then uuid_Nil else blds ! unat bi)"

text \<open>The entry that the columns hold at \<open>i\<close>.\<close>

definition entry_at :: "Mapping \<Rightarrow> nat \<Rightarrow> BuildMap" where
  "entry_at m i = \<lparr>Offset = ucast (offsets m ! i) * blockSize m,
     Length = ucast (lengths m ! i) * blockSize m, BuildId = build_at (builds m) (buildIdx m ! i),
     BuildStorageOffset = ucast (storage m ! i) * blockSize m\<rparr>"

definition entries :: "Mapping \<Rightarrow> BuildMap list" where
  "entries m = map (entry_at m) [0..<length (offsets m)]"

lemma At_wf: "mapping_wf m \<Longrightarrow> i < length (offsets m) \<Longrightarrow> At m i = Some (entry_at m i)"
  unfolding mapping_wf_def At_def nth_opt_def entry_at_def build_at_def by (auto dest: nth_mem)

lemma those_Some: "(\<And>x. x \<in> set xs \<Longrightarrow> f x = Some (g x)) \<Longrightarrow> List.those (map f xs) = Some (map g xs)"
  by (induction xs) auto

lemma Slice_wf: "mapping_wf m \<Longrightarrow> Slice m = Some (entries m)"
  unfolding Slice_def entries_def by (rule those_Some) (simp add: At_wf)

lemma newMappingFromColumns_wf:
  "newMappingFromColumns bsz blds offs lens sto bidx = Inr m \<Longrightarrow> bsz \<noteq> 0 \<Longrightarrow> mapping_wf m"
  by (auto simp: newMappingFromColumns_def mapping_wf_def Let_def list_ex_iff not_le split: if_splits)

section \<open>NewMapping\<close>

text \<open>The build table and the map into it agree.\<close>

definition table_ok :: "(uuid \<rightharpoonup> u16) \<Rightarrow> uuid list \<Rightarrow> bool" where
  "table_ok t blds \<longleftrightarrow> distinct blds \<and> length blds \<le> maxBuildsPerHeader \<and> dom t = set blds \<and>
     uuid_Nil \<notin> set blds \<and> (\<forall>b i. t b = Some i \<longrightarrow> unat i < length blds \<and> blds ! unat i = b)"

definition aligned :: "u64 \<Rightarrow> BuildMap \<Rightarrow> bool" where
  "aligned bsz m \<longleftrightarrow> Offset m mod bsz = 0 \<and> Length m mod bsz = 0 \<and> BuildStorageOffset m mod bsz = 0 \<and>
     Offset m div bsz \<le> maxBlockIdx \<and> Length m div bsz \<le> maxBlockIdx \<and>
     BuildStorageOffset m div bsz \<le> maxBlockIdx"

definition row_entry :: "u64 \<Rightarrow> uuid list \<Rightarrow> row \<Rightarrow> BuildMap" where
  "row_entry bsz blds r = (case r of (off, len, sto, bi) \<Rightarrow>
     \<lparr>Offset = ucast off * bsz, Length = ucast len * bsz, BuildId = build_at blds bi,
      BuildStorageOffset = ucast sto * bsz\<rparr>)"

lemma block_roundtrip:
  assumes "x mod bsz = 0" and "x div bsz \<le> maxBlockIdx"
  shows "ucast (ucast (x div bsz) :: u32) * bsz = (x :: u64)"
proof -
  have "unat (x div bsz) < 2 ^ 32" using assms(2) by (simp add: maxBlockIdx_def word_le_nat_alt)
  then have "ucast (ucast (x div bsz) :: u32) = x div bsz"
    by (rule ucast_u32_u64)
  with assms(1) show ?thesis by (simp add: minus_mod_eq_div_mult [symmetric])
qed

lemma unat_build_idx: "n < maxBuildsPerHeader \<Longrightarrow> unat (word_of_nat n :: u16) = n"
  by (simp add: maxBuildsPerHeader_def nilBuildIdx_def unat_of_nat take_bit_eq_mod)

lemma build_at_lt: "unat bi < length blds \<Longrightarrow> length blds \<le> maxBuildsPerHeader \<Longrightarrow>
  bi \<noteq> nilBuildIdx \<and> build_at blds bi = blds ! unat bi"
  by (auto simp: build_at_def maxBuildsPerHeader_def)

lemma table_ok_insert:
  assumes "table_ok t blds" "b \<notin> set blds" "b \<noteq> uuid_Nil" "length blds < maxBuildsPerHeader"
  shows "table_ok (t(b \<mapsto> word_of_nat (length blds))) (blds @ [b])"
  using assms unat_build_idx [OF assms(4)]
  by (auto simp: table_ok_def nth_append intro: less_SucI split: if_splits)

text \<open>One packed entry, its four columns and the build table after it.\<close>

definition packed :: "u64 \<Rightarrow> uuid list \<Rightarrow> uuid list \<Rightarrow> BuildMap \<Rightarrow> row \<Rightarrow> bool" where
  "packed bsz blds blds' m r \<longleftrightarrow> (\<exists>bs. blds' = blds @ bs) \<and> aligned bsz m \<and>
     set blds' = set blds \<union> ({BuildId m} - {uuid_Nil}) \<and>
     (snd (snd (snd r)) = nilBuildIdx \<or> unat (snd (snd (snd r))) < length blds') \<and>
     row_entry bsz blds' r = m"

lemma packed_intro:
  assumes "aligned bsz m" and "build_at blds' idx = BuildId m" and "\<exists>bs. blds' = blds @ bs"
    and "set blds' = set blds \<union> ({BuildId m} - {uuid_Nil})" and "idx = nilBuildIdx \<or> unat idx < length blds'"
  shows "packed bsz blds blds' m (ucast (Offset m div bsz), ucast (Length m div bsz),
    ucast (BuildStorageOffset m div bsz), idx)"
  using assms by (auto simp: packed_def row_entry_def aligned_def block_roundtrip)

lemma pack_entry_ok:
  assumes t: "table_ok t blds" and e: "pack_entry bsz t blds m = Inr (t', blds', r)"
  shows "table_ok t' blds' \<and> packed bsz blds blds' m r"
proof -
  from e have a: "aligned bsz m"
    by (auto simp: pack_entry_def aligned_def Let_def not_less split: if_splits)
  consider (nil) "BuildId m = uuid_Nil"
    | (old) idx where "BuildId m \<noteq> uuid_Nil" "t (BuildId m) = Some idx"
    | (new) "BuildId m \<noteq> uuid_Nil" "t (BuildId m) = None" "length blds < maxBuildsPerHeader"
    using e by (cases "t (BuildId m)") (auto simp: pack_entry_def Let_def split: if_splits)
  then show ?thesis
  proof cases
    case nil
    with e have "t' = t" "blds' = blds" "r = (ucast (Offset m div bsz), ucast (Length m div bsz),
      ucast (BuildStorageOffset m div bsz), nilBuildIdx)"
      by (auto simp: pack_entry_def Let_def split: if_splits)
    with nil a t show ?thesis by (auto intro!: packed_intro simp: build_at_def)
  next
    case old
    with e have r: "t' = t" "blds' = blds" "r = (ucast (Offset m div bsz), ucast (Length m div bsz),
      ucast (BuildStorageOffset m div bsz), idx)"
      by (auto simp: pack_entry_def Let_def split: if_splits)
    have "unat idx < length blds" "blds ! unat idx = BuildId m" "length blds \<le> maxBuildsPerHeader"
      using t old by (auto simp: table_ok_def)
    with r old a t show ?thesis using build_at_lt [of idx blds] nth_mem [of "unat idx" blds]
      by (auto intro!: packed_intro)
  next
    case new
    let ?i = "word_of_nat (length blds) :: u16"
    from new e have r: "t' = t(BuildId m \<mapsto> ?i)" "blds' = blds @ [BuildId m]"
      "r = (ucast (Offset m div bsz), ucast (Length m div bsz), ucast (BuildStorageOffset m div bsz), ?i)"
      by (auto simp: pack_entry_def Let_def split: if_splits)
    have "BuildId m \<notin> set blds" using t new(2) by (metis table_ok_def domIff)
    with r new a t show ?thesis
      using build_at_lt [of ?i "blds @ [BuildId m]"] table_ok_insert [OF t] unat_build_idx [OF new(3)]
      by (auto intro!: packed_intro)
  qed
qed

lemma row_entry_append:
  "snd (snd (snd r)) = nilBuildIdx \<or> unat (snd (snd (snd r))) < length blds \<Longrightarrow>
   row_entry bsz (blds @ bs) r = row_entry bsz blds r"
  by (cases r) (auto simp: row_entry_def build_at_def nth_append)

lemma pack_loop_ok:
  assumes "table_ok t blds" and "pack_loop bsz t blds ms = Inr (blds', rs)"
  shows "distinct blds' \<and> length blds' \<le> maxBuildsPerHeader \<and> (\<exists>bs. blds' = blds @ bs) \<and>
    set blds' = set blds \<union> (BuildId ` set ms - {uuid_Nil}) \<and>
    (\<forall>m \<in> set ms. aligned bsz m) \<and> map (row_entry bsz blds') rs = ms \<and>
    (\<forall>r \<in> set rs. snd (snd (snd r)) = nilBuildIdx \<or> unat (snd (snd (snd r))) < length blds')"
  using assms
proof (induction ms arbitrary: t blds rs)
  case Nil
  then show ?case by (auto simp: table_ok_def)
next
  case (Cons m ms)
  from Cons.prems(2) obtain t1 blds1 r rs1 where e: "pack_entry bsz t blds m = Inr (t1, blds1, r)"
    and l: "pack_loop bsz t1 blds1 ms = Inr (blds', rs1)" and rs: "rs = r # rs1"
    by (auto split: sum.splits)
  from pack_entry_ok [OF Cons.prems(1) e] have t1: "table_ok t1 blds1" and p: "packed bsz blds blds1 m r"
    by auto
  from Cons.IH [OF t1 l] obtain bs where bs: "blds' = blds1 @ bs" by blast
  have "row_entry bsz blds' r = m" using p bs by (simp add: packed_def row_entry_append)
  with Cons.IH [OF t1 l] p rs bs show ?case by (auto simp: packed_def)
qed

lemma table_ok_empty: "table_ok Map.empty []"
  by (simp add: table_ok_def)

lemma NewMapping_cases:
  assumes "NewMapping bsz src = Inr m"
  obtains rs where "bsz \<noteq> 0" "pack_loop bsz Map.empty [] src = Inr (builds m, rs)"
    "blockSize m = bsz" "offsets m = map (\<lambda>(o', l, s, i). o') rs" "lengths m = map (\<lambda>(o', l, s, i). l) rs"
    "storage m = map (\<lambda>(o', l, s, i). s) rs" "buildIdx m = map (\<lambda>(o', l, s, i). i) rs"
  using assms by (auto simp: NewMapping_def split: if_splits sum.splits prod.splits)

lemma NewMapping_wf: "NewMapping bsz src = Inr m \<Longrightarrow> mapping_wf m"
proof (erule NewMapping_cases)
  fix rs
  assume "bsz \<noteq> 0" "pack_loop bsz Map.empty [] src = Inr (builds m, rs)" "blockSize m = bsz"
    "offsets m = map (\<lambda>(o', l, s, i). o') rs" "lengths m = map (\<lambda>(o', l, s, i). l) rs"
    "storage m = map (\<lambda>(o', l, s, i). s) rs" "buildIdx m = map (\<lambda>(o', l, s, i). i) rs"
  with pack_loop_ok [OF table_ok_empty, of bsz src "builds m" rs] show "mapping_wf m"
    by (auto simp: mapping_wf_def)
qed

lemma NewMapping_entries: "NewMapping bsz src = Inr m \<Longrightarrow> entries m = src"
proof (erule NewMapping_cases)
  fix rs
  assume c: "pack_loop bsz Map.empty [] src = Inr (builds m, rs)" "blockSize m = bsz"
    "offsets m = map (\<lambda>(o', l, s, i). o') rs" "lengths m = map (\<lambda>(o', l, s, i). l) rs"
    "storage m = map (\<lambda>(o', l, s, i). s) rs" "buildIdx m = map (\<lambda>(o', l, s, i). i) rs"
  then have "entry_at m i = row_entry bsz (builds m) (rs ! i)" if "i < length rs" for i
    using that by (cases "rs ! i") (simp add: entry_at_def row_entry_def)
  then have "entries m = map (row_entry bsz (builds m)) rs"
    using c(3) by (intro nth_equalityI) (simp_all add: entries_def)
  with pack_loop_ok [OF table_ok_empty c(1)] show "entries m = src" by simp
qed

lemma NewMapping_builds:
  assumes "NewMapping bsz src = Inr m"
  shows "distinct (builds m)" "length (builds m) \<le> maxBuildsPerHeader"
    "set (builds m) = BuildId ` set src - {uuid_Nil}" "blockSize m = bsz"
proof -
  from assms obtain rs where "pack_loop bsz Map.empty [] src = Inr (builds m, rs)" and "blockSize m = bsz"
    by (rule NewMapping_cases)
  with pack_loop_ok [OF table_ok_empty this(1)] show "distinct (builds m)"
    "length (builds m) \<le> maxBuildsPerHeader" "set (builds m) = BuildId ` set src - {uuid_Nil}"
    "blockSize m = bsz" by auto
qed

text \<open>
  C32. Packing loses nothing: whenever \<open>NewMapping\<close> succeeds, \<open>Slice\<close> of the compact form does not
  panic and gives back the very list of entries, and the build table holds each non-nil build id
  of the list exactly once, at most \<open>maxBuildsPerHeader\<close> of them.
\<close>

theorem NewMapping_roundtrip:
  assumes "NewMapping bsz src = Inr m"
  shows "Slice m = Some src \<and> distinct (builds m) \<and> length (builds m) \<le> maxBuildsPerHeader \<and>
    set (builds m) = BuildId ` set src - {uuid_Nil}"
  using NewMapping_builds [OF assms] Slice_wf [OF NewMapping_wf [OF assms]] NewMapping_entries [OF assms]
  by simp

theorem NewMapping_roundtrip_witness:
  "let src = [\<lparr>Offset = 0, Length = 8192, BuildId = 7, BuildStorageOffset = 4096\<rparr>,
              \<lparr>Offset = 8192, Length = 4096, BuildId = 0, BuildStorageOffset = 0\<rparr>];
       m = \<lparr>blockSize = 4096, builds = [7], offsets = [0, 2], lengths = [2, 1], storage = [1, 0],
            buildIdx = [0, 65535]\<rparr>
   in NewMapping 4096 src = Inr m \<and> Slice m = Some src"
proof -
  let ?src = "[\<lparr>Offset = 0, Length = 8192, BuildId = 7, BuildStorageOffset = 4096\<rparr>,
              \<lparr>Offset = 8192, Length = 4096, BuildId = 0, BuildStorageOffset = 0\<rparr>] :: BuildMap list"
  let ?m = "\<lparr>blockSize = 4096, builds = [7], offsets = [0, 2], lengths = [2, 1], storage = [1, 0],
            buildIdx = [0, 65535]\<rparr> :: Mapping"
  have h: "NewMapping 4096 ?src = Inr ?m"
    by (simp add: NewMapping_def pack_entry_def Let_def maxBlockIdx_def maxBuildsPerHeader_def nilBuildIdx_def)
  show ?thesis using h NewMapping_roundtrip [OF h] by (simp add: Let_def)
qed

text \<open>Conversely, alignment, the \<open>uint32\<close> range and the table size are all that can fail.\<close>

lemma pack_loop_succeeds:
  assumes "table_ok t blds" and "\<forall>m \<in> set ms. aligned bsz m"
    and "card (set blds \<union> (BuildId ` set ms - {uuid_Nil})) \<le> maxBuildsPerHeader"
  shows "\<exists>x. pack_loop bsz t blds ms = Inr x"
  using assms
proof (induction ms arbitrary: t blds)
  case (Cons m ms)
  have room: "length blds < maxBuildsPerHeader" if "BuildId m \<noteq> uuid_Nil" "t (BuildId m) = None"
  proof -
    have "BuildId m \<notin> set blds" using that Cons.prems(1) by (metis table_ok_def domIff)
    then have "card (insert (BuildId m) (set blds)) = Suc (length blds)"
      using Cons.prems(1) by (simp add: table_ok_def distinct_card)
    moreover have "card (insert (BuildId m) (set blds)) \<le>
        card (set blds \<union> (BuildId ` set (m # ms) - {uuid_Nil}))"
      using that by (intro card_mono) auto
    ultimately show ?thesis using Cons.prems(3) by linarith
  qed
  then have "BuildId m = uuid_Nil \<or> t (BuildId m) \<noteq> None \<or> length blds < maxBuildsPerHeader" by blast
  then have "\<exists>t' blds' r. pack_entry bsz t blds m = Inr (t', blds', r)"
    using Cons.prems(2)
    by (cases "t (BuildId m)") (auto simp: pack_entry_def aligned_def Let_def not_less)
  then obtain t' blds' r where e: "pack_entry bsz t blds m = Inr (t', blds', r)" by blast
  from pack_entry_ok [OF Cons.prems(1) e] have t': "table_ok t' blds'" and p: "packed bsz blds blds' m r"
    by auto
  have "set blds' \<union> (BuildId ` set ms - {uuid_Nil}) = set blds \<union> (BuildId ` set (m # ms) - {uuid_Nil})"
    using p by (auto simp: packed_def)
  with Cons.IH [OF t'] Cons.prems(2,3) e show ?case by (fastforce split: sum.splits)
qed simp

lemma NewMapping_succeeds:
  assumes "bsz \<noteq> 0" and "\<forall>m \<in> set src. aligned bsz m"
    and "card (BuildId ` set src - {uuid_Nil}) \<le> maxBuildsPerHeader"
  shows "\<exists>m. NewMapping bsz src = Inr m"
  using pack_loop_succeeds [OF table_ok_empty, of src bsz] assms by (auto simp: NewMapping_def)

section \<open>Searching and validating\<close>

text \<open>Mappings whose block size is small enough (\<open>PageSize\<close> is) that no column value times the block
  size wraps.\<close>

definition small_blocks :: "Mapping \<Rightarrow> bool" where
  "small_blocks m \<longleftrightarrow> unat (blockSize m) \<le> 2 ^ 30"

lemma unat_block_mult:
  assumes "unat (b :: u64) \<le> 2 ^ 30"
  shows "unat (ucast (w :: u32) * b) = unat w * unat b \<and> unat w * unat b < 2 ^ 62"
proof -
  have "unat w < 2 ^ 32" using unsigned_less [of w, where 'a = nat] by simp
  then have "unat w * unat b < 2 ^ 32 * 2 ^ 30"
    using assms by (metis mult_less_le_imp_less zero_le zero_less_numeral zero_less_power mult_0_right
        bot_nat_0.not_eq_extremum mult_is_0)
  then have lt: "unat w * unat b < 2 ^ 62" by simp
  then show ?thesis using block_mult [of "ucast w" b] by simp
qed

lemma entry_at_nat:
  assumes "small_blocks m"
  shows "mstart (entry_at m i) = unat (offsets m ! i) * unat (blockSize m)"
    and "mend (entry_at m i) = (unat (offsets m ! i) + unat (lengths m ! i)) * unat (blockSize m)"
    and "bm_ok (entry_at m i)"
  using unat_block_mult [of "blockSize m" "offsets m ! i"] unat_block_mult [of "blockSize m" "lengths m ! i"]
    unat_block_mult [of "blockSize m" "storage m ! i"] assms
  by (auto simp: small_blocks_def entry_at_def mstart_def mend_def bm_ok_def add_mult_distrib)

lemma search_loop_bsearch:
  "search_loop offs t lo hi = bsearch (\<lambda>i. ucast (offs ! i) > t) lo hi"
proof (induction offs t lo hi rule: search_loop.induct)
  case (1 offs t lo hi)
  then show ?case
    by (simp add: search_loop.simps [of offs t lo hi] bsearch.simps [of _ lo hi] Let_def)
qed

lemma div_less_block: "0 < B \<Longrightarrow> p div B < k \<longleftrightarrow> p < k * (B :: nat)"
  by (simp add: div_less_iff_less_mult)

lemma SearchOffset_ok:
  assumes "mapping_wf m" and "small_blocks m" and "sorted (offsets m)" and "unat off < 2 ^ 63"
  shows "\<exists>r \<le> length (offsets m). SearchOffset m off = Some r \<and>
    (\<forall>i < length (offsets m). unat off < mstart (entry_at m i) \<longleftrightarrow> r \<le> i)"
proof (cases "offsets m = []")
  case False
  let ?f = "\<lambda>i. ucast (offsets m ! i) > off div blockSize m"
  have B: "0 < unat (blockSize m)" "blockSize m \<noteq> 0" using assms(1) by (auto simp: mapping_wf_def unat_gt_0)
  have f: "?f i \<longleftrightarrow> unat off < mstart (entry_at m i)" for i
    by (simp add: word_less_nat_alt unat_div_distrib entry_at_nat [OF assms(2)] div_less_block [OF B(1)])
  have mono: "?f j" if "i \<le> j" "j < length (offsets m)" "?f i" for i j
    using that sorted_nth_mono [OF assms(3) that(1,2)] by (simp add: word_less_nat_alt word_le_nat_alt)
  note s = sort_Search_correct [of "length (offsets m)" ?f, OF mono]
  have "SearchOffset m off = Some (sort_Search (length (offsets m)) ?f)"
    using False B(2) assms(4) by (simp add: SearchOffset_def search_loop_bsearch sort_Search_def sint_small_u64)
  then show ?thesis using s f by auto
qed (simp add: SearchOffset_def)

text \<open>
  C33. The binary search of \<open>SearchOffset\<close> finds the first entry that starts after the offset: on a
  mapping whose offsets ascend, it returns (it never panics) an index such that exactly the entries
  from that index on start beyond the offset.
\<close>

theorem SearchOffset_correct:
  assumes "mapping_wf m" and "small_blocks m" and "sorted (offsets m)" and "unat off < 2 ^ 63"
  shows "\<exists>r \<le> length (offsets m). SearchOffset m off = Some r \<and>
    (\<forall>i < length (offsets m). unat off < mstart (entry_at m i) \<longleftrightarrow> r \<le> i)"
  by (rule SearchOffset_ok [OF assms])

theorem SearchOffset_correct_witness:
  "let m = \<lparr>blockSize = 4096, builds = [7], offsets = [0, 2], lengths = [2, 1], storage = [1, 0],
            buildIdx = [0, 65535]\<rparr>
   in mapping_wf m \<and> sorted (offsets m) \<and> SearchOffset m 8191 = Some 1 \<and>
      (\<exists>r \<le> 2. SearchOffset m 8191 = Some r \<and> (\<forall>i < 2. 8191 < mstart (entry_at m i) \<longleftrightarrow> r \<le> i))"
proof -
  let ?m = "\<lparr>blockSize = 4096, builds = [7], offsets = [0, 2], lengths = [2, 1], storage = [1, 0],
            buildIdx = [0, 65535]\<rparr> :: Mapping"
  have h: "mapping_wf ?m" "small_blocks ?m" "sorted (offsets ?m)" "unat (8191 :: i64) < 2 ^ 63"
    by (simp_all add: mapping_wf_def nilBuildIdx_def small_blocks_def)
  have "SearchOffset ?m 8191 = Some 1" by code_simp
  then show ?thesis using h SearchOffset_correct [OF h] by (simp add: Let_def)
qed

section \<open>Validate\<close>

lemma compact_validate_loop_iff:
  assumes "small_blocks m" and "length (lengths m) = length (offsets m)"
    and "set is \<subseteq> {..<length (offsets m)}" and "unat c \<le> unat sz" and "unat sz < 2 ^ 63"
  shows "compact_validate_loop c sz (blockSize m) (map (\<lambda>i. (offsets m ! i, nth_opt (lengths m) i)) is)
      = Some (Inr c') \<longleftrightarrow> contiguous (unat c) (map (entry_at m) is) (unat c') \<and> unat c' \<le> unat sz"
  using assms(3,4)
proof (induction "is" arbitrary: c)
  case (Cons i "is")
  let ?e = "entry_at m i"
  have e: "Offset ?e = ucast (offsets m ! i) * blockSize m" "Length ?e = ucast (lengths m ! i) * blockSize m"
    by (simp_all add: entry_at_def)
  have ok: "bm_ok ?e" using entry_at_nat(3) [OF assms(1)] .
  have ln: "nth_opt (lengths m) i = Some (lengths m ! i)"
    using Cons.prems(1) assms(2) by (simp add: nth_opt_def)
  show ?case
  proof (cases "c = Offset ?e")
    case True
    have me: "unat (c + Length ?e) = mend ?e" using True ok by (simp add: bm_ok_end)
    have gt: "sz < c + Length ?e \<longleftrightarrow> unat sz < mend ?e" by (simp add: word_less_nat_alt me)
    show ?thesis
    proof (cases "unat sz < mend ?e")
      case True
      then have "\<not> (contiguous (mend ?e) (map (entry_at m) is) (unat c') \<and> unat c' \<le> unat sz)"
        using contiguous_le by fastforce
      with True gt \<open>c = Offset ?e\<close> ln show ?thesis by (simp add: e Let_def)
    next
      case False
      with Cons.IH [of "c + Length ?e"] Cons.prems me gt ok \<open>c = Offset ?e\<close> ln show ?thesis
        by (simp add: e Let_def mstart_def)
    qed
  next
    case False
    then show ?thesis using ln by (auto simp: e Let_def mstart_def)
  qed
qed auto

lemma compact_validate_loop_total:
  "(\<And>off len. (off, len) \<in> set rows \<Longrightarrow> len \<noteq> None) \<Longrightarrow> compact_validate_loop c sz bsz rows \<noteq> None"
proof (induction rows arbitrary: c)
  case (Cons r rows)
  obtain off len where "r = (off, Some len)" using Cons.prems by (cases r) fastforce
  moreover have "compact_validate_loop c' sz bsz rows \<noteq> None" for c'
    using Cons.prems by (intro Cons.IH) auto
  ultimately show ?case by (simp add: Let_def)
qed simp

lemma Validate_iff:
  assumes "mapping_wf m" and "small_blocks m" and "unat sz < 2 ^ 63" and "bsz \<noteq> 0" and "blockSize m mod bsz = 0"
  shows "Validate m sz bsz \<noteq> None \<and>
    (Validate m sz bsz = Some (Inr ()) \<longleftrightarrow> contiguous 0 (entries m) (unat sz))"
proof -
  let ?rows = "map (\<lambda>i. (offsets m ! i, nth_opt (lengths m) i)) [0..<length (offsets m)]"
  have loop: "compact_validate_loop 0 sz (blockSize m) ?rows = Some (Inr c') \<longleftrightarrow>
      contiguous 0 (entries m) (unat c') \<and> unat c' \<le> unat sz" for c'
    using compact_validate_loop_iff [of m "[0..<length (offsets m)]" 0 sz c'] assms
    by (simp add: mapping_wf_def entries_def lessThan_atLeast0)
  have "Validate m sz bsz = Some (Inr ()) \<longleftrightarrow>
      compact_validate_loop 0 sz (blockSize m) ?rows = Some (Inr sz)"
    using assms
    by (cases "compact_validate_loop 0 sz (blockSize m) ?rows")
      (auto simp: Validate_def split: sum.splits if_splits)
  moreover have "compact_validate_loop 0 sz (blockSize m) ?rows \<noteq> None"
    using assms(1) by (intro compact_validate_loop_total) (auto simp: mapping_wf_def nth_opt_def)
  then have "Validate m sz bsz \<noteq> None" using assms by (simp add: Validate_def)
  ultimately show ?thesis by (simp add: loop)
qed

text \<open>
  C34. \<open>Validate\<close> decides coverage: for a well-formed compact mapping whose block size is a multiple
  of the requested one it never panics, and it returns no error exactly when the entries are
  contiguous from offset 0 and end at the device size.
\<close>

theorem Validate_iff_contiguous:
  assumes "mapping_wf m" and "small_blocks m" and "unat sz < 2 ^ 63" and "bsz \<noteq> 0" and "blockSize m mod bsz = 0"
  shows "Validate m sz bsz \<noteq> None \<and>
    (Validate m sz bsz = Some (Inr ()) \<longleftrightarrow> contiguous 0 (entries m) (unat sz))"
  by (rule Validate_iff [OF assms])

theorem Validate_iff_contiguous_witness:
  "let m = \<lparr>blockSize = 4096, builds = [7], offsets = [0, 2], lengths = [2, 1], storage = [1, 0],
            buildIdx = [0, 65535]\<rparr>
   in mapping_wf m \<and> Validate m 12288 4096 = Some (Inr ()) \<and> contiguous 0 (entries m) 12288"
proof -
  let ?m = "\<lparr>blockSize = 4096, builds = [7], offsets = [0, 2], lengths = [2, 1], storage = [1, 0],
            buildIdx = [0, 65535]\<rparr> :: Mapping"
  have h: "mapping_wf ?m" "small_blocks ?m" "unat (12288 :: u64) < 2 ^ 63" "(4096 :: u64) \<noteq> 0"
    "blockSize ?m mod 4096 = 0"
    by (simp_all add: mapping_wf_def nilBuildIdx_def small_blocks_def)
  have "Validate ?m 12288 4096 = Some (Inr ())" by code_simp
  then show ?thesis using h Validate_iff_contiguous [OF h] by (simp add: Let_def)
qed

section \<open>BytesByBuild\<close>

lemma sum_loop_correct:
  assumes "\<forall>(bi, l) \<in> set rows. (bi \<noteq> nilBuildIdx \<longrightarrow> unat bi < length sums) \<and> l \<noteq> None"
  shows "\<exists>sums'. sum_loop sums rows = Some sums' \<and> length sums' = length sums \<and>
    (\<forall>j < length sums. sums' ! j = sums ! j +
      (\<Sum>(bi, l) \<leftarrow> rows. if bi \<noteq> nilBuildIdx \<and> unat bi = j then ucast (the l) else 0))"
  using assms
proof (induction rows arbitrary: sums)
  case (Cons r rows)
  obtain bi l where r: "r = (bi, Some l)" using Cons.prems by (cases r) fastforce
  show ?case
  proof (cases "bi = nilBuildIdx")
    case True
    then show ?thesis using Cons r by auto
  next
    case False
    let ?sums = "sums[unat bi := sums ! unat bi + ucast l]"
    have lt: "unat bi < length sums" using Cons.prems r False by auto
    have "\<exists>sums'. sum_loop ?sums rows = Some sums' \<and> length sums' = length ?sums \<and>
      (\<forall>j < length ?sums. sums' ! j = ?sums ! j +
        (\<Sum>(bi, l) \<leftarrow> rows. if bi \<noteq> nilBuildIdx \<and> unat bi = j then ucast (the l) else 0))"
      using Cons.prems by (intro Cons.IH) auto
    then show ?thesis using r False lt by (auto simp: nth_list_update add.assoc)
  qed
qed simp

lemma foldl_upd_distinct:
  assumes "distinct ks" and "length vs = length ks"
  shows "foldl (\<lambda>out (k, v). out(k \<mapsto> f v)) g (zip ks vs) =
    (\<lambda>k. if k \<in> set ks then map_option f (map_of (zip ks vs) k) else g k)"
  using assms(2,1)
proof (induction vs ks arbitrary: g rule: list_induct2)
  case (Cons v vs k ks)
  then show ?case by (auto simp: fun_eq_iff)
qed simp

text \<open>The bytes that the entries attribute to build \<open>b\<close>, summed as \<open>uint64\<close>.\<close>

definition bytes_of :: "BuildMap list \<Rightarrow> uuid \<Rightarrow> u64" where
  "bytes_of ms b = (\<Sum>e \<leftarrow> ms. if BuildId e = b then Length e else 0)"

lemma sum_list_mult_right: "(\<Sum>x \<leftarrow> xs. f x) * (c :: u64) = (\<Sum>x \<leftarrow> xs. f x * c)"
  by (induction xs) (simp_all add: distrib_right)

text \<open>
  C35. \<open>BytesByBuild\<close>, which scans two columns and never looks at an entry, agrees with summing the
  entries: for a well-formed mapping with a duplicate-free table without the nil id it does not
  panic, has exactly the builds of the table as keys, and gives each the \<open>uint64\<close> sum of the
  lengths of its entries.
\<close>

theorem BytesByBuild_correct:
  assumes wf: "mapping_wf m" and d: "distinct (builds m)" and n: "uuid_Nil \<notin> set (builds m)"
  shows "\<exists>out. BytesByBuild m = Some out \<and>
    (\<forall>b. out b = (if b \<in> set (builds m) then Some (bytes_of (entries m) b) else None))"
proof -
  let ?n = "length (offsets m)"
  let ?rows = "map (\<lambda>i. (buildIdx m ! i, nth_opt (lengths m) i)) [0..<length (buildIdx m)]"
  have len: "length (buildIdx m) = ?n" "length (lengths m) = ?n"
    and bi: "\<And>i. i < ?n \<Longrightarrow> buildIdx m ! i = nilBuildIdx \<or> unat (buildIdx m ! i) < length (builds m)"
    using wf by (auto simp: mapping_wf_def)
  have "\<forall>(bi, l) \<in> set ?rows. (bi \<noteq> nilBuildIdx \<longrightarrow>
      unat bi < length (replicate (length (builds m)) (0 :: u64))) \<and> l \<noteq> None"
    using len by (auto simp: nth_opt_def dest: bi)
  from sum_loop_correct [OF this] obtain sums where s: "sum_loop (replicate (length (builds m)) 0) ?rows = Some sums"
    and ls: "length sums = length (builds m)"
    and sj: "\<And>j. j < length (builds m) \<Longrightarrow> sums ! j =
      (\<Sum>(bi, l) \<leftarrow> ?rows. if bi \<noteq> nilBuildIdx \<and> unat bi = j then ucast (the l) else 0)"
    by auto
  have sum: "sums ! j * blockSize m = bytes_of (entries m) (builds m ! j)" if j: "j < length (builds m)" for j
  proof -
    have nz: "builds m ! j \<noteq> uuid_Nil" using n nth_mem [OF j] by metis
    have "build_at (builds m) (buildIdx m ! i) = builds m ! j \<longleftrightarrow>
        buildIdx m ! i \<noteq> nilBuildIdx \<and> unat (buildIdx m ! i) = j" if "i < ?n" for i
      using bi [OF that] j nz nth_eq_iff_index_eq [OF d] by (auto simp: build_at_def)
    then show ?thesis
      unfolding sj [OF j] bytes_of_def entries_def sum_list_mult_right
      by (auto simp: len nth_opt_def entry_at_def o_def intro!: arg_cong [of _ _ sum_list])
  qed
  have "map_of (zip (builds m) sums) b = Some v \<Longrightarrow> v * blockSize m = bytes_of (entries m) b" for b v
    using sum ls by (auto dest!: map_of_SomeD simp: in_set_zip)
  moreover have "b \<in> set (builds m) \<Longrightarrow> \<exists>v. map_of (zip (builds m) sums) b = Some v" for b
    using ls by (metis map_of_zip_is_Some)
  ultimately show ?thesis
    unfolding BytesByBuild_def s by (force simp: foldl_upd_distinct [OF d ls])
qed

theorem BytesByBuild_correct_witness:
  "let m = \<lparr>blockSize = 4096, builds = [7], offsets = [0, 2, 3], lengths = [2, 1, 1],
            storage = [1, 0, 5], buildIdx = [0, 65535, 0]\<rparr>
   in mapping_wf m \<and> (\<exists>out. BytesByBuild m = Some out \<and> out 7 = Some 12288 \<and> out 0 = None)"
proof -
  let ?m = "\<lparr>blockSize = 4096, builds = [7], offsets = [0, 2, 3], lengths = [2, 1, 1],
            storage = [1, 0, 5], buildIdx = [0, 65535, 0]\<rparr> :: Mapping"
  have h: "mapping_wf ?m" "distinct (builds ?m)" "uuid_Nil \<notin> set (builds ?m)"
    by (simp_all add: mapping_wf_def nilBuildIdx_def)
  have "bytes_of (entries ?m) 7 = 12288" by code_simp
  then show ?thesis using h BytesByBuild_correct [OF h] by (auto simp: Let_def)
qed

end
