(* ===== verification/Codec.thy ===== *)
theory Codec
  imports Prelude
begin

text \<open>
  The part of Go's \<open>encoding/binary\<close> and \<open>io\<close> that the header formats use: fixed-width
  little-endian values, records read with \<open>io.ReadFull\<close>, and the varint and zig-zag varint codes.
  A \<open>bytes.Buffer\<close> that is written is a byte list that grows at its end; a \<open>bytes.Reader\<close> is the
  list of the bytes left.
\<close>

unbundle bit_operations_syntax

section \<open>Fixed width\<close>

fun le_enc :: "nat \<Rightarrow> nat \<Rightarrow> byte list" where
  "le_enc 0 x = []"
| "le_enc (Suc n) x = word_of_nat (x mod 256) # le_enc n (x div 256)"

fun le_dec :: "byte list \<Rightarrow> nat" where
  "le_dec [] = 0"
| "le_dec (b # bs) = unat b + 256 * le_dec bs"

lemma length_le_enc [simp]: "length (le_enc n x) = n"
  by (induction n arbitrary: x) auto

lemma le_dec_enc: "le_dec (le_enc n x) = x mod 256 ^ n"
proof (induction n arbitrary: x)
  case (Suc n)
  have "unat (word_of_nat (x mod 256) :: byte) = x mod 256"
    by (simp add: unat_of_nat take_bit_eq_mod)
  then show ?case by (simp add: Suc.IH mod_mult2_eq add.commute)
qed simp

datatype read_error = EOF | UnexpectedEOF | VarintOverflow

text \<open>\<open>io.ReadFull\<close>: end of file only when nothing could be read.\<close>

definition read_full :: "nat \<Rightarrow> byte list \<Rightarrow> read_error + byte list \<times> byte list" where
  "read_full n bs =
     (if length bs < n then Inl (if bs = [] then EOF else UnexpectedEOF)
      else Inr (take n bs, drop n bs))"

text \<open>\<open>binary.Read\<close> of a value of fixed width.\<close>

definition read_fixed :: "nat \<Rightarrow> (byte list \<Rightarrow> 'a) \<Rightarrow> byte list \<Rightarrow> read_error + 'a \<times> byte list" where
  "read_fixed n dec bs = map_sum id (map_prod dec id) (read_full n bs)"

fun read_many :: "nat \<Rightarrow> nat \<Rightarrow> (byte list \<Rightarrow> 'a) \<Rightarrow> byte list \<Rightarrow> read_error + 'a list \<times> byte list" where
  "read_many 0 n dec bs = Inr ([], bs)"
| "read_many (Suc k) n dec bs =
     (case read_fixed n dec bs of
        Inl e \<Rightarrow> Inl e
      | Inr (x, rest) \<Rightarrow>
          (case read_many k n dec rest of Inl e \<Rightarrow> Inl e | Inr (xs, rest') \<Rightarrow> Inr (x # xs, rest')))"

text \<open>\<open>binary.Read\<close> into a slice of \<open>k\<close> values: all the bytes in one \<open>io.ReadFull\<close>.\<close>

fun dec_many :: "nat \<Rightarrow> nat \<Rightarrow> (byte list \<Rightarrow> 'a) \<Rightarrow> byte list \<Rightarrow> 'a list" where
  "dec_many 0 n dec bs = []"
| "dec_many (Suc k) n dec bs = dec (take n bs) # dec_many k n dec (drop n bs)"

definition read_array :: "nat \<Rightarrow> nat \<Rightarrow> (byte list \<Rightarrow> 'a) \<Rightarrow> byte list \<Rightarrow> read_error + 'a list \<times> byte list" where
  "read_array k n dec bs = read_fixed (k * n) (dec_many k n dec) bs"

text \<open>The contract of a fixed-width encoding, and what every reader of one gets from it.\<close>

locale fixed_codec =
  fixes enc :: "'a \<Rightarrow> byte list" and dec :: "byte list \<Rightarrow> 'a" and width :: nat
  assumes length_enc: "length (enc x) = width"
    and dec_enc: "dec (enc x) = x"
    and width_pos: "0 < width"
begin

lemma read_enc: "read_fixed width dec (enc x @ rest) = Inr (x, rest)"
  by (simp add: read_fixed_def read_full_def length_enc dec_enc)

lemma read_many_enc: "read_many (length xs) width dec (concat (map enc xs) @ rest) = Inr (xs, rest)"
  by (induction xs) (simp_all add: read_enc)

lemma length_concat: "length (concat (map enc xs)) = length xs * width"
  by (induction xs) (simp_all add: length_enc)

lemma dec_many_enc: "dec_many (length xs) width dec (concat (map enc xs)) = xs"
  by (induction xs) (simp_all add: length_enc dec_enc)

lemma read_array_enc: "read_array (length xs) width dec (concat (map enc xs) @ rest) = Inr (xs, rest)"
  by (simp add: read_array_def read_fixed_def read_full_def length_concat dec_many_enc)

lemma enc_inj: "enc x = enc y \<Longrightarrow> x = y"
  by (metis dec_enc)

lemma enc_nonempty: "enc x \<noteq> []"
  using length_enc [of x] width_pos by auto

end

definition u8_enc :: "u8 \<Rightarrow> byte list" where "u8_enc w = le_enc 1 (unat w)"
definition u8_dec :: "byte list \<Rightarrow> u8" where "u8_dec bs = word_of_nat (le_dec bs)"
definition u32_enc :: "u32 \<Rightarrow> byte list" where "u32_enc w = le_enc 4 (unat w)"
definition u32_dec :: "byte list \<Rightarrow> u32" where "u32_dec bs = word_of_nat (le_dec bs)"
definition u64_enc :: "u64 \<Rightarrow> byte list" where "u64_enc w = le_enc 8 (unat w)"
definition u64_dec :: "byte list \<Rightarrow> u64" where "u64_dec bs = word_of_nat (le_dec bs)"

text \<open>A UUID is its sixteen bytes, most significant first.\<close>

definition uuid_enc :: "uuid \<Rightarrow> byte list" where "uuid_enc w = rev (le_enc 16 (unat w))"
definition uuid_dec :: "byte list \<Rightarrow> uuid" where "uuid_dec bs = word_of_nat (le_dec (rev bs))"

lemma word_le_roundtrip:
  fixes w :: "'a::len word"
  assumes "LENGTH('a) = 8 * n"
  shows "word_of_nat (le_dec (le_enc n (unat w))) = w"
proof -
  have "(256 :: nat) ^ n = 2 ^ LENGTH('a)" by (simp add: assms power_mult)
  then have "unat w mod 256 ^ n = unat w" using unsigned_less [of w, where 'a = nat] by simp
  then show ?thesis by (simp add: le_dec_enc)
qed

interpretation u8c: fixed_codec u8_enc u8_dec 1
  by unfold_locales (simp_all add: u8_enc_def u8_dec_def word_le_roundtrip del: le_enc.simps)

interpretation u32c: fixed_codec u32_enc u32_dec 4
  by unfold_locales (simp_all add: u32_enc_def u32_dec_def word_le_roundtrip)

interpretation u64c: fixed_codec u64_enc u64_dec 8
  by unfold_locales (simp_all add: u64_enc_def u64_dec_def word_le_roundtrip)

interpretation uuidc: fixed_codec uuid_enc uuid_dec 16
  by unfold_locales (simp_all add: uuid_enc_def uuid_dec_def word_le_roundtrip)

text \<open>Two fixed-width codes side by side: how \<open>encoding/binary\<close> lays out a struct.\<close>

definition pair_enc :: "('a \<Rightarrow> byte list) \<Rightarrow> ('b \<Rightarrow> byte list) \<Rightarrow> 'a \<times> 'b \<Rightarrow> byte list" where
  "pair_enc e f p = e (fst p) @ f (snd p)"
definition pair_dec :: "nat \<Rightarrow> (byte list \<Rightarrow> 'a) \<Rightarrow> (byte list \<Rightarrow> 'b) \<Rightarrow> byte list \<Rightarrow> 'a \<times> 'b" where
  "pair_dec n d g bs = (d (take n bs), g (drop n bs))"

lemma fixed_codec_pair:
  assumes "fixed_codec e d n" and "fixed_codec f g k"
  shows "fixed_codec (pair_enc e f) (pair_dec n d g) (n + k)"
  using assms by (auto simp: fixed_codec_def pair_enc_def pair_dec_def)

lemma fixed_codec_iso:
  assumes "fixed_codec e d n" and "\<And>x. from' (to' x) = x"
  shows "fixed_codec (e \<circ> to') (from' \<circ> d) n"
  using assms by (auto simp: fixed_codec_def)

section \<open>Varints\<close>

text \<open>\<open>PutUvarint\<close>: seven bits at a time, the top bit of a byte saying that more follow.\<close>

function put_uvarint :: "u64 \<Rightarrow> byte list" where
  "put_uvarint x =
     (if x \<ge> 128 then (ucast x OR 128) # put_uvarint (drop_bit 7 x) else [ucast x])"
  by pat_completeness auto
termination
  by (relation "measure unat") (auto simp: word_le_nat_alt unat_drop_bit_eq drop_bit_eq_div unat_div_distrib)

declare put_uvarint.simps [simp del]

text \<open>\<open>ReadUvarint\<close>: \<open>i\<close> bytes read so far, at most ten in all, the tenth at most 1.\<close>

fun read_uvarint_loop :: "nat \<Rightarrow> u64 \<Rightarrow> byte list \<Rightarrow> read_error + u64 \<times> byte list" where
  "read_uvarint_loop i x [] = Inl (if i \<ge> 10 then VarintOverflow else if i > 0 then UnexpectedEOF else EOF)"
| "read_uvarint_loop i x (b # bs) =
     (if i \<ge> 10 then Inl VarintOverflow
      else if b < 128 then
        (if i = 9 \<and> b > 1 then Inl VarintOverflow
         else Inr (x OR push_bit (7 * i) (ucast b), bs))
      else read_uvarint_loop (Suc i) (x OR push_bit (7 * i) (ucast (b AND 127))) bs)"

definition read_uvarint :: "byte list \<Rightarrow> read_error + u64 \<times> byte list" where
  "read_uvarint bs = read_uvarint_loop 0 0 bs"

definition zigzag :: "i64 \<Rightarrow> u64" where
  "zigzag x = (let ux = push_bit 1 x in if sint x < 0 then NOT ux else ux)"

definition unzigzag :: "u64 \<Rightarrow> i64" where
  "unzigzag ux = (let x = drop_bit 1 ux in if ux AND 1 \<noteq> 0 then NOT x else x)"

definition put_varint :: "i64 \<Rightarrow> byte list" where
  "put_varint x = put_uvarint (zigzag x)"

definition read_varint :: "byte list \<Rightarrow> read_error + i64 \<times> byte list" where
  "read_varint bs = map_sum id (map_prod unzigzag id) (read_uvarint bs)"

lemma put_uvarint_nonempty: "put_uvarint x \<noteq> []"
  by (subst put_uvarint.simps) simp

lemma bit_128: "bit (128 :: byte) n \<longleftrightarrow> n = 7"
proof -
  have "(128 :: byte) = 2 ^ 7" by simp
  then show ?thesis by (simp only: bit_exp_iff) auto
qed

lemma low_byte: "(y OR 128 :: byte) AND 127 = take_bit 7 y"
proof -
  have m: "(127 :: byte) = mask 7" by (simp add: mask_eq_exp_minus_1)
  show ?thesis unfolding m
    by (rule bit_word_eqI)
      (simp only: bit_and_iff bit_or_iff bit_128 bit_mask_iff bit_take_bit_iff possible_bit_word, auto)
qed

lemma high_byte: "\<not> (y OR 128 :: byte) < 128"
  using le_word_or1 [of 128 y] by (simp add: not_less)

lemma uvarint_step:
  fixes X :: u64
  shows "take_bit k X OR push_bit k (ucast (take_bit 7 (ucast (drop_bit k X)) :: byte)) = take_bit (k + 7) X"
  by (rule bit_word_eqI) (auto simp: bit_simps)

lemma take_bit_small: "unat (d :: u64) < 2 ^ n \<Longrightarrow> take_bit n d = d"
  by (rule unat_inject [THEN iffD1]) (simp add: unsigned_take_bit_eq take_bit_nat_eq_self)

lemma uvarint_last:
  fixes X :: u64
  assumes "drop_bit k X < 128"
  shows "take_bit k X OR push_bit k (ucast (ucast (drop_bit k X) :: byte)) = X"
proof -
  have "take_bit 8 (drop_bit k X) = drop_bit k X"
    using assms by (intro take_bit_small) (simp add: word_less_nat_alt)
  then have "bit (drop_bit k X) n \<Longrightarrow> n < 8" for n by (metis bit_take_bit_iff)
  then have hi: "bit X (k + n) \<Longrightarrow> n < 8" for n by (simp add: bit_drop_bit_eq)
  have "bit (take_bit k X OR push_bit k (ucast (ucast (drop_bit k X) :: byte))) n \<longleftrightarrow> bit X n"
    if "n < 64" for n
    using that hi [of "n - k"] by (cases "n < k") (auto simp: bit_simps)
  then show ?thesis by (intro bit_word_eqI) simp
qed

lemma and_1_bit_0: "(x :: u64) AND 1 \<noteq> 0 \<longleftrightarrow> bit x 0"
  by (simp add: and_one_eq mod2_eq_if bit_0)

lemmas shift_bits = bit_not_iff bit_push_bit_iff bit_drop_bit_eq possible_bit_word o_apply

lemma unzigzag_zigzag: "unzigzag (zigzag x) = x"
proof (rule bit_word_eqI)
  fix n assume n: "n < LENGTH(64)"
  have s: "sint x < 0 \<longleftrightarrow> bit x 63" using bit_last_iff [of x] by simp
  show "bit (unzigzag (zigzag x)) n \<longleftrightarrow> bit x n"
  proof (cases "sint x < 0")
    case True
    have "bit (NOT (push_bit 1 x)) 0" by (simp only: shift_bits) simp
    then have "unzigzag (zigzag x) = NOT (drop_bit 1 (NOT (push_bit 1 x)))"
      using True by (simp only: unzigzag_def zigzag_def Let_def and_1_bit_0 if_True)
    then show ?thesis using n s True by (cases "n = 63") (simp_all only: shift_bits, auto)
  next
    case False
    have "\<not> bit (push_bit 1 x) 0" by (simp only: shift_bits) simp
    then have "unzigzag (zigzag x) = drop_bit 1 (push_bit 1 x)"
      using False by (simp only: unzigzag_def zigzag_def Let_def and_1_bit_0 if_False)
    then show ?thesis using n s False by (cases "n = 63") (simp_all only: shift_bits, auto)
  qed
qed

text \<open>Reading back what was written, with any bytes behind it.\<close>

lemma read_uvarint_loop_put:
  fixes X :: u64
  assumes "k < 10" and "x = take_bit (7 * k) X" and "y = drop_bit (7 * k) X"
  shows "read_uvarint_loop k x (put_uvarint y @ rest) = Inr (X, rest)"
  using assms
proof (induction y arbitrary: k x rule: put_uvarint.induct)
  case (1 y)
  have y9: "y \<le> 1" if "k = 9"
  proof -
    have "unat y = unat X div 2 ^ 63"
      using that 1 by (simp add: unat_drop_bit_eq drop_bit_eq_div unat_div_distrib)
    then have "unat y < 2" using u64_bound [of X] by (simp add: div_less_iff_less_mult)
    then show ?thesis by (simp add: word_le_nat_alt)
  qed
  show ?case
  proof (cases "y \<ge> 128")
    case True
    have "k < 9" using True y9 1 by (cases "k = 9") (auto simp: word_le_nat_alt)
    moreover have "take_bit (7 * k) X OR push_bit (7 * k) (ucast ((ucast y OR 128 :: byte) AND 127))
        = take_bit (7 * Suc k) X"
      using uvarint_step [of "7 * k" X] 1 by (simp add: low_byte add.commute)
    moreover have "drop_bit 7 y = drop_bit (7 * Suc k) X" using 1 by (simp add: add.commute)
    ultimately have "read_uvarint_loop (Suc k)
        (x OR push_bit (7 * k) (ucast ((ucast y OR 128 :: byte) AND 127))) (put_uvarint (drop_bit 7 y) @ rest)
        = Inr (X, rest)"
      using "1.prems" by (intro "1.IH" [OF True]) simp_all
    then show ?thesis using True \<open>k < 9\<close> by (simp add: put_uvarint.simps [of y] high_byte)
  next
    case False
    then have lt: "y < 128" by simp
    have X: "x OR push_bit (7 * k) (ucast (ucast y :: byte)) = X"
      using uvarint_last [of "7 * k" X] lt "1.prems" by simp
    have u: "unat (ucast y :: byte) = unat y"
      using lt by (simp add: word_less_nat_alt unsigned_ucast_eq take_bit_nat_eq_self)
    have "(ucast y :: byte) < 128" and "\<not> (k = 9 \<and> (ucast y :: byte) > 1)"
      using lt y9 by (auto simp: word_less_nat_alt word_le_nat_alt u)
    moreover have "put_uvarint y = [ucast y]" using False by (subst put_uvarint.simps) simp
    ultimately show ?thesis using X "1.prems"(1) by simp
  qed
qed

lemma read_put_uvarint: "read_uvarint (put_uvarint x @ rest) = Inr (x, rest)"
  unfolding read_uvarint_def by (rule read_uvarint_loop_put) simp_all

lemma read_put_varint: "read_varint (put_varint x @ rest) = Inr (x, rest)"
  by (simp add: read_varint_def put_varint_def read_put_uvarint unzigzag_zigzag)

lemma length_put_uvarint: "1 \<le> length (put_uvarint x)"
  using put_uvarint_nonempty [of x] by (cases "put_uvarint x") auto

end
