(* ===== verification/Frame_Table.thy ===== *)
theory Frame_Table
  imports Codec
begin

text \<open>
  The decompression index of a compressed build (\<open>packages/shared/pkg/storage/
  compress_frame_table.go\<close>): frames of the uncompressed address space (U) and where each lies in
  the compressed object (C). A nil \<open>*FrameTable\<close> is \<open>None\<close>.
\<close>

section \<open>Data\<close>

type_synonym CompressionType = u8

abbreviation CompressionNone :: CompressionType where "CompressionNone \<equiv> 0"
abbreviation CompressionZstd :: CompressionType where "CompressionZstd \<equiv> 1"
abbreviation CompressionLZ4 :: CompressionType where "CompressionLZ4 \<equiv> 2"

definition maxDeserializedFrames :: u32 where "maxDeserializedFrames = 1024 * 1024"

record FrameSize =
  fs_U :: i32
  fs_C :: i32

record Range =
  rg_Offset :: i64
  rg_Length :: i64

record frameEntry =
  StartU :: i64
  StartC :: i64
  SizeU :: i32
  SizeC :: i32

record FrameTable =
  compressionType :: CompressionType
  ft_entries :: "frameEntry list"

record FullFrameTable =
  full_ft :: FrameTable

datatype frame_error =
    NilFrameTable | OffsetNotFound | OffsetInGap | NotFrameAligned | FrameRead read_error
  | ZeroTypeWithFrames | TooManyFrames | BadFrameSize | UNotSorted | CNotSorted

section \<open>Construction and simple reads\<close>

definition UncompressedFrameTable :: FrameTable where
  "UncompressedFrameTable = \<lparr>compressionType = CompressionNone, ft_entries = []\<rparr>"

definition UncompressedFullFrameTable :: FullFrameTable where
  "UncompressedFullFrameTable = \<lparr>full_ft = UncompressedFrameTable\<rparr>"

definition Table :: "FullFrameTable option \<Rightarrow> FrameTable option" where
  "Table ft = map_option full_ft ft"

definition FullFromTable :: "FrameTable option \<Rightarrow> FullFrameTable" where
  "FullFromTable ft =
     (case ft of
        None \<Rightarrow> UncompressedFullFrameTable
      | Some t \<Rightarrow> if ft_entries t = [] then UncompressedFullFrameTable else \<lparr>full_ft = t\<rparr>)"

fun frame_offsets :: "i64 \<Rightarrow> i64 \<Rightarrow> FrameSize list \<Rightarrow> frameEntry list" where
  "frame_offsets u c [] = []"
| "frame_offsets u c (s # ss) =
     \<lparr>StartU = u, StartC = c, SizeU = fs_U s, SizeC = fs_C s\<rparr> #
     frame_offsets (u + scast (fs_U s)) (c + scast (fs_C s)) ss"

definition NewFullFrameTable :: "CompressionType \<Rightarrow> FrameSize list \<Rightarrow> FullFrameTable" where
  "NewFullFrameTable ct sizes =
     \<lparr>full_ft = \<lparr>compressionType = ct, ft_entries = frame_offsets 0 0 sizes\<rparr>\<rparr>"

definition get_CompressionType :: "FrameTable option \<Rightarrow> CompressionType" where
  "get_CompressionType ft = (case ft of None \<Rightarrow> CompressionNone | Some t \<Rightarrow> compressionType t)"

definition IsCompressed :: "FrameTable option \<Rightarrow> bool" where
  "IsCompressed ft = (case ft of None \<Rightarrow> False | Some t \<Rightarrow> compressionType t \<noteq> CompressionNone)"

definition NumFrames :: "FrameTable option \<Rightarrow> nat" where
  "NumFrames ft = (case ft of None \<Rightarrow> 0 | Some t \<Rightarrow> length (ft_entries t))"

definition endU :: "frameEntry \<Rightarrow> i64" where "endU e = StartU e + scast (SizeU e)"
definition endC :: "frameEntry \<Rightarrow> i64" where "endC e = StartC e + scast (SizeC e)"

definition UncompressedSize :: "FrameTable option \<Rightarrow> i64" where
  "UncompressedSize ft = (case ft of None \<Rightarrow> 0 | Some t \<Rightarrow> \<Sum>e \<leftarrow> ft_entries t. scast (SizeU e))"

definition CompressedSize :: "FrameTable option \<Rightarrow> i64" where
  "CompressedSize ft = (case ft of None \<Rightarrow> 0 | Some t \<Rightarrow> \<Sum>e \<leftarrow> ft_entries t. scast (SizeC e))"

section \<open>Locating\<close>

definition locate :: "FrameTable option \<Rightarrow> i64 \<Rightarrow> frame_error + frameEntry" where
  "locate ft offset =
     (case ft of
        None \<Rightarrow> Inl NilFrameTable
      | Some t \<Rightarrow>
          let es = ft_entries t;
              i = sort_Search (length es) (\<lambda>i. sint (StartU (es ! i)) > sint offset)
          in if i = 0 then Inl OffsetNotFound
             else let e = es ! (i - 1) in
               if sint offset \<ge> sint (endU e) then Inl OffsetInGap else Inr e)"

definition LocateCompressed :: "FrameTable option \<Rightarrow> i64 \<Rightarrow> frame_error + Range" where
  "LocateCompressed ft offset =
     bind_res (locate ft offset) (\<lambda>e.
       if offset \<noteq> StartU e then Inl NotFrameAligned
       else Inr \<lparr>rg_Offset = StartC e, rg_Length = scast (SizeC e)\<rparr>)"

definition LocateUncompressed :: "FrameTable option \<Rightarrow> i64 \<Rightarrow> frame_error + Range" where
  "LocateUncompressed ft offset =
     bind_res (locate ft offset) (\<lambda>e. Inr \<lparr>rg_Offset = StartU e, rg_Length = scast (SizeU e)\<rparr>)"

section \<open>Serialization\<close>

definition entry_tuple :: "frameEntry \<Rightarrow> i64 \<times> i64 \<times> i32 \<times> i32" where
  "entry_tuple e = (StartU e, StartC e, SizeU e, SizeC e)"

definition tuple_entry :: "i64 \<times> i64 \<times> i32 \<times> i32 \<Rightarrow> frameEntry" where
  "tuple_entry t = (case t of (a, b, c, d) \<Rightarrow> \<lparr>StartU = a, StartC = b, SizeU = c, SizeC = d\<rparr>)"

definition entry_enc :: "frameEntry \<Rightarrow> byte list" where
  "entry_enc = pair_enc u64_enc (pair_enc u64_enc (pair_enc u32_enc u32_enc)) \<circ> entry_tuple"

definition entry_dec :: "byte list \<Rightarrow> frameEntry" where
  "entry_dec = tuple_entry \<circ> pair_dec 8 u64_dec (pair_dec 8 u64_dec (pair_dec 4 u32_dec u32_dec))"

definition Serialize :: "FrameTable option \<Rightarrow> byte list" where
  "Serialize ft =
     (let (ct, es) = (case ft of
            None \<Rightarrow> (CompressionNone, [])
          | Some t \<Rightarrow> if compressionType t \<noteq> CompressionNone then (compressionType t, ft_entries t)
                      else (CompressionNone, []))
      in u32_enc (ucast ct) @ u32_enc (word_of_nat (length es)) @ concat (map entry_enc es))"

fun check_entries :: "frameEntry option \<Rightarrow> frameEntry list \<Rightarrow> frame_error option" where
  "check_entries prev [] = None"
| "check_entries prev (e # es) =
     (if sint (SizeU e) \<le> 0 \<or> sint (SizeC e) \<le> 0 then Some BadFrameSize
      else case prev of
        None \<Rightarrow> check_entries (Some e) es
      | Some p \<Rightarrow>
          if sint (StartU e) < sint (endU p) then Some UNotSorted
          else if sint (StartC e) < sint (endC p) then Some CNotSorted
          else check_entries (Some e) es)"

definition DeserializeFrameTable ::
  "byte list \<Rightarrow> frame_error + FrameTable option \<times> byte list" where
  "DeserializeFrameTable r =
     (case read_fixed 4 u32_dec r of
        Inl x \<Rightarrow> Inl (FrameRead x)
      | Inr (ct, r1) \<Rightarrow>
          (case read_fixed 4 u32_dec r1 of
             Inl x \<Rightarrow> Inl (FrameRead x)
           | Inr (n, r2) \<Rightarrow>
               if ct = 0 \<and> n > 0 then Inl ZeroTypeWithFrames
               else if ct = 0 \<or> n = 0 then Inr (None, r2)
               else if n > maxDeserializedFrames then Inl TooManyFrames
               else (case read_array (unat n) 24 entry_dec r2 of
                       Inl x \<Rightarrow> Inl (FrameRead x)
                     | Inr (es, r3) \<Rightarrow>
                         (case check_entries None es of
                            Some x \<Rightarrow> Inl x
                          | None \<Rightarrow> Inr (Some \<lparr>compressionType = ucast ct, ft_entries = es\<rparr>, r3)))))"

section \<open>Trimming\<close>

text \<open>The inner loop of \<open>TrimToRanges\<close>: mark frames from \<open>i\<close> on while they start before \<open>endU\<close>.\<close>

function mark_loop :: "frameEntry list \<Rightarrow> i64 \<Rightarrow> nat \<Rightarrow> bool list \<times> nat \<Rightarrow> bool list \<times> nat" where
  "mark_loop es rEnd i (keep, kept) =
     (if i < length es \<and> sint (StartU (es ! i)) < sint rEnd
      then mark_loop es rEnd (i + 1)
        (if \<not> keep ! i then (keep[i := True], kept + 1) else (keep, kept))
      else (keep, kept))"
  by pat_completeness auto
termination
  by (relation "measure (\<lambda>(es, rEnd, i, k). length es - i)") auto

declare mark_loop.simps [simp del]

definition mark_range :: "frameEntry list \<Rightarrow> Range \<Rightarrow> bool list \<times> nat \<Rightarrow> bool list \<times> nat" where
  "mark_range es r kk =
     (let rStart = rg_Offset r; rEnd = rg_Offset r + rg_Length r;
          lo = sort_Search (length es) (\<lambda>i. sint (endU (es ! i)) > sint rStart)
      in mark_loop es rEnd lo kk)"

definition TrimToRanges :: "FrameTable option \<Rightarrow> Range list \<Rightarrow> FrameTable option" where
  "TrimToRanges ft ranges =
     (case ft of
        None \<Rightarrow> None
      | Some t \<Rightarrow>
          let es = ft_entries t in
          if es = [] \<or> ranges = [] then ft
          else let (keep, kept) = fold (mark_range es) ranges (replicate (length es) False, 0) in
            if kept = length es then ft
            else Some \<lparr>compressionType = compressionType t,
                       ft_entries = map fst (filter snd (zip es keep))\<rparr>)"

section \<open>Names of the codecs\<close>

definition Suffix :: "CompressionType \<Rightarrow> string" where
  "Suffix ct = (if ct = CompressionZstd then ''.zstd'' else if ct = CompressionLZ4 then ''.lz4'' else '''')"

definition ct_String :: "CompressionType \<Rightarrow> string" where
  "ct_String ct = (if ct = CompressionZstd then ''zstd'' else if ct = CompressionLZ4 then ''lz4'' else ''none'')"

definition parseCompressionType :: "string \<Rightarrow> CompressionType" where
  "parseCompressionType s =
     (if s = ''lz4'' then CompressionLZ4 else if s = ''zstd'' then CompressionZstd else CompressionNone)"

lemma parse_ct_String:
  "ct \<in> {CompressionNone, CompressionZstd, CompressionLZ4} \<Longrightarrow> parseCompressionType (ct_String ct) = ct"
  by (auto simp: parseCompressionType_def ct_String_def)

section \<open>Valid tables\<close>

text \<open>What the construction and the checks of \<open>DeserializeFrameTable\<close> establish: positive sizes and
  ascending, disjoint frames in both address spaces, none of them reaching \<open>2\<^sup>6\<^sup>3\<close>.\<close>

fun frames_ok :: "int \<Rightarrow> int \<Rightarrow> frameEntry list \<Rightarrow> bool" where
  "frames_ok u c [] = True"
| "frames_ok u c (e # es) =
     (u \<le> sint (StartU e) \<and> c \<le> sint (StartC e) \<and> 0 < sint (SizeU e) \<and> 0 < sint (SizeC e) \<and>
      sint (StartU e) + sint (SizeU e) < 2 ^ 63 \<and> sint (StartC e) + sint (SizeC e) < 2 ^ 63 \<and>
      frames_ok (sint (StartU e) + sint (SizeU e)) (sint (StartC e) + sint (SizeC e)) es)"

abbreviation startU_i :: "frameEntry \<Rightarrow> int" where "startU_i e \<equiv> sint (StartU e)"
abbreviation endU_i :: "frameEntry \<Rightarrow> int" where "endU_i e \<equiv> sint (StartU e) + sint (SizeU e)"

lemma end_sint:
  assumes "0 \<le> sint (StartU e)" "0 \<le> sint (SizeU e)" "endU_i e < 2 ^ 63"
  shows "sint (endU e) = endU_i e"
  using assms by (simp add: endU_def sint_add_i64 sint_scast_i32)

lemma frames_ok_mono: "frames_ok u c es \<Longrightarrow> u' \<le> u \<Longrightarrow> c' \<le> c \<Longrightarrow> frames_ok u' c' es"
  by (cases es) auto

lemma frames_ok_nth:
  assumes "frames_ok u c es" and "i < length es" and "0 \<le> u"
  shows "u \<le> startU_i (es ! i) \<and> startU_i (es ! i) < endU_i (es ! i) \<and> endU_i (es ! i) < 2 ^ 63 \<and>
    sint (endU (es ! i)) = endU_i (es ! i)"
  using assms
proof (induction es arbitrary: u c i)
  case (Cons e es)
  show ?case
  proof (cases i)
    case 0
    with Cons.prems show ?thesis by (simp add: end_sint)
  next
    case (Suc j)
    have "endU_i e \<le> startU_i (es ! j) \<and> startU_i (es ! j) < endU_i (es ! j) \<and> endU_i (es ! j) < 2 ^ 63 \<and>
      sint (endU (es ! j)) = endU_i (es ! j)"
      using Cons.prems Suc by (intro Cons.IH) auto
    with Cons.prems Suc show ?thesis by auto
  qed
qed simp

lemma frames_ok_sorted:
  assumes "frames_ok u c es" and "i < j" and "j < length es" and "0 \<le> u"
  shows "endU_i (es ! i) \<le> startU_i (es ! j)"
  using assms
proof (induction es arbitrary: u c i j)
  case (Cons e es)
  then obtain k where j: "j = Suc k" by (cases j) auto
  have ok: "frames_ok (endU_i e) (sint (StartC e) + sint (SizeC e)) es" "0 \<le> endU_i e"
    using Cons.prems by auto
  show ?case
  proof (cases i)
    case 0
    then show ?thesis using frames_ok_nth [OF ok(1) _ ok(2), of k] Cons.prems j by simp
  next
    case (Suc i')
    then show ?thesis using Cons.IH [OF ok(1), of i' k] ok(2) Cons.prems j by simp
  qed
qed simp

lemma frames_mono:
  assumes "frames_ok 0 0 es" and "i \<le> j" and "j < length es"
  shows "startU_i (es ! i) \<le> startU_i (es ! j) \<and> endU_i (es ! i) \<le> endU_i (es ! j)"
  using assms frames_ok_sorted [OF assms(1), of i j] frames_ok_nth [OF assms(1), of i]
    frames_ok_nth [OF assms(1), of j]
  by (cases "i = j") auto

section \<open>locate\<close>

lemma locate_iff_aux:
  assumes "k < length es" "startU_i (es ! k) \<le> x" "sint (endU (es ! k)) = endU_i (es ! k)"
    and "\<And>j. j < length es \<Longrightarrow> startU_i (es ! j) \<le> x \<Longrightarrow> x < endU_i (es ! j) \<Longrightarrow> j = k"
  shows "(if sint (endU (es ! k)) \<le> x then Inl err else Inr (es ! k)) = Inr e \<longleftrightarrow>
    e \<in> set es \<and> startU_i e \<le> x \<and> x < endU_i e"
proof
  assume "(if sint (endU (es ! k)) \<le> x then Inl err else Inr (es ! k)) = Inr e"
  then show "e \<in> set es \<and> startU_i e \<le> x \<and> x < endU_i e"
    using assms(1-3) nth_mem [OF assms(1)] by (auto split: if_splits)
next
  assume e: "e \<in> set es \<and> startU_i e \<le> x \<and> x < endU_i e"
  then obtain j where "j < length es" "es ! j = e" by (auto simp: in_set_conv_nth)
  with e assms(4) [of j] assms(3) show "(if sint (endU (es ! k)) \<le> x then Inl err else Inr (es ! k)) = Inr e"
    by auto
qed

lemma locate_iff:
  assumes "frames_ok 0 0 (ft_entries t)"
  shows "locate (Some t) off = Inr e \<longleftrightarrow>
    e \<in> set (ft_entries t) \<and> startU_i e \<le> sint off \<and> sint off < endU_i e"
proof -
  let ?es = "ft_entries t"
  let ?f = "\<lambda>i. sint (StartU (?es ! i)) > sint off"
  define n where "n = sort_Search (length ?es) ?f"
  have mono: "\<And>i j. i \<le> j \<Longrightarrow> j < length ?es \<Longrightarrow> ?f i \<Longrightarrow> ?f j"
    using frames_mono [OF assms] by fastforce
  have s: "n \<le> length ?es" "\<And>i. i < length ?es \<Longrightarrow> ?f i \<longleftrightarrow> n \<le> i"
    unfolding n_def using sort_Search_correct [of "length ?es" ?f] mono by blast+
  have unique: "k = n - 1 \<and> n \<noteq> 0"
    if k: "k < length ?es" "startU_i (?es ! k) \<le> sint off" "sint off < endU_i (?es ! k)" for k
  proof -
    have kn: "k < n" using s(2) [OF k(1)] k(2) by simp
    have "\<not> k < n - 1"
    proof
      assume lt: "k < n - 1"
      then have n: "n - 1 < length ?es" using s(1) by linarith
      then have "\<not> ?f (n - 1)" using s(2) [OF n] lt by simp
      with frames_ok_sorted [OF assms lt n] k(3) show False by simp
    qed
    with kn show ?thesis by linarith
  qed
  have loc: "locate (Some t) off = (if n = 0 then Inl OffsetNotFound
      else if sint (endU (?es ! (n - 1))) \<le> sint off then Inl OffsetInGap else Inr (?es ! (n - 1)))"
    by (simp add: locate_def Let_def n_def)
  show ?thesis
  proof (cases "n = 0")
    case True
    then show ?thesis using unique by (auto simp: loc in_set_conv_nth)
  next
    case False
    then have lt: "n - 1 < length ?es" and "\<not> n \<le> n - 1" using s(1) by linarith+
    then have le: "startU_i (?es ! (n - 1)) \<le> sint off" using s(2) [OF lt] by linarith
    have "locate (Some t) off =
        (if sint (endU (?es ! (n - 1))) \<le> sint off then Inl OffsetInGap else Inr (?es ! (n - 1)))"
      using False by (simp only: loc if_False)
    then show ?thesis
      using locate_iff_aux [OF lt le, of OffsetInGap e] frames_ok_nth [OF assms lt] unique
      by (metis (no_types, lifting) order_refl)
  qed
qed

text \<open>
  C38. \<open>locate\<close> is exact: on a valid table it returns a frame precisely for the offsets that some
  frame covers, and then it is the (unique) frame covering the offset; every other offset is an
  error, never a wrong frame.
\<close>

theorem locate_correct:
  assumes "frames_ok 0 0 (ft_entries t)"
  shows "locate (Some t) off = Inr e \<longleftrightarrow>
    e \<in> set (ft_entries t) \<and> sint (StartU e) \<le> sint off \<and> sint off < sint (StartU e) + sint (SizeU e)"
  by (rule locate_iff [OF assms])

theorem locate_correct_witness:
  "let e = \<lparr>StartU = 4096, StartC = 0, SizeU = 4096, SizeC = 100\<rparr>;
       t = \<lparr>compressionType = 1, ft_entries = [e]\<rparr>
   in frames_ok 0 0 (ft_entries t) \<and> locate (Some t) 5000 = Inr e"
proof -
  let ?e = "\<lparr>StartU = 4096, StartC = 0, SizeU = 4096, SizeC = 100\<rparr> :: frameEntry"
  let ?t = "\<lparr>compressionType = 1, ft_entries = [?e]\<rparr> :: FrameTable"
  have h: "frames_ok 0 0 (ft_entries ?t)" by simp
  show ?thesis using h locate_correct [OF h, of 5000 ?e] by (simp add: Let_def)
qed

section \<open>A full table has no gaps\<close>

text \<open>The frame sizes of a compressed stream: positive, and in all below \<open>2\<^sup>6\<^sup>3\<close> bytes in each space.\<close>

definition sizes_ok :: "FrameSize list \<Rightarrow> bool" where
  "sizes_ok ss \<longleftrightarrow> (\<forall>s \<in> set ss. 0 < sint (fs_U s) \<and> 0 < sint (fs_C s)) \<and>
     (\<Sum>s \<leftarrow> ss. sint (fs_U s)) < 2 ^ 63 \<and> (\<Sum>s \<leftarrow> ss. sint (fs_C s)) < 2 ^ 63"

lemma sum_sizes_nonneg: "\<forall>x \<in> set xs. 0 < f x \<Longrightarrow> (0 :: int) \<le> (\<Sum>x \<leftarrow> xs. f x)"
  by (induction xs) auto

lemma frame_offsets_ok:
  assumes "\<forall>s \<in> set ss. 0 < sint (fs_U s) \<and> 0 < sint (fs_C s)" and "0 \<le> sint u" "0 \<le> sint c"
    and "sint u + (\<Sum>s \<leftarrow> ss. sint (fs_U s)) < 2 ^ 63" "sint c + (\<Sum>s \<leftarrow> ss. sint (fs_C s)) < 2 ^ 63"
  shows "frames_ok (sint u) (sint c) (frame_offsets u c ss) \<and>
    (sint u \<le> x \<and> x < sint u + (\<Sum>s \<leftarrow> ss. sint (fs_U s)) \<longrightarrow>
      (\<exists>e \<in> set (frame_offsets u c ss). startU_i e \<le> x \<and> x < endU_i e))"
  using assms
proof (induction ss arbitrary: u c)
  case (Cons s ss)
  have nn: "0 \<le> (\<Sum>s \<leftarrow> ss. sint (fs_U s))" "0 \<le> (\<Sum>s \<leftarrow> ss. sint (fs_C s))"
    using Cons.prems(1) by (auto intro!: sum_sizes_nonneg)
  have u: "sint (u + scast (fs_U s)) = sint u + sint (fs_U s)"
    and c: "sint (c + scast (fs_C s)) = sint c + sint (fs_C s)"
    using Cons.prems nn by (simp_all add: sint_add_i64 sint_scast_i32)
  note IH = Cons.IH [of "u + scast (fs_U s)" "c + scast (fs_C s)", unfolded u c]
  show ?case using IH Cons.prems nn by (auto simp: algebra_simps)
qed simp

text \<open>
  A table built from consecutive frame sizes is valid and has no gaps: \<open>LocateUncompressed\<close>
  succeeds for every offset below the total uncompressed size and returns a range that contains it.
\<close>

theorem NewFullFrameTable_total:
  assumes "sizes_ok ss" and "0 \<le> sint off" and "sint off < (\<Sum>s \<leftarrow> ss. sint (fs_U s))"
  shows "\<exists>r. LocateUncompressed (Table (Some (NewFullFrameTable ct ss))) off = Inr r \<and>
    sint (rg_Offset r) \<le> sint off \<and> sint off < sint (rg_Offset r) + sint (rg_Length r)"
proof -
  let ?t = "\<lparr>compressionType = ct, ft_entries = frame_offsets 0 0 ss\<rparr>"
  have ok: "frames_ok 0 0 (ft_entries ?t)"
    and ex: "\<exists>e \<in> set (ft_entries ?t). startU_i e \<le> sint off \<and> sint off < endU_i e"
    using frame_offsets_ok [of ss 0 0 "sint off"] assms by (auto simp: sizes_ok_def)
  then obtain e where "locate (Some ?t) off = Inr e" and "startU_i e \<le> sint off" "sint off < endU_i e"
    using locate_iff [OF ok] by blast
  then show ?thesis
    by (auto simp: LocateUncompressed_def Table_def NewFullFrameTable_def sint_scast_i32)
qed

theorem NewFullFrameTable_total_witness:
  "let ss = [\<lparr>fs_U = 4096, fs_C = 100\<rparr>, \<lparr>fs_U = 4096, fs_C = 7\<rparr>]
   in sizes_ok ss \<and>
      (\<exists>r. LocateUncompressed (Table (Some (NewFullFrameTable 1 ss))) 5000 = Inr r \<and>
         sint (rg_Offset r) \<le> 5000 \<and> 5000 < sint (rg_Offset r) + sint (rg_Length r))"
proof -
  let ?ss = "[\<lparr>fs_U = 4096, fs_C = 100\<rparr>, \<lparr>fs_U = 4096, fs_C = 7\<rparr>] :: FrameSize list"
  have h: "sizes_ok ?ss" by (simp add: sizes_ok_def)
  show ?thesis using h NewFullFrameTable_total [OF h, of 5000 1] by (simp add: Let_def)
qed

section \<open>Serialization round trip\<close>

lemma tuple_entry_tuple: "tuple_entry (entry_tuple e) = e"
  by (simp add: tuple_entry_def entry_tuple_def)

interpretation entryc: fixed_codec entry_enc entry_dec 24
proof -
  have "fixed_codec (pair_enc u64_enc (pair_enc u64_enc (pair_enc u32_enc u32_enc)))
      (pair_dec 8 u64_dec (pair_dec 8 u64_dec (pair_dec 4 u32_dec u32_dec))) (8 + (8 + (4 + 4)))"
    by (intro fixed_codec_pair u64c.fixed_codec_axioms u32c.fixed_codec_axioms)
  from fixed_codec_iso [OF this tuple_entry_tuple]
  show "fixed_codec entry_enc entry_dec 24" by (simp add: entry_enc_def entry_dec_def)
qed

lemma check_entries_ok:
  assumes "frames_ok u c es" and "0 \<le> u" "0 \<le> c"
    and "case prev of None \<Rightarrow> True | Some p \<Rightarrow> sint (endU p) \<le> u \<and> sint (endC p) \<le> c"
  shows "check_entries prev es = None"
  using assms
proof (induction es arbitrary: u c prev)
  case (Cons e es)
  have "sint (endU e) = endU_i e" "sint (endC e) = sint (StartC e) + sint (SizeC e)"
    using Cons.prems by (simp_all add: endU_def endC_def sint_add_i64 sint_scast_i32)
  then have "check_entries (Some e) es = None"
    using Cons.prems by (intro Cons.IH [of "endU_i e" "sint (StartC e) + sint (SizeC e)"]) auto
  then show ?case using Cons.prems by (auto split: option.splits)
qed simp

text \<open>A table as \<open>Serialize\<close> reads it back: no frames, or no codec, is the nil table.\<close>

definition normal_table :: "FrameTable option \<Rightarrow> FrameTable option" where
  "normal_table ft = (case ft of None \<Rightarrow> None
     | Some t \<Rightarrow> if compressionType t = CompressionNone \<or> ft_entries t = [] then None else Some t)"

definition table_valid :: "FrameTable option \<Rightarrow> bool" where
  "table_valid ft = (case ft of None \<Rightarrow> True
     | Some t \<Rightarrow> frames_ok 0 0 (ft_entries t) \<and> length (ft_entries t) \<le> unat maxDeserializedFrames)"

lemma Serialize_roundtrip:
  assumes "table_valid ft"
  shows "DeserializeFrameTable (Serialize ft @ rest) = Inr (normal_table ft, rest)"
proof (cases "normal_table ft")
  case None
  then have "\<exists>ct. Serialize ft = u32_enc ct @ u32_enc 0 @ []"
    by (auto simp: normal_table_def Serialize_def split: option.splits if_splits)
  then show ?thesis using None by (auto simp: DeserializeFrameTable_def u32c.read_enc)
next
  case (Some t)
  then have ft: "ft = Some t" "compressionType t \<noteq> 0" "ft_entries t \<noteq> []"
    by (auto simp: normal_table_def split: option.splits if_splits)
  let ?es = "ft_entries t" let ?n = "word_of_nat (length ?es) :: u32"
  have n: "length ?es \<le> 1048576" using assms ft by (simp add: table_valid_def maxDeserializedFrames_def)
  then have un: "unat ?n = length ?es" by (simp add: unat_of_nat take_bit_nat_eq_self)
  have ct: "ucast (compressionType t) \<noteq> (0 :: u32)" "ucast (ucast (compressionType t) :: u32) = compressionType t"
    using ft(2) by (simp_all only: ucast_u8_u32 ucast_u8_u32_eq_0 not_False_eq_True)
  have "?n \<noteq> 0" "\<not> ?n > maxDeserializedFrames"
    using un n ft(3) by (auto simp: word_less_nat_alt maxDeserializedFrames_def)
  moreover have "check_entries None ?es = None"
    using assms ft by (intro check_entries_ok [of 0 0]) (auto simp: table_valid_def)
  ultimately show ?thesis
    using Some ft ct un entryc.read_array_enc [of ?es rest]
    by (simp add: DeserializeFrameTable_def Serialize_def u32c.read_enc)
qed

section \<open>Trimming keeps what the ranges need\<close>

definition overlaps :: "frameEntry \<Rightarrow> Range \<Rightarrow> bool" where
  "overlaps e r \<longleftrightarrow> sint (rg_Offset r) < endU_i e \<and> startU_i e < sint (rg_Offset r + rg_Length r)"

fun count_true :: "bool list \<Rightarrow> nat" where
  "count_true [] = 0"
| "count_true (k # ks) = (if k then 1 else 0) + count_true ks"

lemma count_true_replicate: "count_true (replicate n False) = 0"
  by (induction n) auto

lemma count_true_le: "count_true ks \<le> length ks"
  by (induction ks) auto

lemma count_true_all: "count_true (map P xs) = length xs \<Longrightarrow> filter P xs = xs"
proof (induction xs)
  case (Cons x xs)
  then show ?case using count_true_le [of "map P xs"] by (auto split: if_splits)
qed simp

lemma count_true_update:
  "i < length ks \<Longrightarrow> \<not> ks ! i \<Longrightarrow> count_true (ks[i := True]) = Suc (count_true ks)"
proof (induction ks arbitrary: i)
  case (Cons k ks)
  then show ?case by (cases i) auto
qed simp

lemma mark_loop_correct:
  assumes ok: "frames_ok 0 0 es" and "length keep = length es" and "kept = count_true keep"
  shows "\<exists>keep'. mark_loop es rEnd i (keep, kept) = (keep', count_true keep') \<and> length keep' = length es \<and>
    (\<forall>j < length es. keep' ! j \<longleftrightarrow> keep ! j \<or> i \<le> j \<and> startU_i (es ! j) < sint rEnd)"
  using assms(2,3)
proof (induction "length es - i" arbitrary: i keep kept rule: less_induct)
  case less
  show ?case
  proof (cases "i < length es \<and> startU_i (es ! i) < sint rEnd")
    case True
    define k where "k = (if \<not> keep ! i then keep[i := True] else keep)"
    have k: "length k = length es" using less.prems by (simp add: k_def)
    have "mark_loop es rEnd i (keep, kept) = mark_loop es rEnd (i + 1) (k, count_true k)"
      using True less.prems by (simp add: mark_loop.simps [of es rEnd i] count_true_update k_def)
    moreover obtain keep' where k': "mark_loop es rEnd (i + 1) (k, count_true k) = (keep', count_true keep')"
        "length keep' = length es"
        "\<forall>j < length es. keep' ! j \<longleftrightarrow> k ! j \<or> i + 1 \<le> j \<and> startU_i (es ! j) < sint rEnd"
      using less.hyps [OF _ k refl, of "i + 1"] diff_less_mono2 [of i "i + 1" "length es"] True by auto
    moreover have "k ! j \<or> i + 1 \<le> j \<and> startU_i (es ! j) < sint rEnd \<longleftrightarrow>
        keep ! j \<or> i \<le> j \<and> startU_i (es ! j) < sint rEnd" if "j < length es" for j
      using that True less.prems by (cases "j = i") (auto simp: k_def)
    ultimately show ?thesis by auto
  next
    case False
    have "\<not> startU_i (es ! j) < sint rEnd" if "i \<le> j" "j < length es" for j
      using frames_mono [OF ok that] False that by linarith
    with False less.prems show ?thesis by (auto simp: mark_loop.simps [of es rEnd i])
  qed
qed

lemma mark_range_correct:
  assumes ok: "frames_ok 0 0 es" and "length keep = length es"
  shows "\<exists>keep'. mark_range es r (keep, count_true keep) = (keep', count_true keep') \<and>
    length keep' = length es \<and> (\<forall>j < length es. keep' ! j \<longleftrightarrow> keep ! j \<or> overlaps (es ! j) r)"
proof -
  let ?f = "\<lambda>i. sint (endU (es ! i)) > sint (rg_Offset r)"
  let ?lo = "sort_Search (length es) ?f"
  have e: "i < length es \<Longrightarrow> sint (endU (es ! i)) = endU_i (es ! i)" for i
    using frames_ok_nth [OF ok, of i] by simp
  have "?f j" if "i \<le> j" "j < length es" "?f i" for i j
    using frames_mono [OF ok that(1,2)] that e by fastforce
  then have lo: "j < length es \<Longrightarrow> ?f j \<longleftrightarrow> ?lo \<le> j" for j
    using sort_Search_correct(2) [of "length es" ?f j] by blast
  have "overlaps (es ! j) r \<longleftrightarrow> ?lo \<le> j \<and> startU_i (es ! j) < sint (rg_Offset r + rg_Length r)"
    if "j < length es" for j
    using lo [OF that] e [OF that] by (auto simp: overlaps_def)
  then show ?thesis
    using mark_loop_correct [OF ok assms(2) refl, of "rg_Offset r + rg_Length r" ?lo]
    by (auto simp: mark_range_def Let_def)
qed

lemma fold_mark_range:
  assumes ok: "frames_ok 0 0 es" and "length keep = length es"
  shows "\<exists>keep'. fold (mark_range es) rs (keep, count_true keep) = (keep', count_true keep') \<and>
    length keep' = length es \<and>
    (\<forall>j < length es. keep' ! j \<longleftrightarrow> keep ! j \<or> (\<exists>r \<in> set rs. overlaps (es ! j) r))"
  using assms(2)
proof (induction rs arbitrary: keep)
  case (Cons r rs)
  obtain k1 where k1: "mark_range es r (keep, count_true keep) = (k1, count_true k1)" "length k1 = length es"
      "\<forall>j < length es. k1 ! j \<longleftrightarrow> keep ! j \<or> overlaps (es ! j) r"
    using mark_range_correct [OF ok Cons.prems] by blast
  show ?case using Cons.IH [OF k1(2)] k1 by auto
qed simp

lemma filter_zip_map: "map fst (filter snd (zip xs (map P xs))) = filter P xs"
  by (induction xs) auto

lemma TrimToRanges_filter:
  assumes ok: "frames_ok 0 0 (ft_entries t)" and "ranges \<noteq> []"
  shows "TrimToRanges (Some t) ranges =
    Some (t\<lparr>ft_entries := filter (\<lambda>e. \<exists>r \<in> set ranges. overlaps e r) (ft_entries t)\<rparr>)"
proof (cases "ft_entries t = []")
  case False
  let ?es = "ft_entries t" let ?P = "\<lambda>e. \<exists>r \<in> set ranges. overlaps e r"
  obtain keep where k: "fold (mark_range ?es) ranges (replicate (length ?es) False, 0) = (keep, count_true keep)"
      "length keep = length ?es" "\<forall>j < length ?es. keep ! j \<longleftrightarrow> ?P (?es ! j)"
    using fold_mark_range [OF ok, of "replicate (length ?es) False" ranges]
    by (auto simp: count_true_replicate)
  then have keep: "keep = map ?P ?es" by (intro nth_equalityI) auto
  have all: "filter ?P ?es = ?es" if "count_true keep = length ?es"
    using that unfolding keep by (rule count_true_all)
  show ?thesis using False assms(2) k(1) all by (simp add: TrimToRanges_def Let_def keep filter_zip_map)
qed (simp add: TrimToRanges_def)

lemma frames_ok_filter:
  "frames_ok u c es \<Longrightarrow> frames_ok u c (filter P es)"
proof (induction es arbitrary: u c)
  case (Cons e es)
  then have "frames_ok (endU_i e) (sint (StartC e) + sint (SizeC e)) (filter P es)" by simp
  with Cons.prems show ?case by (auto intro: frames_ok_mono)
qed simp

text \<open>
  C39. Trimming a valid table to the ranges that a header references is safe: the trimmed table is
  valid, and for every offset inside one of the ranges it locates exactly what the full table does,
  success or failure.
\<close>

theorem TrimToRanges_locate:
  assumes "frames_ok 0 0 (ft_entries t)" and "r \<in> set ranges"
    and "sint (rg_Offset r) \<le> sint off" and "sint off < sint (rg_Offset r + rg_Length r)"
  shows "\<exists>t'. TrimToRanges (Some t) ranges = Some t' \<and> frames_ok 0 0 (ft_entries t') \<and>
    (locate (Some t') off = Inr e \<longleftrightarrow> locate (Some t) off = Inr e)"
proof -
  let ?t' = "t\<lparr>ft_entries := filter (\<lambda>e. \<exists>r \<in> set ranges. overlaps e r) (ft_entries t)\<rparr>"
  have ok': "frames_ok 0 0 (ft_entries ?t')" using frames_ok_filter [OF assms(1)] by simp
  have "overlaps e r" if "startU_i e \<le> sint off" "sint off < endU_i e"
    using that assms(3,4) by (auto simp: overlaps_def)
  then have "locate (Some ?t') off = Inr e \<longleftrightarrow> locate (Some t) off = Inr e"
    using assms(2) by (auto simp: locate_iff [OF ok'] locate_iff [OF assms(1)])
  moreover have "TrimToRanges (Some t) ranges = Some ?t'"
    using assms(2) by (intro TrimToRanges_filter [OF assms(1)]) auto
  ultimately show ?thesis using ok' by blast
qed

theorem TrimToRanges_locate_witness:
  "let e = \<lparr>StartU = 4096, StartC = 7, SizeU = 4096, SizeC = 100\<rparr>;
       t = \<lparr>compressionType = 1, ft_entries = [\<lparr>StartU = 0, StartC = 0, SizeU = 4096, SizeC = 7\<rparr>, e]\<rparr>;
       r = \<lparr>rg_Offset = 4096, rg_Length = 4096\<rparr>
   in frames_ok 0 0 (ft_entries t) \<and>
      (\<exists>t'. TrimToRanges (Some t) [r] = Some t' \<and> frames_ok 0 0 (ft_entries t') \<and>
        (locate (Some t') 5000 = Inr e \<longleftrightarrow> locate (Some t) 5000 = Inr e))"
proof -
  let ?e = "\<lparr>StartU = 4096, StartC = 7, SizeU = 4096, SizeC = 100\<rparr> :: frameEntry"
  let ?t = "\<lparr>compressionType = 1,
    ft_entries = [\<lparr>StartU = 0, StartC = 0, SizeU = 4096, SizeC = 7\<rparr>, ?e]\<rparr> :: FrameTable"
  let ?r = "\<lparr>rg_Offset = 4096, rg_Length = 4096\<rparr> :: Range"
  have h: "frames_ok 0 0 (ft_entries ?t)" by simp
  show ?thesis using h TrimToRanges_locate [OF h, of ?r "[?r]" 5000 ?e] by (simp add: Let_def)
qed

end
