(* ===== verification/Header.thy ===== *)
theory Header
  imports Compact_Mapping Frame_Table "HOL-Library.AList"
begin

text \<open>
  Build headers (\<open>packages/shared/pkg/storage/header/header.go\<close> and \<open>metadata.go\<close>): the metadata of
  a build, the per-build data, the compact mapping, and the operations that make the header of a
  snapshot out of its parent's header and the bitmaps of dirty and empty blocks. Bitmaps are values
  of the third-party \<open>roaring\<close> package: their type and the operations on them (\<open>New\<close>, \<open>Add\<close>,
  \<open>Ranges\<close>) are parameters. Tracing and logging are left out.
\<close>

section \<open>Data\<close>

record Metadata =
  md_Version :: u64
  md_BlockSize :: u64
  md_Size :: u64
  md_Generation :: u64
  md_BuildId :: uuid
  md_BaseBuildId :: uuid

definition metadataVersion :: u64 where "metadataVersion = 3"
definition MetadataVersionV4 :: u64 where "MetadataVersionV4 = 4"
definition MetadataVersionV5 :: u64 where "MetadataVersionV5 = 5"
definition NormalizeFixVersion :: u64 where "NormalizeFixVersion = 3"

text \<open>The checksum is the 32 bytes of \<open>[32]byte\<close>, most significant first. A nil frame table is
  \<open>None\<close>.\<close>

type_synonym checksum = "256 word"

record BuildData =
  bd_Size :: i64
  bd_Checksum :: checksum
  bd_FrameData :: "FrameTable option"

text \<open>A Go map from build ids is an association list with distinct keys; \<open>None\<close> is the nil map.\<close>

type_synonym build_table = "(uuid \<times> BuildData) list"

record Header =
  h_Metadata :: Metadata
  h_Builds :: "build_table option"
  h_Mapping :: Mapping
  h_IncompletePendingUpload :: bool

definition lookup_build :: "build_table option \<Rightarrow> uuid \<Rightarrow> BuildData option" where
  "lookup_build bs b = (case bs of None \<Rightarrow> None | Some t \<Rightarrow> map_of t b)"

datatype header_error =
    HZeroBlockSize | HCompact compact_error | OutOfBounds | OffsetUnalignedPage | NoSource
  | BeyondMapping | NegativeLength | NoSelfEntry | HInvalid mapping_error | HPanic

section \<open>header.go\<close>

definition CloneForUpload :: "Header \<Rightarrow> u64 \<Rightarrow> Header" where
  "CloneForUpload t version =
     \<lparr>h_Metadata = (h_Metadata t)\<lparr>md_Version := version\<rparr>, h_Builds = h_Builds t,
      h_Mapping = h_Mapping t, h_IncompletePendingUpload = False\<rparr>"

definition SetBuild :: "Header \<Rightarrow> uuid \<Rightarrow> BuildData \<Rightarrow> Header" where
  "SetBuild t buildID bd =
     t\<lparr>h_Builds := Some (AList.update buildID bd (case h_Builds t of None \<Rightarrow> [] | Some bs \<Rightarrow> bs))\<rparr>"

definition NewHeader :: "Metadata \<Rightarrow> BuildMap list \<Rightarrow> header_error + Header" where
  "NewHeader metadata mapping =
     (if md_BlockSize metadata = 0 then Inl HZeroBlockSize
      else
        let mapping' =
          (if mapping = [] then
             [\<lparr>Offset = 0, Length = (md_Size metadata + PageSize - 1) div PageSize * PageSize,
               BuildId = md_BuildId metadata, BuildStorageOffset = 0\<rparr>]
           else mapping)
        in case NewMapping PageSize mapping' of
             Inl e \<Rightarrow> Inl (HCompact e)
           | Inr compact \<Rightarrow>
               Inr \<lparr>h_Metadata = metadata, h_Builds = None, h_Mapping = compact,
                    h_IncompletePendingUpload = False\<rparr>)"

definition newDiffHeader ::
  "Metadata \<Rightarrow> BuildMap list \<Rightarrow> build_table option \<Rightarrow> header_error + Header" where
  "newDiffHeader metadata mapping sourceBuilds =
     bind_res (NewHeader metadata mapping) (\<lambda>h.
       let h' = (case sourceBuilds of
           None \<Rightarrow> h
         | Some src \<Rightarrow>
             h\<lparr>h_Builds := Some (fold (\<lambda>id bs.
                 case map_of src id of Some bd \<Rightarrow> AList.update id bd bs | None \<Rightarrow> bs)
               (builds (h_Mapping h)) [])\<rparr>)
       in Inr (h'\<lparr>h_IncompletePendingUpload := True\<rparr>))"

definition IsNormalizeFixApplied :: "Header \<Rightarrow> bool" where
  "IsNormalizeFixApplied t \<longleftrightarrow> md_Version (h_Metadata t) \<ge> NormalizeFixVersion"

text \<open>On a header older than the normalization fix each failed check is only logged.\<close>

definition getMapping :: "Header \<Rightarrow> i64 \<Rightarrow> header_error + BuildMap \<times> i64" where
  "getMapping t offset =
     (if (sint offset < 0 \<or> sint offset \<ge> sint (md_Size (h_Metadata t))) \<and> IsNormalizeFixApplied t
      then Inl OutOfBounds
      else if i64_mod offset PageSize \<noteq> 0 \<and> IsNormalizeFixApplied t then Inl OffsetUnalignedPage
      else case SearchOffset (h_Mapping t) offset of
        None \<Rightarrow> Inl HPanic
      | Some i \<Rightarrow>
          if i = 0 then Inl NoSource
          else case At (h_Mapping t) (i - 1) of
            None \<Rightarrow> Inl HPanic
          | Some mapping \<Rightarrow>
              let shift = offset - Offset mapping in
              if sint shift \<ge> sint (Length mapping) \<and> IsNormalizeFixApplied t then Inl BeyondMapping
              else Inr (mapping, shift))"

definition GetShiftedMapping :: "Header \<Rightarrow> i64 \<Rightarrow> header_error + BuildMap" where
  "GetShiftedMapping t offset =
     bind_res (getMapping t offset) (\<lambda>(mapping, shift).
       let mappedLength = Length mapping - shift;
           b = \<lparr>Offset = BuildStorageOffset mapping + shift, Length = mappedLength,
                BuildId = BuildId mapping, BuildStorageOffset = 0\<rparr>
       in if sint mappedLength < 0
          then if IsNormalizeFixApplied t then Inl NegativeLength else Inr (b\<lparr>Length := 0\<rparr>)
          else Inr b)"

definition GetBuildFrameData :: "Header \<Rightarrow> uuid \<Rightarrow> FrameTable option" where
  "GetBuildFrameData t buildID =
     (case lookup_build (h_Builds t) buildID of
        None \<Rightarrow> None
      | Some bd \<Rightarrow> (case bd_FrameData bd of None \<Rightarrow> Some UncompressedFrameTable | Some ft \<Rightarrow> Some ft))"

definition SelfBuildData :: "Header \<Rightarrow> header_error + i64 \<times> FullFrameTable" where
  "SelfBuildData t =
     (case lookup_build (h_Builds t) (md_BuildId (h_Metadata t)) of
        None \<Rightarrow> Inl NoSelfEntry
      | Some bd \<Rightarrow> Inr (bd_Size bd, FullFromTable (bd_FrameData bd)))"

section \<open>metadata.go\<close>

definition NewTemplateMetadata :: "uuid \<Rightarrow> u64 \<Rightarrow> u64 \<Rightarrow> Metadata" where
  "NewTemplateMetadata buildId blkSize sz =
     \<lparr>md_Version = metadataVersion, md_BlockSize = blkSize, md_Size = sz, md_Generation = 0,
      md_BuildId = buildId, md_BaseBuildId = buildId\<rparr>"

definition NextGeneration :: "Metadata \<Rightarrow> uuid \<Rightarrow> Metadata" where
  "NextGeneration m buildID =
     \<lparr>md_Version = md_Version m, md_BlockSize = md_BlockSize m, md_Size = md_Size m,
      md_Generation = md_Generation m + 1, md_BuildId = buildID, md_BaseBuildId = md_BaseBuildId m\<rparr>"

abbreviation ignoreBuildID :: uuid where "ignoreBuildID \<equiv> uuid_Nil"

record 'bm DiffMetadata =
  dm_Dirty :: 'bm
  dm_Empty :: 'bm
  dm_BlockSize :: i64

definition NewDiffMetadata :: "'bm \<Rightarrow> i64 \<Rightarrow> 'bm option \<Rightarrow> 'bm option \<Rightarrow> 'bm DiffMetadata" where
  "NewDiffMetadata bm_New blkSize dirty emptied =
     \<lparr>dm_Dirty = (case dirty of None \<Rightarrow> bm_New | Some d \<Rightarrow> d),
      dm_Empty = (case emptied of None \<Rightarrow> bm_New | Some e \<Rightarrow> e), dm_BlockSize = blkSize\<rparr>"

definition toDiffMapping :: "('bm \<Rightarrow> ranges) \<Rightarrow> 'bm DiffMetadata \<Rightarrow> uuid \<Rightarrow> BuildMap list" where
  "toDiffMapping Ranges d buildID =
     (let dirtyMappings = CreateMapping buildID (Ranges (dm_Dirty d)) (dm_BlockSize d);
          emptyMappings = CreateMapping ignoreBuildID (Ranges (dm_Empty d)) (dm_BlockSize d)
      in MergeMappings dirtyMappings emptyMappings)"

definition ToDiffHeader ::
  "('bm \<Rightarrow> ranges) \<Rightarrow> 'bm DiffMetadata \<Rightarrow> Header \<Rightarrow> uuid \<Rightarrow> header_error + Header" where
  "ToDiffHeader Ranges d originalHeader buildID =
     (let diffMapping = toDiffMapping Ranges d buildID in
      case Slice (h_Mapping originalHeader) of
        None \<Rightarrow> Inl HPanic
      | Some base \<Rightarrow>
          let m = NormalizeMappings (MergeMappings base diffMapping);
              metadata = NextGeneration (h_Metadata originalHeader) buildID
          in bind_res (newDiffHeader metadata m (h_Builds originalHeader)) (\<lambda>header.
               case Validate (h_Mapping header) (md_Size (h_Metadata header)) PageSize of
                 None \<Rightarrow> Inl HPanic
               | Some (Inl e) \<Rightarrow> if IsNormalizeFixApplied header then Inl (HInvalid e) else Inr header
               | Some (Inr _) \<Rightarrow> Inr header))"

definition ToProvisionalDiffHeader ::
  "('bm \<Rightarrow> ranges) \<Rightarrow> 'bm DiffMetadata \<Rightarrow> Header \<Rightarrow> uuid \<Rightarrow> header_error + Header" where
  "ToProvisionalDiffHeader Ranges d originalHeader buildID =
     (let dirtyMappings = createIdentityMapping buildID (Ranges (dm_Dirty d)) (dm_BlockSize d);
          emptyMappings = CreateMapping ignoreBuildID (Ranges (dm_Empty d)) (dm_BlockSize d);
          diffMapping = MergeMappings dirtyMappings emptyMappings
      in case Slice (h_Mapping originalHeader) of
        None \<Rightarrow> Inl HPanic
      | Some base \<Rightarrow>
          let m = NormalizeMappings (MergeMappings base diffMapping);
              metadata = NextGeneration (h_Metadata originalHeader) buildID
          in bind_res (newDiffHeader metadata m (h_Builds originalHeader)) (\<lambda>h.
               case Validate (h_Mapping h) (md_Size (h_Metadata h)) PageSize of
                 None \<Rightarrow> Inl HPanic
               | Some (Inl e) \<Rightarrow> Inl (HInvalid e)
               | Some (Inr _) \<Rightarrow> Inr h))"

definition ToResizedDiffHeader ::
  "('bm \<Rightarrow> ranges) \<Rightarrow> 'bm DiffMetadata \<Rightarrow> Header \<Rightarrow> uuid \<Rightarrow> u64 \<Rightarrow> header_error + Header" where
  "ToResizedDiffHeader Ranges d originalHeader buildID newSize =
     (let resizedMetadata = (h_Metadata originalHeader)\<lparr>md_Size := newSize\<rparr>;
          resizedHeader = originalHeader\<lparr>h_Metadata := resizedMetadata\<rparr>
      in bind_res (ToDiffHeader Ranges d resizedHeader buildID) (\<lambda>header.
           case Validate (h_Mapping header) (md_Size (h_Metadata header)) PageSize of
             None \<Rightarrow> Inl HPanic
           | Some (Inl e) \<Rightarrow> Inl (HInvalid e)
           | Some (Inr _) \<Rightarrow> Inr header))"

section \<open>The builder of diff metadata\<close>

record 'bm DiffMetadataBuilder =
  dmb_dirty :: 'bm
  dmb_empty :: 'bm
  dmb_blockSize :: i64

definition NewDiffMetadataBuilder :: "'bm \<Rightarrow> i64 \<Rightarrow> 'bm DiffMetadataBuilder" where
  "NewDiffMetadataBuilder bm_New blkSize = \<lparr>dmb_dirty = bm_New, dmb_empty = bm_New, dmb_blockSize = blkSize\<rparr>"

text \<open>\<open>out\<close> is an \<open>io.Writer\<close>: \<open>wr\<close> is its \<open>Write\<close>, which returns the writer's new state, the number of
  bytes written and an error.\<close>

datatype 'e process_error = WriteError 'e | ShortWrite

definition Process ::
  "(u32 \<Rightarrow> 'bm \<Rightarrow> 'bm) \<Rightarrow> ('w \<Rightarrow> byte list \<Rightarrow> 'w \<times> i64 \<times> 'e option) \<Rightarrow> 'bm DiffMetadataBuilder \<Rightarrow>
   byte list \<Rightarrow> 'w \<Rightarrow> i64 \<Rightarrow> 'bm DiffMetadataBuilder \<times> 'w \<times> 'e process_error option" where
  "Process bm_Add wr b block out offset =
     (let blockIdx = BlockIdx offset (dmb_blockSize b) in
      if IsZero block then (b\<lparr>dmb_empty := bm_Add (ucast blockIdx) (dmb_empty b)\<rparr>, out, None)
      else
        let b' = b\<lparr>dmb_dirty := bm_Add (ucast blockIdx) (dmb_dirty b)\<rparr>;
            (out', n, err) = wr out block
        in (b', out',
            case err of
              Some e \<Rightarrow> Some (WriteError e)
            | None \<Rightarrow> if n \<noteq> dmb_blockSize b then Some ShortWrite else None))"

definition Build :: "'bm DiffMetadataBuilder \<Rightarrow> 'bm DiffMetadata" where
  "Build b = \<lparr>dm_Dirty = dmb_dirty b, dm_Empty = dmb_empty b, dm_BlockSize = dmb_blockSize b\<rparr>"

section \<open>Entries of a contiguous mapping by index\<close>

lemma ordered_nth:
  "ordered_from k ms \<Longrightarrow> i < length ms \<Longrightarrow> k \<le> mstart (ms ! i) \<and> bm_ok (ms ! i)"
proof (induction ms arbitrary: k i)
  case (Cons m ms)
  then show ?case using Cons.IH [of "mend m" "i - 1"] le_trans [OF _ le_trans [OF mstart_le_mend]]
    by (cases i) auto
qed simp

lemma ordered_nth_less:
  "ordered_from k ms \<Longrightarrow> i < j \<Longrightarrow> j < length ms \<Longrightarrow> mend (ms ! i) \<le> mstart (ms ! j)"
proof (induction ms arbitrary: k i j)
  case (Cons m ms)
  then obtain j' where "j = Suc j'" by (cases j) auto
  with Cons show ?case using ordered_nth [of "mend m" ms j'] by (cases i) auto
qed simp

lemma resolve_nth:
  "ordered_from k ms \<Longrightarrow> i < length ms \<Longrightarrow> mstart (ms ! i) \<le> q \<Longrightarrow> q < mend (ms ! i) \<Longrightarrow>
   resolve ms q = Some (source_of (ms ! i) q)"
proof (induction ms arbitrary: k i)
  case (Cons m ms)
  show ?case
  proof (cases i)
    case (Suc j)
    with Cons.prems have "mend m \<le> mstart (ms ! j)" using ordered_nth [of "mend m" ms j] by simp
    with Suc Cons.prems Cons.IH [of "mend m" j] show ?thesis by simp
  qed (use Cons.prems in simp)
qed simp

lemma contiguous_next:
  "contiguous k ms n \<Longrightarrow> i < length ms \<Longrightarrow>
   mend (ms ! i) = (if Suc i < length ms then mstart (ms ! Suc i) else n)"
proof (induction ms arbitrary: k i)
  case (Cons m ms)
  then show ?case by (cases i; cases ms) (auto split: if_splits)
qed simp

text \<open>A header whose mapping is well formed, in pages, and covers the device exactly.\<close>

definition header_wf :: "Header \<Rightarrow> bool" where
  "header_wf h \<longleftrightarrow> mapping_wf (h_Mapping h) \<and> blockSize (h_Mapping h) = PageSize \<and>
     contiguous 0 (entries (h_Mapping h)) (unat (md_Size (h_Metadata h))) \<and>
     unat (md_Size (h_Metadata h)) < 2 ^ 63"

lemma header_wf_small: "header_wf h \<Longrightarrow> small_blocks (h_Mapping h)"
  by (simp add: header_wf_def small_blocks_def PageSize_def)

lemma entries_nth [simp]: "i < length (offsets m) \<Longrightarrow> entries m ! i = entry_at m i"
  and length_entries [simp]: "length (entries m) = length (offsets m)"
  by (simp_all add: entries_def)

lemma contiguous_offsets_sorted:
  assumes "contiguous 0 (entries m) n" and "small_blocks m" and "blockSize m \<noteq> 0"
  shows "sorted (offsets m)"
proof -
  have B: "0 < unat (blockSize m)" using assms(3) by (simp add: unat_gt_0)
  have "offsets m ! i \<le> offsets m ! j" if "i < j" "j < length (offsets m)" for i j
  proof -
    have "mstart (entry_at m i) \<le> mstart (entry_at m j)"
      using ordered_nth_less [OF contiguous_ordered [OF assms(1)], of i j] that
        mstart_le_mend [of "entry_at m i"] by (simp del: mstart_le_mend)
    then show ?thesis using B by (simp add: entry_at_nat [OF assms(2)] word_le_nat_alt)
  qed
  then show ?thesis by (auto simp: sorted_iff_nth_mono_less)
qed

section \<open>Resolving an offset\<close>

lemma i64_mod_page: "unat (off :: i64) < 2 ^ 63 \<Longrightarrow> i64_mod off PageSize = 0 \<longleftrightarrow> unat off mod 4096 = 0"
proof -
  assume lt: "unat off < 2 ^ 63"
  have "sint (PageSize :: u64) = 4096" by (simp add: PageSize_def)
  then have "sint off smod sint (PageSize :: i64) = int (unat off mod 4096)"
    by (simp add: sint_small_u64 [OF lt] signed_modulo_int_def sdiv_nonneg zmod_int) (cases "off = 0"; simp add: unat_gt_0)
  then have "i64_mod off PageSize = word_of_nat (unat off mod 4096)" by (simp add: i64_mod_def)
  moreover have "unat off mod 4096 < 2 ^ 64" by (rule less_trans [of _ 4096]) simp_all
  ultimately show ?thesis by (simp add: word_of_nat_eq_0_iff nat_dvd_not_less mod_eq_0_iff_dvd) auto
qed

lemma getMapping_inside:
  assumes wf: "header_wf h" and p: "unat off < unat (md_Size (h_Metadata h))" and al: "4096 dvd unat off"
  obtains i where "i < length (offsets (h_Mapping h))"
    "getMapping h off = Inr (entry_at (h_Mapping h) i, off - Offset (entry_at (h_Mapping h) i))"
    "mstart (entry_at (h_Mapping h) i) \<le> unat off" "unat off < mend (entry_at (h_Mapping h) i)"
proof -
  let ?m = "h_Mapping h" let ?n = "length (offsets ?m)"
  have c: "contiguous 0 (entries ?m) (unat (md_Size (h_Metadata h)))" and sz: "unat (md_Size (h_Metadata h)) < 2 ^ 63"
    and mwf: "mapping_wf ?m" using wf by (simp_all add: header_wf_def)
  have off: "unat off < 2 ^ 63" using p sz by simp
  have "blockSize ?m \<noteq> 0" using mwf by (simp add: mapping_wf_def)
  note srt = contiguous_offsets_sorted [OF c header_wf_small [OF wf] this]
  from SearchOffset_ok [OF mwf header_wf_small [OF wf] srt off] obtain r where r: "r \<le> ?n"
    "SearchOffset ?m off = Some r" "\<And>i. i < ?n \<Longrightarrow> unat off < mstart (entry_at ?m i) \<longleftrightarrow> r \<le> i" by blast
  have "0 < ?n" using c p by (cases "offsets ?m") (auto simp: entries_def)
  moreover from this have "mstart (entry_at ?m 0) = 0"
    using c p by (cases "entries ?m") (auto simp flip: entries_nth)
  ultimately have r0: "r \<noteq> 0" using r(3) [of 0] by auto
  define i where "i = r - 1"
  have i: "i < ?n" "mstart (entry_at ?m i) \<le> unat off" using r r0 by (auto simp: i_def not_less [symmetric])
  have mend: "unat off < mend (entry_at ?m i)"
    using contiguous_next [OF c, of i] i p r(3) [of "Suc i"] r0 by (auto simp: i_def split: if_splits)
  have ok: "bm_ok (entry_at ?m i)" by (rule entry_at_nat(3) [OF header_wf_small [OF wf]])
  then have len: "unat (Length (entry_at ?m i)) < 2 ^ 63" by (simp add: bm_ok_def mend_def)
  have shift: "unat (off - Offset (entry_at ?m i)) = unat off - mstart (entry_at ?m i)"
    using i(2) by (simp add: mstart_def unat_sub word_le_nat_alt)
  have "getMapping h off = Inr (entry_at ?m i, off - Offset (entry_at ?m i))"
    using r(2) r0 At_wf [OF mwf i(1)] p sz off al i(2) mend len shift i64_mod_page [OF off]
    by (simp add: getMapping_def sint_small_u64 Let_def i_def mend_def mstart_def)
  with i mend that show thesis by blast
qed

lemma GetShiftedMapping_inside:
  assumes wf: "header_wf h" and p: "unat off < unat (md_Size (h_Metadata h))" and al: "4096 dvd unat off"
  shows "\<exists>b. GetShiftedMapping h off = Inr b \<and> 0 < Length b \<and>
    (\<forall>q < unat (Length b). resolve (entries (h_Mapping h)) (unat off + q) =
       Some (if BuildId b = uuid_Nil then Zeros else FromBuild (BuildId b) (unat (Offset b) + q)))"
proof -
  let ?m = "h_Mapping h"
  obtain i where i: "i < length (offsets ?m)" and
    g: "getMapping h off = Inr (entry_at ?m i, off - Offset (entry_at ?m i))" and
    lo: "mstart (entry_at ?m i) \<le> unat off" and hi: "unat off < mend (entry_at ?m i)"
    by (rule getMapping_inside [OF assms])
  let ?e = "entry_at ?m i"
  have ok: "bm_ok ?e" by (rule entry_at_nat(3) [OF header_wf_small [OF wf]])
  have shift: "unat (off - Offset ?e) = unat off - mstart ?e"
    using lo by (simp add: mstart_def unat_sub word_le_nat_alt)
  have sub: "off - Offset ?e \<le> Length ?e" using hi lo shift by (simp add: word_le_nat_alt mend_def mstart_def)
  then have len: "unat (Length ?e - (off - Offset ?e)) = mend ?e - unat off"
    using lo hi by (simp add: unat_sub shift mend_def mstart_def)
  have lt: "mend ?e - unat off < 2 ^ 63" using ok by (auto simp: bm_ok_def)
  have sto: "unat (BuildStorageOffset ?e + (off - Offset ?e)) = unat (BuildStorageOffset ?e) + (unat off - mstart ?e)"
    if "BuildId ?e \<noteq> uuid_Nil"
    using ok that lo hi shift by (subst unat_add_u64) (auto simp: bm_ok_def mend_def mstart_def)
  have "contiguous 0 (entries ?m) (unat (md_Size (h_Metadata h)))" using wf by (simp add: header_wf_def)
  then have res: "resolve (entries ?m) (unat off + q) = Some (source_of ?e (unat off + q))"
    if "q < mend ?e - unat off" for q
    using resolve_nth [OF contiguous_ordered, of 0 "entries ?m" _ i "unat off + q"] i lo that by simp
  have "GetShiftedMapping h off = Inr \<lparr>Offset = BuildStorageOffset ?e + (off - Offset ?e),
      Length = Length ?e - (off - Offset ?e), BuildId = BuildId ?e, BuildStorageOffset = 0\<rparr>"
    using len lt by (simp add: GetShiftedMapping_def g Let_def sint_small_u64)
  moreover have "0 < Length ?e - (off - Offset ?e)" using len hi by (simp add: word_less_nat_alt)
  ultimately show ?thesis using res sto len lo by (auto simp: source_of_def)
qed

text \<open>
  C28. Resolving an offset on a well-formed header of a version with the normalization fix: an aligned
  offset inside the device yields a non-empty build-local range that agrees, byte for byte, with
  what the mapping resolves from that offset on; a negative offset, one at or after the size, and
  one that is not page aligned are errors. It never panics.
\<close>

theorem GetShiftedMapping_correct:
  assumes "header_wf h" and "IsNormalizeFixApplied h"
  shows "if \<not> unat off < unat (md_Size (h_Metadata h)) then GetShiftedMapping h off = Inl OutOfBounds
    else if \<not> 4096 dvd unat off then GetShiftedMapping h off = Inl OffsetUnalignedPage
    else \<exists>b. GetShiftedMapping h off = Inr b \<and> 0 < Length b \<and>
      (\<forall>q < unat (Length b). resolve (entries (h_Mapping h)) (unat off + q) =
         Some (if BuildId b = uuid_Nil then Zeros else FromBuild (BuildId b) (unat (Offset b) + q)))"
proof -
  let ?s = "md_Size (h_Metadata h)"
  have sz: "sint ?s = int (unat ?s)" using assms(1) by (simp add: header_wf_def sint_small_u64)
  have in_bounds: "\<not> (sint off < 0 \<or> sint off \<ge> sint ?s) \<longleftrightarrow> unat off < unat ?s"
  proof (cases "unat off < 2 ^ 63")
    case False
    then have "sint off < 0" using u64_bound [of off] by (simp add: sint_neg_u64)
    then show ?thesis using False assms(1) by (simp add: header_wf_def)
  qed (auto simp: sz sint_small_u64)
  show ?thesis
  proof (cases "unat off < unat ?s")
    case True
    then have "unat off < 2 ^ 63" using assms(1) by (simp add: header_wf_def)
    from i64_mod_page [OF this] True in_bounds assms(2) GetShiftedMapping_inside [OF assms(1) True] show ?thesis
      by (auto simp: GetShiftedMapping_def getMapping_def mod_eq_0_iff_dvd)
  next
    case False
    with in_bounds assms(2) show ?thesis by (auto simp: GetShiftedMapping_def getMapping_def)
  qed
qed

theorem GetShiftedMapping_correct_witness:
  "let m = \<lparr>blockSize = 4096, builds = [7], offsets = [0, 2], lengths = [2, 1], storage = [1, 0],
            buildIdx = [0, 65535]\<rparr>;
       h = \<lparr>h_Metadata = NewTemplateMetadata 7 4096 12288, h_Builds = None, h_Mapping = m,
            h_IncompletePendingUpload = False\<rparr>
   in header_wf h \<and> IsNormalizeFixApplied h \<and> GetShiftedMapping h 12288 = Inl OutOfBounds \<and>
      (\<exists>b. GetShiftedMapping h 4096 = Inr b \<and> 0 < Length b)"
proof -
  let ?m = "\<lparr>blockSize = 4096, builds = [7], offsets = [0, 2], lengths = [2, 1], storage = [1, 0],
            buildIdx = [0, 65535]\<rparr> :: Mapping"
  let ?h = "\<lparr>h_Metadata = NewTemplateMetadata 7 4096 12288, h_Builds = None, h_Mapping = ?m,
            h_IncompletePendingUpload = False\<rparr>"
  have "contiguous 0 (entries ?m) 12288"
    by (simp add: entries_def entry_at_def upt_rec mstart_def mend_def bm_ok_def)
  then have h: "header_wf ?h" "IsNormalizeFixApplied ?h"
    by (simp_all add: header_wf_def mapping_wf_def nilBuildIdx_def PageSize_def NewTemplateMetadata_def
        IsNormalizeFixApplied_def metadataVersion_def NormalizeFixVersion_def)
  show ?thesis
    using h GetShiftedMapping_correct [OF h, of 12288] GetShiftedMapping_correct [OF h, of 4096]
    by (auto simp: Let_def NewTemplateMetadata_def)
qed

section \<open>A sample\<close>

text \<open>A small header, for the witnesses: three pages, the last of them empty.\<close>

definition sample_header :: Header where
  "sample_header =
     \<lparr>h_Metadata = NewTemplateMetadata 7 4096 12288, h_Builds = None,
      h_Mapping = \<lparr>blockSize = 4096, builds = [7], offsets = [0, 2], lengths = [2, 1], storage = [1, 0],
        buildIdx = [0, 65535]\<rparr>, h_IncompletePendingUpload = False\<rparr>"

lemma sample_entries: "entries (h_Mapping sample_header) =
    [\<lparr>Offset = 0, Length = 8192, BuildId = 7, BuildStorageOffset = 4096\<rparr>,
     \<lparr>Offset = 8192, Length = 4096, BuildId = 0, BuildStorageOffset = 0\<rparr>]"
  by (simp add: sample_header_def entries_def entry_at_def upt_rec build_at_def nilBuildIdx_def)

end
