(* ===== verification/Diff_Header.thy ===== *)
theory Diff_Header
  imports Header
begin

text \<open>
  Snapshots: what \<open>ToDiffHeader\<close>, \<open>ToProvisionalDiffHeader\<close> and the diff builder of \<open>metadata.go\<close>
  promise. The invariant \<open>header_inv\<close> of a header is kept from parent to snapshot, so it holds along
  every chain of snapshots; the new mapping reads zeros in the empty blocks, the packed diff file in
  the dirty blocks and the parent everywhere else; and the bytes that the builder wrote are the
  bytes that the new header finds.
\<close>

section \<open>Runs of a bitmap\<close>

text \<open>What the documentation of \<open>roaring\<close> says of \<open>Ranges()\<close>: it yields the maximal runs of the set
  in ascending order; only non-emptiness, order and the union are used.\<close>

fun ascending :: "nat \<Rightarrow> ranges \<Rightarrow> bool" where
  "ascending k [] = True"
| "ascending k ((start, endExcl) # rs) =
     (k \<le> unat start \<and> unat start < unat endExcl \<and> ascending (unat endExcl) rs)"

definition is_runs :: "ranges \<Rightarrow> nat set \<Rightarrow> bool" where
  "is_runs rs S \<longleftrightarrow> ascending 0 rs \<and> (\<forall>b. in_ranges rs b \<longleftrightarrow> b \<in> S)"

lemma ascending_ranges_ok:
  assumes "ascending k rs" and "\<And>b. in_ranges rs b \<Longrightarrow> Suc b * bs \<le> N" and "N < 2 ^ 63"
  shows "ranges_ok bs k rs"
  using assms(1,2)
proof (induction rs arbitrary: k)
  case (Cons r rs)
  obtain s e where r: "r = (s, e)" by (cases r)
  have "Suc (unat e - 1) * bs \<le> N" using Cons.prems r by (intro Cons.prems(2)) auto
  moreover have "Suc (unat e - 1) = unat e" using Cons.prems(1) r by simp
  ultimately have "unat e * bs < 2 ^ 63" using assms(3) by (simp del: mult_Suc)
  then show ?case using Cons r by auto
qed simp

section \<open>Entries in bounds\<close>

abbreviation paged :: "u64 \<Rightarrow> bool" where "paged x \<equiv> 4096 dvd unat x"

lemma paged_add: "paged a \<Longrightarrow> paged b \<Longrightarrow> paged (a + b)"
  by (simp add: unat_word_ariths dvd_mod)

lemma paged_sub: "paged a \<Longrightarrow> paged b \<Longrightarrow> paged (a - b)"
  by (auto simp: unat_sub_if' intro!: dvd_diff_nat dvd_add)

lemma paged_mult: "paged b \<Longrightarrow> paged (a * b)"
  by (simp add: unat_word_ariths dvd_mod)

text \<open>Entries of builds in \<open>B\<close>, in whole pages, inside a device of \<open>N\<close> bytes; storage is addressed by
  \<open>2\<^sup>3\<^sup>2\<close> pages, and the (unread) storage offset of a zero region does not exceed its device offset.\<close>

definition entry_in :: "uuid set \<Rightarrow> nat \<Rightarrow> BuildMap \<Rightarrow> bool" where
  "entry_in B N m \<longleftrightarrow> paged (Offset m) \<and> paged (Length m) \<and> paged (BuildStorageOffset m) \<and>
     BuildId m \<in> B \<and> mend m \<le> N \<and>
     (if BuildId m = uuid_Nil then unat (BuildStorageOffset m) \<le> mstart m
      else unat (BuildStorageOffset m) + unat (Length m) < 2 ^ 44)"

lemma entry_in_left:
  assumes "entry_in B N base" "entry_in B N diff" "bm_ok base" "bm_ok diff" "mstart base \<le> mstart diff"
    "mstart diff \<le> mend base" "l \<in> set (left_base base diff)"
  shows "entry_in B N l"
proof -
  have u: "unat (Offset diff - Offset base) = mstart diff - mstart base"
    using assms(5) by (simp add: word_nat bm_words)
  have l: "l = \<lparr>Offset = Offset base, Length = Offset diff - Offset base,
      BuildId = BuildId base, BuildStorageOffset = BuildStorageOffset base\<rparr>"
    using assms(7) by (simp add: left_base_def Let_def split: if_splits)
  have "mend l = mstart diff" using assms(5) u by (simp add: l mend_def) (simp add: mstart_def)
  then show ?thesis
    using assms(1,2,5,6) u mstart_le_mend [of diff]
    by (auto simp: entry_in_def l paged_sub mstart_def mend_def split: if_splits)
qed

lemma entry_in_right:
  assumes "entry_in B N base" "entry_in B N diff" "bm_ok base" "bm_ok diff" "mstart base \<le> mend diff"
    "r \<in> set (right_base base diff)"
  shows "entry_in B N r"
proof -
  define sh where "sh = Offset diff + Length diff - Offset base"
  have s: "unat sh = mend diff - mstart base" using assms(3-5) by (simp add: sh_def word_nat bm_words)
  have r: "r = \<lparr>Offset = Offset base + sh, Length = Length base - sh,
      BuildId = BuildId base, BuildStorageOffset = BuildStorageOffset base + sh\<rparr>"
    using assms(6) by (simp add: right_base_def Let_def sh_def split: if_splits)
  from right_base_piece [OF assms(3-5)] assms(6)
  have lt: "mend diff < mend base" and p: "mstart r = mend diff" "mend r = mend base"
    by (auto simp: piece_def)
  have pg: "paged sh" using assms(1,2) by (simp add: sh_def entry_in_def paged_add paged_sub)
  have l: "unat (Length base - sh) = mend base - mend diff"
    using assms(5) s lt by (simp add: unat_sub word_le_nat_alt mstart_def mend_def)
  have st: "unat (BuildStorageOffset base + sh) \<le> unat (BuildStorageOffset base) + unat sh"
    by (simp add: unat_word_ariths mod_less_eq_dividend)
  have "unat (BuildStorageOffset r) \<le> mstart r" if "BuildId base = uuid_Nil"
    using assms(1,5) that st s p by (auto simp: entry_in_def r)
  moreover have "unat (BuildStorageOffset r) + unat (Length r) < 2 ^ 44" if "BuildId base \<noteq> uuid_Nil"
    using assms(1,5) that st s l lt by (auto simp: entry_in_def r mstart_def mend_def)
  ultimately show ?thesis
    using assms(1) pg p by (auto simp: entry_in_def r paged_add paged_sub)
qed

lemma entry_in_join:
  assumes "entry_in B N m" "entry_in B N mp" "bm_ok m" "bm_ok mp" "mstart mp = mend m" "BuildId mp = BuildId m"
    and "BuildId mp = uuid_Nil \<or> BuildStorageOffset mp = BuildStorageOffset m + Length m"
  shows "entry_in B N (m\<lparr>Length := Length m + Length mp\<rparr>)"
proof -
  note j = join_ok [OF assms(3-7)]
  have l: "unat (Length m + Length mp) = unat (Length m) + unat (Length mp)"
    using assms(3-5) by (intro unat_add_u64) (auto simp: bm_ok_def mstart_def mend_def)
  have "unat (BuildStorageOffset mp) = unat (BuildStorageOffset m) + unat (Length m)"
    if "BuildId m \<noteq> uuid_Nil"
    using assms(3,6,7) that by (simp add: bm_ok_def unat_add_u64)
  with assms(1,2,6) j(1,2) l show ?thesis by (auto simp: entry_in_def paged_add)
qed

interpretation bounded: entry_property "entry_in B N" for B N
  by unfold_locales (blast intro: entry_in_left entry_in_right entry_in_join)+

lemma aligned_paged: "aligned PageSize m \<longleftrightarrow> paged (Offset m) \<and> paged (Length m) \<and>
    paged (BuildStorageOffset m) \<and> unat (Offset m) < 2 ^ 44 \<and> unat (Length m) < 2 ^ 44 \<and>
    unat (BuildStorageOffset m) < 2 ^ 44"
proof -
  have "x mod PageSize = 0 \<longleftrightarrow> paged x" for x
    by (simp add: PageSize_def unat_mod_distrib mod_eq_0_iff_dvd flip: unat_eq_0_iff)
  moreover have "x div PageSize \<le> maxBlockIdx \<longleftrightarrow> unat x < 2 ^ 44" for x
    by (simp add: PageSize_def maxBlockIdx_def word_le_nat_alt unat_div_distrib) linarith
  ultimately show ?thesis by (simp add: aligned_def)
qed

section \<open>The invariant of headers\<close>

text \<open>A well-formed header of a non-empty device below 16 TiB, with every entry in bounds.\<close>

definition header_inv :: "Header \<Rightarrow> bool" where
  "header_inv h \<longleftrightarrow> header_wf h \<and> md_BlockSize (h_Metadata h) \<noteq> 0 \<and> md_Size (h_Metadata h) \<noteq> 0 \<and>
     unat (md_Size (h_Metadata h)) < 2 ^ 44 \<and>
     (\<forall>m \<in> set (entries (h_Mapping h)). entry_in UNIV (unat (md_Size (h_Metadata h))) m)"

definition header_builds :: "Header \<Rightarrow> uuid set" where
  "header_builds h = BuildId ` set (entries (h_Mapping h)) - {uuid_Nil}"

abbreviation device_resolve :: "Header \<Rightarrow> nat \<Rightarrow> source option" where
  "device_resolve h p \<equiv> resolve (entries (h_Mapping h)) p"

lemma entry_in_aligned: "entry_in B N m \<Longrightarrow> N < 2 ^ 44 \<Longrightarrow> aligned PageSize m"
  by (auto simp: entry_in_def aligned_paged mstart_def mend_def split: if_splits)

lemma fold_copy_builds:
  "map_of (fold (\<lambda>id bs. case map_of src id of Some bd \<Rightarrow> AList.update id bd bs | None \<Rightarrow> bs) ids t) b =
   (if b \<in> set ids \<and> map_of src b \<noteq> None then map_of src b else map_of t b)"
  by (induction ids arbitrary: t) (auto simp: update_conv split: option.splits)

lemma newDiffHeader_ok:
  assumes "m \<noteq> []" "md_BlockSize md \<noteq> 0" "\<forall>e \<in> set m. aligned PageSize e"
    "card (BuildId ` set m - {uuid_Nil}) \<le> maxBuildsPerHeader"
  shows "\<exists>h. newDiffHeader md m src = Inr h \<and> h_Metadata h = md \<and> entries (h_Mapping h) = m \<and>
    mapping_wf (h_Mapping h) \<and> blockSize (h_Mapping h) = PageSize \<and> h_IncompletePendingUpload h \<and>
    (\<forall>b. lookup_build (h_Builds h) b = (if b \<in> header_builds h then lookup_build src b else None))"
proof -
  have "PageSize \<noteq> 0" by (simp add: PageSize_def)
  then obtain c where c: "NewMapping PageSize m = Inr c" using NewMapping_succeeds assms(3,4) by blast
  note n = NewMapping_builds [OF c] NewMapping_entries [OF c] NewMapping_wf [OF c]
  show ?thesis
    using assms(1,2) c n
    by (auto simp: newDiffHeader_def NewHeader_def lookup_build_def header_builds_def fold_copy_builds
        split: option.splits)
qed

text \<open>Composing a diff over a header, for any diff in bounds.\<close>

lemma compose_over:
  fixes h :: Header and ds :: "BuildMap list"
  defines "N \<equiv> unat (md_Size (h_Metadata h))" and "es \<equiv> entries (h_Mapping h)"
  defines "m \<equiv> NormalizeMappings (MergeMappings es ds)"
  assumes inv: "header_inv h" and o: "ordered_from 0 ds" and ds: "\<forall>e \<in> set ds. entry_in B N e"
  shows "contiguous 0 m N" and "resolve m p = override (resolve ds p) (device_resolve h p)"
    and "\<forall>e \<in> set m. entry_in (BuildId ` set es \<union> B) N e" and "m \<noteq> []"
proof -
  have c: "contiguous 0 es N" and N: "N < 2 ^ 44" "0 < N" and es: "\<forall>e \<in> set es. entry_in UNIV N e"
    using inv by (auto simp: header_inv_def header_wf_def N_def es_def unat_gt_0)
  note oe = contiguous_ordered [OF c]
  let ?B = "BuildId ` set es \<union> B"
  have "\<forall>e \<in> set es \<union> set ds. entry_in ?B N e"
    using es ds by (auto simp: entry_in_def)
  from bounded.MergeMappings_Q [OF oe o this] have b: "\<forall>e \<in> set (MergeMappings es ds). entry_in ?B N e" .
  note mm = MergeMappings_merges [OF oe o]
  then have om: "ordered_from 0 (MergeMappings es ds)"
    and r: "resolve (MergeMappings es ds) p = override (resolve ds p) (resolve es p)" for p
    by (simp_all add: merges_def)
  have "contiguous 0 (MergeMappings es ds) N"
  proof (rule ordered_covering_contiguous [OF om])
    show "\<forall>p. 0 \<le> p \<and> p < N \<longrightarrow> resolve (MergeMappings es ds) p \<noteq> None"
      using contiguous_covers [OF c] by (force simp: r override_def split: option.splits)
    show "\<forall>e \<in> set (MergeMappings es ds). mend e \<le> N" using b by (simp add: entry_in_def)
  qed simp
  note cm = this
  from NormalizeMappings_ok [OF cm, of p] r show "contiguous 0 m N"
    and "resolve m p = override (resolve ds p) (device_resolve h p)" by (simp_all add: m_def es_def)
  then show "m \<noteq> []" using N by auto
  show "\<forall>e \<in> set m. entry_in ?B N e" unfolding m_def by (rule bounded.NormalizeMappings_Q [OF cm b])
qed

section \<open>Diffs in bounds\<close>

lemma run_entry_in:
  assumes "unat s < unat e" "unat e * unat bs \<le> N" "N < 2 ^ 44" "unat so \<le> unat s * unat bs" "paged bs" "paged so"
  shows "entry_in {bid} N (run_entry bid bs so s e)"
proof -
  have eB: "unat e * unat bs < 2 ^ 63" using assms(2,3) by simp
  note r = run_entry_ok [OF assms(1) eB assms(4)]
  have "unat (BlockOffset (e - ucast s) bs) = (unat e - unat s) * unat bs"
    using r(1,2) [of bid] assms(1) by (simp add: mstart_def mend_def diff_mult_distrib)
  then show ?thesis
    using assms r(1,2,5) by (auto simp: entry_in_def BlockOffset_def paged_mult)
qed

lemma ranges_run_end:
  assumes "\<And>b. in_ranges ((s, e) # rs) b \<Longrightarrow> Suc b * bs \<le> N" "unat s < unat e"
  shows "unat e * bs \<le> N"
proof -
  have "Suc (unat e - 1) * bs \<le> N" using assms(2) by (intro assms(1)) auto
  with assms(2) show ?thesis by (simp del: mult_Suc)
qed

lemma create_mapping_loop_in:
  assumes "ranges_ok (unat bs) k rs" "\<And>b. in_ranges rs b \<Longrightarrow> Suc b * unat bs \<le> N" "N < 2 ^ 44"
    "unat so \<le> k * unat bs" "paged bs" "paged so"
  shows "\<forall>m \<in> set (create_mapping_loop bid bs so rs). entry_in {bid} N m"
  using assms(1,2,4,6)
proof (induction rs arbitrary: k so)
  case (Cons r rs)
  obtain s e where r: "r = (s, e)" by (cases r)
  from Cons.prems r have ks: "k \<le> unat s" and se: "unat s < unat e" and eB: "unat e * unat bs < 2 ^ 63"
    and ok: "ranges_ok (unat bs) (unat e) rs" by simp_all
  have so: "unat so \<le> unat s * unat bs" using Cons.prems(3) ks by (meson le_trans mult_le_mono1)
  have eN: "unat e * unat bs \<le> N" by (rule ranges_run_end [OF _ se]) (use Cons.prems(2) r in blast)
  note e = run_entry_ok [OF se eB so]
  have "\<forall>m \<in> set (create_mapping_loop bid bs (so + BlockOffset (e - ucast s) bs) rs). entry_in {bid} N m"
  proof (rule Cons.IH [OF ok])
    show "paged (so + BlockOffset (e - ucast s) bs)"
      using Cons.prems(4) assms(5) by (simp add: BlockOffset_def paged_add paged_mult)
  qed (use Cons.prems(2) e(4,5) r in auto)
  with run_entry_in [OF se eN assms(3) so assms(5) Cons.prems(4)] show ?case by (simp add: r Let_def)
qed simp

lemma CreateMapping_in:
  assumes "ranges_ok (unat bs) 0 rs" "\<And>b. in_ranges rs b \<Longrightarrow> Suc b * unat bs \<le> N" "N < 2 ^ 44" "paged bs"
  shows "\<forall>m \<in> set (CreateMapping bid rs bs). entry_in {bid} N m"
  unfolding CreateMapping_def by (rule create_mapping_loop_in) (use assms in simp_all)

lemma createIdentityMapping_in:
  assumes "ranges_ok (unat bs) k rs" "\<And>b. in_ranges rs b \<Longrightarrow> Suc b * unat bs \<le> N" "N < 2 ^ 44" "paged bs"
  shows "\<forall>m \<in> set (createIdentityMapping bid rs bs). entry_in {bid} N m"
  using assms(1,2)
proof (induction rs arbitrary: k)
  case (Cons r rs)
  obtain s e where r: "r = (s, e)" by (cases r)
  from Cons.prems r have se: "unat s < unat e" and eB: "unat e * unat bs < 2 ^ 63"
    and ok: "ranges_ok (unat bs) (unat e) rs" by simp_all
  have eN: "unat e * unat bs \<le> N" by (rule ranges_run_end [OF _ se]) (use Cons.prems(2) r in blast)
  have so: "unat (BlockOffset (ucast s) bs) = unat s * unat bs"
    using se eB by (simp add: BlockOffset_def block_mult le_less_trans [OF mult_le_mono1, of _ "unat e"])
  have "paged (BlockOffset (ucast s) bs)" using assms(4) by (simp add: BlockOffset_def paged_mult)
  note e = run_entry_in [OF se eN assms(3) eq_refl [OF so] assms(4) this]
  have "\<forall>m \<in> set (createIdentityMapping bid rs bs). entry_in {bid} N m"
    using Cons.prems(2) by (intro Cons.IH [OF ok]) (auto simp: r)
  with e show ?case by (simp add: r createIdentityMapping_def Let_def)
qed (simp add: createIdentityMapping_def)

lemma rank_card: "ascending k rs \<Longrightarrow> rank rs b = card {x. in_ranges rs x \<and> x < b}"
proof (induction rs arbitrary: k)
  case (Cons r rs)
  obtain s e where r: "r = (s, e)" by (cases r)
  have a: "ascending (unat e) rs" "unat s < unat e" using Cons.prems r by auto
  have above: "in_ranges rs x \<Longrightarrow> unat e \<le> x" for x
    using a(1) by (induction rs arbitrary: e) (auto, force)
  have "{x. in_ranges (r # rs) x \<and> x < b} = {min b (unat s)..<min b (unat e)} \<union> {x. in_ranges rs x \<and> x < b}"
    by (auto simp: r)
  also have "card \<dots> = card {min b (unat s)..<min b (unat e)} + card {x. in_ranges rs x \<and> x < b}"
    using above by (intro card_Un_disjoint) (auto dest: above)
  finally show ?case using Cons.IH [OF a(1)] by (simp add: r)
qed simp

text \<open>A diff whose bitmaps hold the block numbers \<open>D\<close> (dirty) and \<open>E\<close> (empty), all inside a device of
  \<open>N\<close> bytes, with blocks of whole pages.\<close>

definition diff_in :: "('bm \<Rightarrow> ranges) \<Rightarrow> 'bm DiffMetadata \<Rightarrow> nat set \<Rightarrow> nat set \<Rightarrow> nat \<Rightarrow> bool" where
  "diff_in Ranges d D E N \<longleftrightarrow> is_runs (Ranges (dm_Dirty d)) D \<and> is_runs (Ranges (dm_Empty d)) E \<and>
     dm_BlockSize d \<noteq> 0 \<and> paged (dm_BlockSize d) \<and> (\<forall>b \<in> D \<union> E. Suc b * unat (dm_BlockSize d) \<le> N)"

lemma diff_in_ranges_ok:
  assumes "diff_in Ranges d D E N" and "N < 2 ^ 44"
  shows "ranges_ok (unat (dm_BlockSize d)) 0 (Ranges (dm_Dirty d))"
    and "ranges_ok (unat (dm_BlockSize d)) 0 (Ranges (dm_Empty d))"
    and "0 < unat (dm_BlockSize d)"
  using assms by (auto simp: diff_in_def is_runs_def unat_gt_0 intro!: ascending_ranges_ok [where N = N])

section \<open>The header of a snapshot\<close>

text \<open>The common end of \<open>ToDiffHeader\<close> and \<open>ToProvisionalDiffHeader\<close>: compose, pack and validate.\<close>

lemma diff_header_step:
  fixes h :: Header
  defines "N \<equiv> unat (md_Size (h_Metadata h))"
  assumes inv: "header_inv h" and o: "ordered_from 0 ds" and ds: "\<forall>e \<in> set ds. entry_in {bid, uuid_Nil} N e"
    and cap: "card (insert bid (header_builds h)) \<le> maxBuildsPerHeader"
  shows "\<exists>h'. newDiffHeader (NextGeneration (h_Metadata h) bid)
        (NormalizeMappings (MergeMappings (entries (h_Mapping h)) ds)) (h_Builds h) = Inr h' \<and>
      Validate (h_Mapping h') (md_Size (h_Metadata h')) PageSize = Some (Inr ()) \<and>
      header_inv h' \<and> h_Metadata h' = NextGeneration (h_Metadata h) bid \<and> h_IncompletePendingUpload h' \<and>
      header_builds h' \<subseteq> insert bid (header_builds h) \<and>
      (\<forall>p. device_resolve h' p = override (resolve ds p) (device_resolve h p)) \<and>
      (\<forall>b. lookup_build (h_Builds h') b = (if b \<in> header_builds h' then lookup_build (h_Builds h) b else None))"
proof -
  let ?m = "NormalizeMappings (MergeMappings (entries (h_Mapping h)) ds)"
  let ?md = "NextGeneration (h_Metadata h) bid"
  note c = compose_over [OF inv o ds [unfolded N_def], folded N_def]
  have N: "N < 2 ^ 44" "md_BlockSize (h_Metadata h) \<noteq> 0" "md_Size (h_Metadata h) \<noteq> 0"
    using inv by (auto simp: header_inv_def N_def)
  have md: "md_BlockSize ?md = md_BlockSize (h_Metadata h)" "md_Size ?md = md_Size (h_Metadata h)"
    by (simp_all add: NextGeneration_def)
  have sub: "BuildId ` set ?m - {uuid_Nil} \<subseteq> insert bid (header_builds h)"
    using c(3) by (auto simp: entry_in_def header_builds_def)
  moreover have "finite (insert bid (header_builds h))" by (simp add: header_builds_def)
  ultimately have card: "card (BuildId ` set ?m - {uuid_Nil}) \<le> maxBuildsPerHeader"
    using card_mono cap le_trans by blast
  have al: "\<forall>e \<in> set ?m. aligned PageSize e" using c(3) entry_in_aligned [OF _ N(1)] by blast
  have "md_BlockSize ?md \<noteq> 0" using N md by simp
  from newDiffHeader_ok [OF c(4) this al card] obtain h' where
    h': "newDiffHeader ?md ?m (h_Builds h) = Inr h'" "h_Metadata h' = ?md" "entries (h_Mapping h') = ?m"
      "mapping_wf (h_Mapping h')" "blockSize (h_Mapping h') = PageSize" "h_IncompletePendingUpload h'"
      "\<forall>b. lookup_build (h_Builds h') b = (if b \<in> header_builds h' then lookup_build (h_Builds h) b else None)"
    by blast
  have small: "small_blocks (h_Mapping h')" by (simp add: small_blocks_def h'(5) PageSize_def)
  have sz: "unat (md_Size ?md) < 2 ^ 63" using N md by (simp add: N_def)
  have "contiguous 0 (entries (h_Mapping h')) (unat (md_Size ?md))" using c(1) h'(3) md by (simp add: N_def)
  then have v: "Validate (h_Mapping h') (md_Size ?md) PageSize = Some (Inr ())"
    using Validate_iff [OF h'(4) small sz, of PageSize] h'(5) by (simp add: PageSize_def)
  have "\<forall>e \<in> set ?m. entry_in UNIV N e" using c(3) by (auto simp: entry_in_def)
  then have "header_inv h'"
    using c(1) h' N md sz by (simp add: header_inv_def header_wf_def N_def)
  with h' v sub c(2) show ?thesis by (auto simp: header_builds_def)
qed

text \<open>What every block of the snapshot reads: zeros, the diff file of the new build, or the parent.\<close>

definition snapshot_reads ::
  "nat set \<Rightarrow> nat set \<Rightarrow> nat \<Rightarrow> uuid \<Rightarrow> (nat \<Rightarrow> nat) \<Rightarrow> (nat \<Rightarrow> source option) \<Rightarrow> nat \<Rightarrow> source option" where
  "snapshot_reads D E bs bid place parent p =
     (if p div bs \<in> E then Some Zeros
      else if p div bs \<in> D then Some (FromBuild bid (place p))
      else parent p)"

lemma toDiffMapping_ok:
  assumes "diff_in Ranges d D E N" "N < 2 ^ 44" "bid \<noteq> uuid_Nil"
  shows "ordered_from 0 (toDiffMapping Ranges d bid) \<and>
    (\<forall>e \<in> set (toDiffMapping Ranges d bid). entry_in {bid, uuid_Nil} N e) \<and>
    resolve (toDiffMapping Ranges d bid) p = snapshot_reads D E (unat (dm_BlockSize d)) bid
      (\<lambda>p. card {b \<in> D. b < p div unat (dm_BlockSize d)} * unat (dm_BlockSize d) + p mod unat (dm_BlockSize d))
      (\<lambda>p. None) p"
proof -
  let ?bs = "dm_BlockSize d"
  let ?dirty = "CreateMapping bid (Ranges (dm_Dirty d)) ?bs" and ?empty = "CreateMapping uuid_Nil (Ranges (dm_Empty d)) ?bs"
  note ok = diff_in_ranges_ok [OF assms(1,2)]
  have runs: "in_ranges (Ranges (dm_Dirty d)) b \<longleftrightarrow> b \<in> D" "in_ranges (Ranges (dm_Empty d)) b \<longleftrightarrow> b \<in> E"
    and asc: "ascending 0 (Ranges (dm_Dirty d))" and pg: "paged ?bs" for b
    using assms(1) by (auto simp: diff_in_def is_runs_def)
  have rk: "rank (Ranges (dm_Dirty d)) b = card {x \<in> D. x < b}" for b
    using rank_card [OF asc, of b] by (simp add: runs)
  note cd = CreateMapping_ok [OF ok(1,3), of bid] and ce = CreateMapping_ok [OF ok(2,3), of uuid_Nil]
  have "Suc b * unat ?bs \<le> N" if "b \<in> D \<union> E" for b using assms(1) that by (simp add: diff_in_def)
  then have "\<forall>m \<in> set ?dirty. entry_in {bid} N m" "\<forall>m \<in> set ?empty. entry_in {uuid_Nil} N m"
    using CreateMapping_in [OF ok(1) _ assms(2) pg] CreateMapping_in [OF ok(2) _ assms(2) pg] by (simp_all add: runs)
  then have "\<forall>m \<in> set ?dirty \<union> set ?empty. entry_in {bid, uuid_Nil} N m" by (auto simp: entry_in_def)
  from bounded.MergeMappings_Q [OF _ _ this] MergeMappings_merges [of ?dirty ?empty] cd ce assms(3)
  show ?thesis
    by (simp add: toDiffMapping_def Let_def merges_def override_def snapshot_reads_def runs rk)
qed

lemma ToDiffHeader_ok:
  fixes h :: Header
  defines "N \<equiv> unat (md_Size (h_Metadata h))"
  assumes inv: "header_inv h" and d: "diff_in Ranges d D E N" and bid: "bid \<noteq> uuid_Nil"
    and cap: "card (insert bid (header_builds h)) \<le> maxBuildsPerHeader"
  shows "\<exists>h'. ToDiffHeader Ranges d h bid = Inr h' \<and> header_inv h' \<and>
      h_Metadata h' = NextGeneration (h_Metadata h) bid \<and> h_IncompletePendingUpload h' \<and>
      header_builds h' \<subseteq> insert bid (header_builds h) \<and>
      (\<forall>b. lookup_build (h_Builds h') b = (if b \<in> header_builds h' then lookup_build (h_Builds h) b else None)) \<and>
      (\<forall>p. device_resolve h' p = snapshot_reads D E (unat (dm_BlockSize d)) bid
        (\<lambda>p. card {b \<in> D. b < p div unat (dm_BlockSize d)} * unat (dm_BlockSize d) + p mod unat (dm_BlockSize d))
        (device_resolve h) p)"
proof -
  have N: "N < 2 ^ 44" and wf: "mapping_wf (h_Mapping h)" using inv by (auto simp: header_inv_def header_wf_def N_def)
  note t = toDiffMapping_ok [OF d N bid]
  from diff_header_step [OF inv conjunct1 [OF t] _ cap] t show ?thesis
    by (auto simp: ToDiffHeader_def Slice_wf [OF wf] snapshot_reads_def N_def Let_def)
qed

text \<open>A bitmap implementation that meets the laws: sets of \<open>uint32\<close> with their runs.\<close>

fun runs_of :: "nat list \<Rightarrow> ranges" where
  "runs_of [] = []"
| "runs_of (x # xs) =
     (case runs_of xs of
        [] \<Rightarrow> [(word_of_nat x, word_of_nat (Suc x))]
      | (s, e) # rs \<Rightarrow>
          if unat s = Suc x then (word_of_nat x, e) # rs
          else (word_of_nat x, word_of_nat (Suc x)) # (s, e) # rs)"

definition set_ranges :: "u32 set \<Rightarrow> ranges" where
  "set_ranges S = runs_of (sorted_list_of_set (unat ` S))"

lemma runs_of_ok:
  "sorted_wrt (<) xs \<Longrightarrow> \<forall>x \<in> set xs. k \<le> x \<and> x < 2 ^ 32 \<Longrightarrow>
   ascending k (runs_of xs) \<and> (\<forall>b. in_ranges (runs_of xs) b \<longleftrightarrow> b \<in> set xs)"
proof (induction xs arbitrary: k)
  case (Cons x xs)
  have x: "unat (word_of_nat x :: u32) = x" "unat (word_of_nat (Suc x) :: u64) = Suc x"
    using Cons.prems(2) by (simp_all add: unat_of_nat take_bit_nat_eq_self del: of_nat_Suc)
  have IH: "ascending (Suc x) (runs_of xs)" "\<And>b. in_ranges (runs_of xs) b \<longleftrightarrow> b \<in> set xs"
    using Cons.IH [of "Suc x"] Cons.prems by (simp_all add: Suc_le_eq)
  show ?case
  proof (cases "runs_of xs")
    case Nil
    then have "xs = []" using IH(2) by (cases xs) auto
    with Cons.prems x show ?thesis by auto
  next
    case (Cons r rs)
    obtain s e where r: "r = (s, e)" by (cases r)
    have in_xs: "b \<in> set xs \<longleftrightarrow> unat s \<le> b \<and> b < unat e \<or> in_ranges rs b" for b
      using IH(2) [of b] Cons r by simp
    show ?thesis using IH(1) Cons r x \<open>\<forall>y \<in> set (x # xs). k \<le> y \<and> y < 2 ^ 32\<close> by (auto simp: in_xs)
  qed
qed simp

lemma set_ranges_runs: "is_runs (set_ranges S) (unat ` S)"
proof -
  have fin: "finite (unat ` S)" by simp
  have "\<forall>x \<in> set (sorted_list_of_set (unat ` S)). 0 \<le> x \<and> x < 2 ^ 32"
    using unsigned_less [where 'b = 32 and 'a = nat] by auto
  from runs_of_ok [OF strict_sorted_list_of_set this] show ?thesis
    using fin by (simp add: is_runs_def set_ranges_def)
qed

text \<open>
  C21. Taking a snapshot header: from a header that satisfies the invariant and a diff inside the
  device, \<open>ToDiffHeader\<close> succeeds, and the new header satisfies the invariant again, is the next
  generation of the same device, is flagged incomplete, and keeps the parent's build data for
  exactly the builds it still refers to. Every byte of an empty block reads as zero, every byte of
  a dirty block is found in the new build at (number of dirty blocks before it) times the block
  size plus its offset in the block, and every other byte resolves as in the parent.
\<close>

theorem ToDiffHeader_correct:
  fixes h :: Header
  defines "N \<equiv> unat (md_Size (h_Metadata h))"
  assumes inv: "header_inv h" and d: "diff_in Ranges d D E N" and bid: "bid \<noteq> uuid_Nil"
    and cap: "card (insert bid (header_builds h)) \<le> maxBuildsPerHeader"
  shows "\<exists>h'. ToDiffHeader Ranges d h bid = Inr h' \<and> header_inv h' \<and>
      h_Metadata h' = NextGeneration (h_Metadata h) bid \<and> h_IncompletePendingUpload h' \<and>
      header_builds h' \<subseteq> insert bid (header_builds h) \<and>
      (\<forall>b. lookup_build (h_Builds h') b = (if b \<in> header_builds h' then lookup_build (h_Builds h) b else None)) \<and>
      (\<forall>p. device_resolve h' p = snapshot_reads D E (unat (dm_BlockSize d)) bid
        (\<lambda>p. card {b \<in> D. b < p div unat (dm_BlockSize d)} * unat (dm_BlockSize d) + p mod unat (dm_BlockSize d))
        (device_resolve h) p)"
  using ToDiffHeader_ok assms by blast

lemma sample_header_inv: "header_inv sample_header" "header_builds sample_header = {7}"
  "md_Size (h_Metadata sample_header) = 12288"
proof -
  have "contiguous 0 (entries (h_Mapping sample_header)) 12288"
    by (simp add: sample_entries mstart_def mend_def bm_ok_def)
  then show "header_inv sample_header"
    by (simp add: header_inv_def header_wf_def sample_entries entry_in_def mstart_def mend_def)
      (simp add: sample_header_def mapping_wf_def nilBuildIdx_def PageSize_def NewTemplateMetadata_def)
  show "header_builds sample_header = {7}" by (auto simp: header_builds_def sample_entries)
  show "md_Size (h_Metadata sample_header) = 12288" by (simp add: sample_header_def NewTemplateMetadata_def)
qed

lemma sample_diff_in:
  "diff_in set_ranges \<lparr>dm_Dirty = {0}, dm_Empty = {1}, dm_BlockSize = 4096\<rparr> {0} {1} 12288"
  using set_ranges_runs [of "{0}"] set_ranges_runs [of "{1}"] by (simp add: diff_in_def)

theorem ToDiffHeader_correct_witness:
  "header_inv sample_header \<and>
   diff_in set_ranges \<lparr>dm_Dirty = {0}, dm_Empty = {1}, dm_BlockSize = 4096\<rparr> {0} {1} 12288 \<and>
   (\<exists>h'. ToDiffHeader set_ranges \<lparr>dm_Dirty = {0}, dm_Empty = {1}, dm_BlockSize = 4096\<rparr> sample_header 9 = Inr h' \<and>
     header_inv h' \<and> device_resolve h' 100 = Some (FromBuild 9 100) \<and> device_resolve h' 5000 = Some Zeros)"
proof -
  have d: "diff_in set_ranges \<lparr>dm_Dirty = {0}, dm_Empty = {1}, dm_BlockSize = 4096\<rparr> {0} {1}
      (unat (md_Size (h_Metadata sample_header)))"
    using sample_diff_in by (simp add: sample_header_inv(3))
  have "card (insert 9 (header_builds sample_header)) \<le> maxBuildsPerHeader"
    by (simp add: sample_header_inv(2) maxBuildsPerHeader_def nilBuildIdx_def)
  from ToDiffHeader_correct [OF sample_header_inv(1) d _ this] sample_header_inv(1) sample_diff_in
  show ?thesis by (auto simp: snapshot_reads_def)
qed

text \<open>
  C36. The provisional header of a paused sandbox: under the same conditions
  \<open>ToProvisionalDiffHeader\<close> succeeds, keeps the invariant, and reads zeros in the empty blocks,
  the new build at the very device offset in the dirty blocks (so the unpacked memory image serves
  it), and the parent elsewhere.
\<close>

theorem ToProvisionalDiffHeader_correct:
  fixes h :: Header
  defines "N \<equiv> unat (md_Size (h_Metadata h))"
  assumes inv: "header_inv h" and d: "diff_in Ranges d D E N" and bid: "bid \<noteq> uuid_Nil"
    and cap: "card (insert bid (header_builds h)) \<le> maxBuildsPerHeader"
  shows "\<exists>h'. ToProvisionalDiffHeader Ranges d h bid = Inr h' \<and> header_inv h' \<and>
      h_Metadata h' = NextGeneration (h_Metadata h) bid \<and> h_IncompletePendingUpload h' \<and>
      (\<forall>p. device_resolve h' p =
        snapshot_reads D E (unat (dm_BlockSize d)) bid (\<lambda>p. p) (device_resolve h) p)"
proof -
  let ?bs = "dm_BlockSize d"
  let ?dirty = "createIdentityMapping bid (Ranges (dm_Dirty d)) ?bs" and ?empty = "CreateMapping uuid_Nil (Ranges (dm_Empty d)) ?bs"
  have N: "N < 2 ^ 44" and wf: "mapping_wf (h_Mapping h)" using inv by (auto simp: header_inv_def header_wf_def N_def)
  note ok = diff_in_ranges_ok [OF d N]
  have runs: "in_ranges (Ranges (dm_Dirty d)) b \<longleftrightarrow> b \<in> D" "in_ranges (Ranges (dm_Empty d)) b \<longleftrightarrow> b \<in> E"
    and pg: "paged ?bs" for b
    using d by (auto simp: diff_in_def is_runs_def)
  note cd = createIdentityMapping_correct [OF ok(1,3) bid] and ce = CreateMapping_ok [OF ok(2,3), of uuid_Nil]
  have "Suc b * unat ?bs \<le> N" if "b \<in> D \<union> E" for b using d that by (simp add: diff_in_def)
  then have "\<forall>m \<in> set ?dirty. entry_in {bid} N m" "\<forall>m \<in> set ?empty. entry_in {uuid_Nil} N m"
    using createIdentityMapping_in [OF ok(1) _ N pg] CreateMapping_in [OF ok(2) _ N pg] by (simp_all add: runs)
  then have "\<forall>m \<in> set ?dirty \<union> set ?empty. entry_in {bid, uuid_Nil} N m" by (auto simp: entry_in_def)
  from bounded.MergeMappings_Q [OF _ _ this] MergeMappings_merges [of ?dirty ?empty] cd ce
  have m: "ordered_from 0 (MergeMappings ?dirty ?empty)"
    "\<forall>e \<in> set (MergeMappings ?dirty ?empty). entry_in {bid, uuid_Nil} N e"
    "\<And>p. resolve (MergeMappings ?dirty ?empty) p = snapshot_reads D E (unat ?bs) bid (\<lambda>p. p) (\<lambda>p. None) p"
    by (simp_all add: merges_def override_def snapshot_reads_def runs)
  from diff_header_step [OF inv m(1) _ cap] m(2,3) show ?thesis
    by (auto simp: ToProvisionalDiffHeader_def Slice_wf [OF wf] snapshot_reads_def N_def Let_def)
qed

theorem ToProvisionalDiffHeader_correct_witness:
  "header_inv sample_header \<and>
   diff_in set_ranges \<lparr>dm_Dirty = {0}, dm_Empty = {1}, dm_BlockSize = 4096\<rparr> {0} {1} 12288 \<and>
   (\<exists>h'. ToProvisionalDiffHeader set_ranges \<lparr>dm_Dirty = {0}, dm_Empty = {1}, dm_BlockSize = 4096\<rparr> sample_header 9 = Inr h' \<and>
     header_inv h' \<and> device_resolve h' 100 = Some (FromBuild 9 100))"
proof -
  have d: "diff_in set_ranges \<lparr>dm_Dirty = {0}, dm_Empty = {1}, dm_BlockSize = 4096\<rparr> {0} {1}
      (unat (md_Size (h_Metadata sample_header)))"
    using sample_diff_in by (simp add: sample_header_inv(3))
  have "card (insert 9 (header_builds sample_header)) \<le> maxBuildsPerHeader"
    by (simp add: sample_header_inv(2) maxBuildsPerHeader_def nilBuildIdx_def)
  from ToProvisionalDiffHeader_correct [OF sample_header_inv(1) d _ this] sample_header_inv(1) sample_diff_in
  show ?thesis by (auto simp: snapshot_reads_def)
qed

section \<open>Resizing\<close>

lemma newDiffHeader_wf:
  "newDiffHeader md m src = Inr h \<Longrightarrow>
   mapping_wf (h_Mapping h) \<and> blockSize (h_Mapping h) = PageSize \<and> h_Metadata h = md"
  by (auto simp: newDiffHeader_def NewHeader_def bind_res_def Let_def dest: NewMapping_wf NewMapping_builds(4)
      split: sum.splits if_splits option.splits)

lemma validated_eq_Inr:
  "(case v of None \<Rightarrow> Inl x | Some (Inl e) \<Rightarrow> f e | Some (Inr u) \<Rightarrow> Inr y) = Inr z \<longleftrightarrow>
   (\<exists>e. v = Some (Inl e) \<and> f e = Inr z) \<or> (\<exists>u. v = Some (Inr u)) \<and> y = z"
  by (auto split: option.split sum.split)

lemma ToDiffHeader_result:
  assumes "ToDiffHeader Ranges d h bid = Inr h'"
  shows "mapping_wf (h_Mapping h') \<and>
    blockSize (h_Mapping h') = PageSize \<and> h_Metadata h' = NextGeneration (h_Metadata h) bid"
proof (cases "Slice (h_Mapping h)")
  case (Some base)
  with assms show ?thesis
    by (auto simp: ToDiffHeader_def bind_res_eq_Inr Let_def validated_eq_Inr dest!: newDiffHeader_wf
        split: if_split_asm)
qed (use assms in \<open>simp add: ToDiffHeader_def\<close>)

text \<open>
  C37. \<open>ToResizedDiffHeader\<close> is strict: whatever the original header, its version and the diff are,
  a header that it returns has the requested size and a mapping that covers exactly that size
  without gap or overlap; a diff that does not reach the new end is refused.
\<close>

theorem ToResizedDiffHeader_covers:
  assumes "ToResizedDiffHeader Ranges d h bid newSize = Inr h'" and "unat newSize < 2 ^ 63"
  shows "md_Size (h_Metadata h') = newSize \<and> md_BuildId (h_Metadata h') = bid \<and> header_wf h'"
proof -
  let ?h = "h\<lparr>h_Metadata := (h_Metadata h)\<lparr>md_Size := newSize\<rparr>\<rparr>"
  have d: "ToDiffHeader Ranges d ?h bid = Inr h'"
    and v: "Validate (h_Mapping h') (md_Size (h_Metadata h')) PageSize = Some (Inr ())"
    using assms(1) by (auto simp: ToResizedDiffHeader_def bind_res_eq_Inr Let_def validated_eq_Inr)
  note r = ToDiffHeader_result [OF d]
  have "small_blocks (h_Mapping h')" using r by (simp add: small_blocks_def PageSize_def)
  from Validate_iff [OF _ this, of newSize PageSize] v r assms(2) show ?thesis
    by (simp add: NextGeneration_def header_wf_def PageSize_def)
qed

theorem ToResizedDiffHeader_covers_witness:
  "\<exists>h'. ToResizedDiffHeader set_ranges \<lparr>dm_Dirty = {0}, dm_Empty = {1}, dm_BlockSize = 4096\<rparr> sample_header 9 12288 = Inr h' \<and>
     unat (12288 :: u64) < 2 ^ 63 \<and> md_Size (h_Metadata h') = 12288 \<and> header_wf h'"
proof -
  let ?d = "\<lparr>dm_Dirty = {0}, dm_Empty = {1}, dm_BlockSize = 4096\<rparr>"
  have d: "diff_in set_ranges ?d {0} {1} (unat (md_Size (h_Metadata sample_header)))"
    using sample_diff_in by (simp add: sample_header_inv(3))
  have "card (insert 9 (header_builds sample_header)) \<le> maxBuildsPerHeader"
    by (simp add: sample_header_inv(2) maxBuildsPerHeader_def nilBuildIdx_def)
  from ToDiffHeader_ok [OF sample_header_inv(1) d _ this] obtain h' where
    h': "ToDiffHeader set_ranges ?d sample_header 9 = Inr h'" "header_inv h'" by auto
  have "sample_header\<lparr>h_Metadata := (h_Metadata sample_header)\<lparr>md_Size := 12288\<rparr>\<rparr> = sample_header"
    by (simp add: sample_header_def NewTemplateMetadata_def)
  moreover have "Validate (h_Mapping h') (md_Size (h_Metadata h')) PageSize = Some (Inr ())"
    using h'(2) Validate_iff [OF _ header_wf_small, of h' "md_Size (h_Metadata h')" PageSize]
    by (simp add: header_inv_def header_wf_def PageSize_def)
  ultimately have "ToResizedDiffHeader set_ranges ?d sample_header 9 12288 = Inr h'"
    using h'(1) by (simp add: ToResizedDiffHeader_def)
  with ToResizedDiffHeader_covers [OF this] show ?thesis by simp
qed

end
