(* ===== verification/Export_Diff.thy ===== *)
theory Export_Diff
  imports Diff_Header
begin

text \<open>
  The export of a rootfs (\<open>exportToDiff\<close> of
  \<open>packages/orchestrator/pkg/sandbox/rootfs/direct.go\<close>): read the file block by block, hand every
  block to the diff builder of \<open>metadata.go\<close>, and so write the non-zero blocks, packed, to the diff
  file. The end of the theory joins it to \<open>ToDiffHeader\<close>: the snapshot reads back the exported file.
\<close>

section \<open>exportToDiff\<close>

text \<open>The results of \<open>o.sync\<close> and \<open>os.Open\<close> are parameters (\<open>None\<close>: no error); the opened file is its
  bytes. \<open>ReadAt\<close> fails for a negative offset and when fewer bytes are left than asked for.
  \<open>make\<close> panics on a negative block size, and \<open>BlockIdx\<close> divides by a zero one.\<close>

datatype ('s, 'e) export_error = SyncError 's | OpenError 's | ReadError | ProcessError "'e process_error" | ExportPanic

definition ReadAt :: "byte list \<Rightarrow> i64 \<Rightarrow> i64 \<Rightarrow> byte list option" where
  "ReadAt f n off =
     (if sint off < 0 \<or> sint off + sint n > int (length f) then None
      else Some (take (nat (sint n)) (drop (nat (sint off)) f)))"

function export_loop ::
  "(u32 \<Rightarrow> 'bm \<Rightarrow> 'bm) \<Rightarrow> ('w \<Rightarrow> byte list \<Rightarrow> 'w \<times> i64 \<times> 'e option) \<Rightarrow> byte list \<Rightarrow> i64 \<Rightarrow> i64 \<Rightarrow> i64 \<Rightarrow>
   'bm DiffMetadataBuilder \<Rightarrow> 'w \<Rightarrow> ('s, 'e) export_error + 'bm DiffMetadataBuilder \<times> 'w" where
  "export_loop bm_Add wr f blkSize sz i builder out =
     (if sint i < sint sz then
        if sint blkSize \<le> 0 then Inl ExportPanic
        else case ReadAt f blkSize i of
          None \<Rightarrow> Inl ReadError
        | Some block \<Rightarrow>
            (case Process bm_Add wr builder block out i of
               (builder', out', Some e) \<Rightarrow> Inl (ProcessError e)
             | (builder', out', None) \<Rightarrow>
                 export_loop bm_Add wr f blkSize sz (i + blkSize) builder' out')
      else Inr (builder, out))"
  by pat_completeness auto

lemma sint_add_cases:
  assumes "0 \<le> sint (a :: i64)" and "0 < sint b"
  shows "sint (a + b) < 0 \<or> sint (a + b) = sint a + sint b"
proof (cases "sint a + sint b < 2 ^ 63")
  case True
  then show ?thesis using assms by (simp add: sint_add_i64)
next
  case False
  have ab: "unat a < 2 ^ 63" "unat b < 2 ^ 63"
    using assms sint_neg_u64 [of a] sint_neg_u64 [of b] by (meson not_le not_less_iff_gr_or_eq order.strict_trans1)+
  then have "unat (a + b) = unat a + unat b" by (intro unat_add_u64) simp
  then have "2 ^ 63 \<le> unat (a + b)" using False ab by (simp add: sint_small_u64)
  then show ?thesis using sint_neg_u64 by blast
qed

termination export_loop
proof (relation "measure (\<lambda>(_, _, _, _, _, i, _). if sint i < 0 then 0 else Suc (nat (2 ^ 63 - sint i)))",
    goal_cases)
  case (2 bm_Add wr f blkSize sz i builder out)
  then have "0 \<le> sint i" "0 < sint blkSize" by (auto simp: ReadAt_def split: if_splits)
  with sint_add_cases [OF this] sint_less [of i] show ?case by auto
qed simp

declare export_loop.simps [simp del]

definition exportToDiff ::
  "'bm \<Rightarrow> (u32 \<Rightarrow> 'bm \<Rightarrow> 'bm) \<Rightarrow> ('w \<Rightarrow> byte list \<Rightarrow> 'w \<times> i64 \<times> 'e option) \<Rightarrow> 's option \<Rightarrow> 's + byte list \<Rightarrow>
   i64 \<Rightarrow> Header \<Rightarrow> 'w \<Rightarrow> ('s, 'e) export_error + 'bm DiffMetadata \<times> 'w" where
  "exportToDiff bm_New bm_Add wr syncErr opened blkSize header out =
     (case syncErr of
        Some e \<Rightarrow> Inl (SyncError e)
      | None \<Rightarrow>
          let builder = NewDiffMetadataBuilder bm_New blkSize in
          case opened of
            Inl e \<Rightarrow> Inl (OpenError e)
          | Inr f \<Rightarrow>
              if sint blkSize < 0 then Inl ExportPanic
              else map_sum id (map_prod Build id)
                (export_loop bm_Add wr f blkSize (md_Size (h_Metadata header)) 0 builder out))"

section \<open>What the export writes\<close>

text \<open>The laws of the bitmaps, over their sets of members, and of a writer that takes every block, over
  the bytes it holds.\<close>

definition bitmap_laws ::
  "'bm \<Rightarrow> (u32 \<Rightarrow> 'bm \<Rightarrow> 'bm) \<Rightarrow> ('bm \<Rightarrow> ranges) \<Rightarrow> ('bm \<Rightarrow> nat set) \<Rightarrow> bool" where
  "bitmap_laws bm_New bm_Add Ranges mem \<longleftrightarrow> mem bm_New = {} \<and>
     (\<forall>w b. mem (bm_Add w b) = insert (unat w) (mem b)) \<and> (\<forall>b. is_runs (Ranges b) (mem b))"

definition writer_ok :: "('w \<Rightarrow> byte list \<Rightarrow> 'w \<times> i64 \<times> 'e option) \<Rightarrow> ('w \<Rightarrow> byte list) \<Rightarrow> bool" where
  "writer_ok wr content \<longleftrightarrow>
     (\<forall>w b. \<exists>w'. wr w b = (w', word_of_nat (length b), None) \<and> content w' = content w @ b)"

definition blk :: "byte list \<Rightarrow> nat \<Rightarrow> nat \<Rightarrow> byte list" where
  "blk f B b = take B (drop (b * B) f)"

definition exported ::
  "('bm \<Rightarrow> nat set) \<Rightarrow> ('w \<Rightarrow> byte list) \<Rightarrow> byte list \<Rightarrow> i64 \<Rightarrow> nat \<Rightarrow> 'bm DiffMetadataBuilder \<Rightarrow> 'w \<Rightarrow> bool" where
  "exported mem content f bs k b out \<longleftrightarrow> dmb_blockSize b = bs \<and>
     mem (dmb_dirty b) = {x. x < k \<and> \<not> IsZero (blk f (unat bs) x)} \<and>
     mem (dmb_empty b) = {x. x < k \<and> IsZero (blk f (unat bs) x)} \<and>
     content out = concat (map (blk f (unat bs)) (filter (\<lambda>x. \<not> IsZero (blk f (unat bs) x)) [0..<k]))"

lemma Process_exports:
  assumes laws: "bitmap_laws bm_New bm_Add Ranges mem" and wr: "writer_ok wr content"
    and k: "unat off = k * unat bs" "unat off < 2 ^ 44" "4096 \<le> unat bs" "unat bs < 2 ^ 44"
    and len: "length (blk f (unat bs) k) = unat bs"
    and inv: "exported mem content f bs k b out"
  shows "\<exists>b' out'. Process bm_Add wr b (blk f (unat bs) k) out off = (b', out', None) \<and>
    exported mem content f bs (Suc k) b' out'"
proof -
  have "k * 4096 \<le> k * unat bs" using k(3) by (rule mult_le_mono2)
  then have "k * 4096 < 2 ^ 44" using k(1,2) by linarith
  then have k32: "k < 2 ^ 32" by simp
  have "unat (BlockIdx off bs) = k" using k by (simp add: BlockIdx_def i64_div_nonneg)
  then have idx: "unat (ucast (BlockIdx off bs) :: u32) = k" using k32 by (simp add: unat_ucast_u64_u32)
  have bs: "dmb_blockSize b = bs" using inv by (simp add: exported_def)
  obtain w' where w': "wr out (blk f (unat bs) k) = (w', bs, None)"
    "content w' = content out @ blk f (unat bs) k"
    using wr len unfolding writer_ok_def by (metis word_of_nat_unat)
  have add: "mem (bm_Add w x) = insert (unat w) (mem x)" for w x using laws by (simp add: bitmap_laws_def)
  show ?thesis
    using inv idx w' bs
    by (cases "IsZero (blk f (unat bs) k)") (auto simp: Process_def Let_def exported_def add less_Suc_eq)
qed

lemma export_loop_exports:
  assumes laws: "bitmap_laws bm_New bm_Add Ranges mem" and wr: "writer_ok wr content"
    and N: "n * unat bs = length f" "unat sz = length f" "length f < 2 ^ 44" "4096 \<le> unat bs" "unat bs < 2 ^ 44"
    and "k \<le> n" "exported mem content f bs k b out" "unat i = k * unat bs"
  shows "\<exists>b' out'. export_loop bm_Add wr f bs sz i b out = Inr (b', out') \<and>
    exported mem content f bs n b' out'"
  using assms(8-)
proof (induction "n - k" arbitrary: k b out i)
  case 0
  then have "sint i = sint sz" using N by (simp add: sint_small_u64)
  then show ?case using 0 by (simp add: export_loop.simps)
next
  case (Suc j)
  then have kn: "Suc k * unat bs \<le> length f" using N(1) by (metis Suc_leI mult_le_mono1 zero_less_Suc zero_less_diff)
  have i: "unat i < 2 ^ 44" "sint i = int (k * unat bs)" "sint bs = int (unat bs)" "sint sz = int (length f)"
    using Suc.prems(3) kn N by (auto simp: sint_small_u64)
  have "k * unat bs < length f" using kn N(4) by simp
  then have lt: "sint i < sint sz" "0 < sint bs" using i N(4) by (simp_all del: of_nat_mult)
  have rd: "ReadAt f bs i = Some (blk f (unat bs) k)"
    unfolding ReadAt_def blk_def i(2,3) using kn by (simp add: add.commute del: of_nat_mult flip: of_nat_add)
  have len: "length (blk f (unat bs) k) = unat bs" using kn by (simp add: blk_def)
  from Process_exports [OF laws wr Suc.prems(3) i(1) N(4,5) len Suc.prems(2)] obtain b1 out1 where
    p: "Process bm_Add wr b (blk f (unat bs) k) out i = (b1, out1, None)"
      "exported mem content f bs (Suc k) b1 out1" by blast
  have i': "unat (i + bs) = Suc k * unat bs" using Suc.prems(3) i(1) N(5) by (simp add: unat_add_u64)
  have "j = n - Suc k" "Suc k \<le> n" using Suc.hyps(2) by simp_all
  from Suc.hyps(1) [OF this p(2) i'] show ?case
    using lt rd p(1) by (simp add: export_loop.simps [of _ _ _ _ _ i])
qed

lemma exportToDiff_ok:
  fixes wr :: "'w \<Rightarrow> byte list \<Rightarrow> 'w \<times> i64 \<times> 'e option"
  assumes laws: "bitmap_laws bm_New bm_Add Ranges mem" and wr: "writer_ok wr content" and "content out = []"
    and N: "n * unat bs = length f" "unat (md_Size (h_Metadata h)) = length f" "length f < 2 ^ 44"
      "4096 \<le> unat bs" "unat bs < 2 ^ 44"
  shows "\<exists>d out'. (exportToDiff bm_New bm_Add wr None (Inr f) bs h out :: ('s, 'e) export_error + _) = Inr (d, out') \<and> dm_BlockSize d = bs \<and>
    mem (dm_Dirty d) = {x. x < n \<and> \<not> IsZero (blk f (unat bs) x)} \<and>
    mem (dm_Empty d) = {x. x < n \<and> IsZero (blk f (unat bs) x)} \<and>
    content out' = concat (map (blk f (unat bs)) (filter (\<lambda>x. \<not> IsZero (blk f (unat bs) x)) [0..<n]))"
proof -
  have "exported mem content f bs 0 (NewDiffMetadataBuilder bm_New bs) out"
    using laws assms(3) by (simp add: exported_def NewDiffMetadataBuilder_def bitmap_laws_def)
  from export_loop_exports [OF laws wr N _ this, of 0] obtain b' out' where
    "(export_loop bm_Add wr f bs (md_Size (h_Metadata h)) 0 (NewDiffMetadataBuilder bm_New bs) out
      :: ('s, 'e) export_error + _) = Inr (b', out')" "exported mem content f bs n b' out'" by auto
  then show ?thesis using N(5) by (auto simp: exportToDiff_def sint_small_u64 exported_def Build_def)
qed

section \<open>Reading a snapshot back\<close>

lemma concat_nth_equal:
  assumes "\<forall>x \<in> set xss. length x = B" "i < length xss" "j < B"
  shows "concat xss ! (i * B + j) = xss ! i ! j \<and> i * B + j < length (concat xss)"
  using assms
proof (induction xss arbitrary: i)
  case (Cons x xss)
  then show ?case by (cases i) (auto simp: nth_append add.assoc)
qed simp

lemma filter_upt_rank:
  assumes "k < n" "P k"
  shows "card {x. x < n \<and> P x \<and> x < k} < length (filter P [0..<n]) \<and>
    filter P [0..<n] ! card {x. x < n \<and> P x \<and> x < k} = k"
proof -
  have split: "[0..<n] = [0..<k] @ k # [Suc k..<n]"
    using assms(1) by (metis upt_add_eq_append le_add_diff_inverse less_imp_le upt_conv_Cons zero_le)
  have "{x. x < n \<and> P x \<and> x < k} = set (filter P [0..<k])" using assms(1) by auto
  then have "card {x. x < n \<and> P x \<and> x < k} = length (filter P [0..<k])"
    by (simp only: distinct_card distinct_filter distinct_upt)
  then show ?thesis unfolding split using assms(2) by (simp add: nth_append)
qed

text \<open>The byte behind a source, for a snapshot whose own diff file has the bytes \<open>own\<close>.\<close>

definition read_own :: "uuid \<Rightarrow> byte list \<Rightarrow> source option \<Rightarrow> byte option" where
  "read_own bid own s =
     (case s of
        Some Zeros \<Rightarrow> Some 0
      | Some (FromBuild b off) \<Rightarrow> if b = bid \<and> off < length own then Some (own ! off) else None
      | None \<Rightarrow> None)"

lemma blk_nth: "p < length f \<Longrightarrow> 0 < B \<Longrightarrow> blk f B (p div B) ! (p mod B) = f ! p"
proof -
  assume p: "p < length f" and B: "0 < B"
  have "p div B * B \<le> length f" using p div_mult_mod_eq [of p B] by linarith
  then show ?thesis using B by (simp add: blk_def)
qed

lemma packed_byte:
  assumes n: "n * B = length f" "0 < B" and p: "p < length f" and P: "P (p div B)"
  defines "own \<equiv> concat (map (blk f B) (filter P [0..<n]))"
    and "off \<equiv> card {x. x < n \<and> P x \<and> x < p div B} * B + p mod B"
  shows "off < length own \<and> own ! off = f ! p"
proof -
  have pn: "p div B < n" using p n by (metis div_less_iff_less_mult)
  have "length (blk f B x) = B" if "x < n" for x
  proof -
    have "Suc x * B \<le> n * B" using that by (intro mult_le_mono1) simp
    then show ?thesis using n(1) by (simp add: blk_def)
  qed
  then have "\<forall>x \<in> set (map (blk f B) (filter P [0..<n])). length x = B" by auto
  from concat_nth_equal [OF this, of "card {x. x < n \<and> P x \<and> x < p div B}" "p mod B"]
    filter_upt_rank [of "p div B" n P, OF pn P] n(2) show ?thesis
    by (simp add: own_def off_def blk_nth [OF p n(2)])
qed

text \<open>
  C1. A snapshot reads back what was exported: export a rootfs file that fills the device of a
  header satisfying the invariant, to a writer that accepts every write, and make the snapshot header
  from the resulting diff. Both succeed, and every byte of the device, resolved through the new
  header to zeros or to the diff file just written, is the byte of the exported file; the parent's
  builds are no longer needed.
\<close>

theorem export_snapshot_reads_back:
  fixes wr :: "'w \<Rightarrow> byte list \<Rightarrow> 'w \<times> i64 \<times> 'e option"
  assumes laws: "bitmap_laws bm_New bm_Add Ranges mem" and wr: "writer_ok wr content" and out: "content out = []"
    and inv: "header_inv h" and f: "length f = unat (md_Size (h_Metadata h))"
    and bs: "paged bs" "4096 \<le> unat bs" "unat bs dvd length f" "unat bs < 2 ^ 44"
    and bid: "bid \<noteq> uuid_Nil" and cap: "card (insert bid (header_builds h)) \<le> maxBuildsPerHeader"
  shows "\<exists>d out' h'. (exportToDiff bm_New bm_Add wr None (Inr f) bs h out :: ('s, 'e) export_error + _) = Inr (d, out') \<and>
    ToDiffHeader Ranges d h bid = Inr h' \<and> header_inv h' \<and>
    (\<forall>p < length f. read_own bid (content out') (device_resolve h' p) = Some (f ! p))"
proof -
  let ?B = "unat bs" let ?nz = "\<lambda>x. \<not> IsZero (blk f ?B x)"
  obtain n where n: "n * ?B = length f" using bs(3) by (metis dvd_div_mult_self)
  have N: "length f < 2 ^ 44" using inv f by (simp add: header_inv_def)
  from exportToDiff_ok [OF laws wr out n _ N bs(2,4), of h] f obtain d out' where
    e: "(exportToDiff bm_New bm_Add wr None (Inr f) bs h out :: ('s, 'e) export_error + _) = Inr (d, out')" "dm_BlockSize d = bs"
      "mem (dm_Dirty d) = {x. x < n \<and> ?nz x}" "mem (dm_Empty d) = {x. x < n \<and> \<not> ?nz x}"
      "content out' = concat (map (blk f ?B) (filter ?nz [0..<n]))" by auto
  have runs: "is_runs (Ranges b) (mem b)" for b using laws by (simp add: bitmap_laws_def)
  have "Suc b * ?B \<le> length f" if "b < n" for b
    using that n by (metis Suc_leI mult_le_mono1)
  then have d: "diff_in Ranges d (mem (dm_Dirty d)) (mem (dm_Empty d)) (unat (md_Size (h_Metadata h)))"
    unfolding diff_in_def using runs bs(1,2) f by (auto simp: e(2)) (auto simp: e(3,4))
  from ToDiffHeader_ok [OF inv d bid cap] obtain h' where
    h': "ToDiffHeader Ranges d h bid = Inr h'" "header_inv h'"
      "\<And>p. device_resolve h' p = snapshot_reads (mem (dm_Dirty d)) (mem (dm_Empty d)) ?B bid
        (\<lambda>p. card {b \<in> mem (dm_Dirty d). b < p div ?B} * ?B + p mod ?B) (device_resolve h) p"
    by (auto simp: e(2))
  have "read_own bid (content out') (device_resolve h' p) = Some (f ! p)" if p: "p < length f" for p
  proof -
    have pn: "p div ?B < n" using p n bs(2) by (metis div_less_iff_less_mult less_le_trans zero_less_numeral)
    show ?thesis
    proof (cases "?nz (p div ?B)")
      case True
      have B: "0 < ?B" using bs(2) by simp
      show ?thesis
        using pn True packed_byte [OF n B p, of ?nz, OF True]
        by (simp add: h'(3) snapshot_reads_def e(3-5) read_own_def conj_assoc)
    next
      case False
      then have "blk f ?B (p div ?B) = replicate (length (blk f ?B (p div ?B))) 0"
        using IsZero_iff by blast
      moreover have "p mod ?B < length (blk f ?B (p div ?B))"
        using p bs(2) by (simp add: blk_def) (metis less_le_trans mod_less_divisor zero_less_numeral
            add.commute div_mult_mod_eq less_diff_conv)
      ultimately have "blk f ?B (p div ?B) ! (p mod ?B) = 0" by (metis nth_replicate)
      then show ?thesis using pn False p bs(2) by (simp add: h'(3) snapshot_reads_def e(3,4) read_own_def blk_nth)
    qed
  qed
  with e(1) h' show ?thesis by blast
qed

text \<open>A writer that appends, as \<open>bytes.Buffer\<close> does.\<close>

definition append_write :: "byte list \<Rightarrow> byte list \<Rightarrow> byte list \<times> i64 \<times> unit option" where
  "append_write w b = (w @ b, word_of_nat (length b), None)"

theorem export_snapshot_reads_back_witness:
  "let f = replicate 4096 1 @ replicate 8192 0 in
   header_inv sample_header \<and>
   (\<exists>d out' h'. (exportToDiff {} insert append_write None (Inr f) 4096 sample_header [] :: (unit, unit) export_error + _)
       = Inr (d, out') \<and> ToDiffHeader set_ranges d sample_header 9 = Inr h' \<and>
     read_own 9 out' (device_resolve h' 100) = Some 1)"
proof -
  let ?f = "replicate 4096 1 @ replicate 8192 0 :: byte list"
  have laws: "bitmap_laws {} insert set_ranges (\<lambda>S. unat ` (S :: u32 set))"
    by (simp add: bitmap_laws_def set_ranges_runs)
  have wr: "writer_ok append_write (\<lambda>w. w)" by (simp add: writer_ok_def append_write_def)
  have len: "length ?f = unat (md_Size (h_Metadata sample_header))" by (simp add: sample_header_inv(3))
  have cap: "card (insert 9 (header_builds sample_header)) \<le> maxBuildsPerHeader"
    by (simp add: sample_header_inv(2) maxBuildsPerHeader_def nilBuildIdx_def)
  have "?f ! 100 = 1" by (simp add: nth_append)
  with export_snapshot_reads_back [OF laws wr refl sample_header_inv(1) len, of 4096 9] cap sample_header_inv(1)
  show ?thesis by (fastforce simp: Let_def)
qed

end
