(* ===== verification/Serialization.thy ===== *)
theory Serialization
  imports Header
begin

text \<open>
  The wire formats of headers (\<open>packages/shared/pkg/storage/header/serialization.go\<close>,
  \<open>serialization_v3.go\<close>, \<open>serialization_v4.go\<close>, \<open>serialization_v5.go\<close> and \<open>deserializeMetadata\<close> of
  \<open>metadata.go\<close>): V3 is the metadata and fixed 40-byte entries; V4 adds the builds section and an LZ4
  envelope; V5 keeps the envelope and writes the mapping as columns of varints, without the zero
  regions. LZ4 is third-party code: the compressor and the stream that the decompressor yields are
  parameters. Writes to a \<open>bytes.Buffer\<close> never fail, so their error branches are unreachable.
\<close>

unbundle bit_operations_syntax

section \<open>Records on the wire\<close>

definition metadata_tuple :: "Metadata \<Rightarrow> u64 \<times> u64 \<times> u64 \<times> u64 \<times> uuid \<times> uuid" where
  "metadata_tuple m = (md_Version m, md_BlockSize m, md_Size m, md_Generation m, md_BuildId m, md_BaseBuildId m)"

definition tuple_metadata :: "u64 \<times> u64 \<times> u64 \<times> u64 \<times> uuid \<times> uuid \<Rightarrow> Metadata" where
  "tuple_metadata t = (case t of (a, b, c, d, e, f) \<Rightarrow>
     \<lparr>md_Version = a, md_BlockSize = b, md_Size = c, md_Generation = d, md_BuildId = e, md_BaseBuildId = f\<rparr>)"

definition metadataSize :: nat where "metadataSize = 64"

definition metadata_enc :: "Metadata \<Rightarrow> byte list" where
  "metadata_enc = pair_enc u64_enc (pair_enc u64_enc (pair_enc u64_enc (pair_enc u64_enc
     (pair_enc uuid_enc uuid_enc)))) \<circ> metadata_tuple"

definition metadata_dec :: "byte list \<Rightarrow> Metadata" where
  "metadata_dec = tuple_metadata \<circ> pair_dec 8 u64_dec (pair_dec 8 u64_dec (pair_dec 8 u64_dec
     (pair_dec 8 u64_dec (pair_dec 16 uuid_dec uuid_dec))))"

text \<open>\<open>v3SerializableBuildMap\<close> and \<open>v4SerializableBuildMap\<close> have the same four fields.\<close>

definition buildmap_tuple :: "BuildMap \<Rightarrow> u64 \<times> u64 \<times> uuid \<times> u64" where
  "buildmap_tuple m = (Offset m, Length m, BuildId m, BuildStorageOffset m)"

definition tuple_buildmap :: "u64 \<times> u64 \<times> uuid \<times> u64 \<Rightarrow> BuildMap" where
  "tuple_buildmap t = (case t of (a, b, c, d) \<Rightarrow>
     \<lparr>Offset = a, Length = b, BuildId = c, BuildStorageOffset = d\<rparr>)"

definition buildmap_enc :: "BuildMap \<Rightarrow> byte list" where
  "buildmap_enc = pair_enc u64_enc (pair_enc u64_enc (pair_enc uuid_enc u64_enc)) \<circ> buildmap_tuple"

definition buildmap_dec :: "byte list \<Rightarrow> BuildMap" where
  "buildmap_dec = tuple_buildmap \<circ> pair_dec 8 u64_dec (pair_dec 8 u64_dec (pair_dec 16 uuid_dec u64_dec))"

definition checksum_enc :: "checksum \<Rightarrow> byte list" where "checksum_enc w = rev (le_enc 32 (unat w))"
definition checksum_dec :: "byte list \<Rightarrow> checksum" where "checksum_dec bs = word_of_nat (le_dec (rev bs))"

text \<open>\<open>v4SerializableBuildInfo\<close>: build id, file size, checksum.\<close>

type_synonym build_info = "uuid \<times> i64 \<times> checksum"

definition info_enc :: "build_info \<Rightarrow> byte list" where
  "info_enc = pair_enc uuid_enc (pair_enc u64_enc checksum_enc)"

definition info_dec :: "byte list \<Rightarrow> build_info" where
  "info_dec = pair_dec 16 uuid_dec (pair_dec 8 u64_dec checksum_dec)"

definition v4BuildInfoSize :: nat where "v4BuildInfoSize = 56"
definition v4MappingSize :: nat where "v4MappingSize = 40"
definition frameTableHeaderSize :: nat where "frameTableHeaderSize = 8"
definition v4SizePrefixLen :: nat where "v4SizePrefixLen = 4"
definition v4FlagsLen :: nat where "v4FlagsLen = 1"
definition v4MaxUncompressedHeaderSize :: nat where "v4MaxUncompressedHeaderSize = 256 * 2 ^ 20"
definition v4FlagIncomplete :: u8 where "v4FlagIncomplete = 1"
definition maxV5MappingEntries :: nat where "maxV5MappingEntries = 8 * 2 ^ 20"
definition metadataVersionMask :: u64 where "metadataVersionMask = 0xFFFF"

datatype 'l ser_error =
    SerPanic | Lz4Error 'l | UnsupportedVersion | HeaderTooShort | MetadataRead read_error
  | MappingRead read_error | BlockTooShort | UncompressedCap | DecompressedMismatch
  | BuildRead read_error | BuildCount | BuildFrames frame_error | MappingCount | NewHeaderError header_error
  | ZeroBlockSizeV5 | SizeBlockRange | TooManyV5Builds | TooManyV5Entries | OffsetDelta | OffsetRange
  | LengthRange | StorageRange | BuildIndexRange | ZeroLengthEntry | OverlapEntry | EndBeyondSize
  | ColumnsError compact_error | NilHeader | RefuseIncomplete | RefuseOversize | BlobError 'l

section \<open>LZ4\<close>

text \<open>\<open>lz\<close> is the whole use of the LZ4 writer; \<open>stream\<close> gives the bytes that the LZ4 reader yields before
  its end and the error that ends it (\<open>None\<close>: a clean end of file). \<open>io.CopyN\<close> stops after
  \<open>expected + 1\<close> bytes.\<close>

definition compressLZ4 :: "(byte list \<Rightarrow> 'l + byte list) \<Rightarrow> byte list \<Rightarrow> 'l ser_error + byte list" where
  "compressLZ4 lz data = map_sum Lz4Error id (lz data)"

definition decompressLZ4 ::
  "(byte list \<Rightarrow> byte list \<times> 'l option) \<Rightarrow> byte list \<Rightarrow> nat \<Rightarrow> 'l ser_error + byte list" where
  "decompressLZ4 stream src expected =
     (case stream src of (out, err) \<Rightarrow>
        if length out \<ge> expected + 1 then Inr (take (expected + 1) out)
        else case err of Some e \<Rightarrow> Inl (Lz4Error e) | None \<Rightarrow> Inr out)"

section \<open>serialization\_v3.go\<close>

definition serializeV3 :: "Metadata \<Rightarrow> Mapping \<Rightarrow> 'l ser_error + byte list" where
  "serializeV3 metadata mappings =
     (case Slice mappings of
        None \<Rightarrow> Inl SerPanic
      | Some ms \<Rightarrow> Inr (metadata_enc metadata @ concat (map buildmap_enc ms)))"

text \<open>The loop reads until a clean end of file; a partial entry is an error.\<close>

function read_v3 :: "byte list \<Rightarrow> read_error + BuildMap list" where
  "read_v3 r =
     (case read_fixed 40 buildmap_dec r of
        Inl EOF \<Rightarrow> Inr []
      | Inl e \<Rightarrow> Inl e
      | Inr (m, r') \<Rightarrow> map_sum id (\<lambda>ms. m # ms) (read_v3 r'))"
  by pat_completeness auto

lemma read_fixed_shrinks: "read_fixed n dec r = Inr (x, r') \<Longrightarrow> 0 < n \<Longrightarrow> length r' < length r"
  by (auto simp: read_fixed_def read_full_def split: if_splits)

termination read_v3
  by (relation "measure length") (auto dest: read_fixed_shrinks)

declare read_v3.simps [simp del]

definition deserializeV3 :: "Metadata \<Rightarrow> byte list \<Rightarrow> 'l ser_error + Header" where
  "deserializeV3 metadata blockData =
     (case read_v3 blockData of
        Inl e \<Rightarrow> Inl (MappingRead e)
      | Inr mappings \<Rightarrow> map_sum NewHeaderError id (NewHeader metadata mappings))"

section \<open>The builds section\<close>

definition extractRelevantRanges :: "BuildMap list \<Rightarrow> uuid \<Rightarrow> Range list" where
  "extractRelevantRanges ms =
     fold (\<lambda>m ranges. ranges(BuildId m := ranges (BuildId m) @
         [\<lparr>rg_Offset = BuildStorageOffset m, rg_Length = Length m\<rparr>])) ms (\<lambda>_. [])"

definition write_build :: "(uuid \<Rightarrow> Range list) \<Rightarrow> uuid \<times> BuildData \<Rightarrow> byte list" where
  "write_build buildRanges e = (case e of (bid, bd) \<Rightarrow>
     info_enc (bid, bd_Size bd, bd_Checksum bd) @ Serialize (TrimToRanges (bd_FrameData bd) (buildRanges bid)))"

definition writeV4BuildsSection :: "build_table option \<Rightarrow> Mapping \<Rightarrow> 'l ser_error + byte list" where
  "writeV4BuildsSection blds mapping =
     (let sorted = sort_key fst (case blds of None \<Rightarrow> [] | Some t \<Rightarrow> t) in
      case Slice mapping of
        None \<Rightarrow> Inl SerPanic
      | Some ms \<Rightarrow>
          Inr (u32_enc (word_of_nat (length sorted)) @
               concat (map (write_build (extractRelevantRanges ms)) sorted)))"

fun read_builds :: "nat \<Rightarrow> build_table \<Rightarrow> byte list \<Rightarrow> 'l ser_error + build_table \<times> byte list" where
  "read_builds 0 blds r = Inr (blds, r)"
| "read_builds (Suc k) blds r =
     (case read_fixed v4BuildInfoSize info_dec r of
        Inl e \<Rightarrow> Inl (BuildRead e)
      | Inr ((bid, sz, chk), r1) \<Rightarrow>
          (case DeserializeFrameTable r1 of
             Inl e \<Rightarrow> Inl (BuildFrames e)
           | Inr (ft, r2) \<Rightarrow>
               read_builds k (AList.update bid \<lparr>bd_Size = sz, bd_Checksum = chk, bd_FrameData = ft\<rparr> blds) r2))"

definition readV4BuildsSection :: "byte list \<Rightarrow> 'l ser_error + build_table option \<times> byte list" where
  "readV4BuildsSection r =
     (case read_fixed 4 u32_dec r of
        Inl e \<Rightarrow> Inl (BuildRead e)
      | Inr (numBuilds, r1) \<Rightarrow>
          if numBuilds = 0 then Inr (None, r1)
          else if unat numBuilds > length r1 div (v4BuildInfoSize + frameTableHeaderSize) then Inl BuildCount
          else map_sum id (map_prod Some id) (read_builds (unat numBuilds) [] r1))"

section \<open>The envelope of V4 and V5\<close>

text \<open>The part that \<open>serializeV4\<close> and \<open>serializeV5\<close> have in common: compress the block and prepend the
  metadata, the flags byte and the size. It also returns the size of the block.\<close>

definition seal_block ::
  "(byte list \<Rightarrow> 'l + byte list) \<Rightarrow> Metadata \<Rightarrow> bool \<Rightarrow> byte list \<Rightarrow> 'l ser_error + byte list \<times> nat" where
  "seal_block lz metadata incomplete blockBytes =
     bind_res (compressLZ4 lz blockBytes) (\<lambda>compressed.
       let flags = (if incomplete then v4FlagIncomplete else 0) in
       Inr (metadata_enc metadata @ [flags] @ u32_enc (word_of_nat (length blockBytes)) @ compressed,
            length blockBytes))"

definition open_block ::
  "(byte list \<Rightarrow> byte list \<times> 'l option) \<Rightarrow> byte list \<Rightarrow> 'l ser_error + u8 \<times> byte list" where
  "open_block stream blockData =
     (if length blockData < v4FlagsLen + v4SizePrefixLen then Inl BlockTooShort
      else
        let flags = blockData ! 0;
            sz = unat (u32_dec (take 4 (drop v4FlagsLen blockData)))
        in if sz > v4MaxUncompressedHeaderSize then Inl UncompressedCap
           else bind_res (decompressLZ4 stream (drop (v4FlagsLen + v4SizePrefixLen) blockData) sz) (\<lambda>decompressed.
             if length decompressed \<noteq> sz then Inl DecompressedMismatch else Inr (flags, decompressed)))"

section \<open>serialization\_v4.go\<close>

definition v4_block :: "build_table option \<Rightarrow> Mapping \<Rightarrow> 'l ser_error + byte list" where
  "v4_block blds mappings =
     bind_res (writeV4BuildsSection blds mappings) (\<lambda>b.
       case Slice mappings of
         None \<Rightarrow> Inl SerPanic
       | Some ms \<Rightarrow> Inr (b @ u32_enc (word_of_nat (Len mappings)) @ concat (map buildmap_enc ms)))"

definition serializeV4 ::
  "(byte list \<Rightarrow> 'l + byte list) \<Rightarrow> Metadata \<Rightarrow> build_table option \<Rightarrow> Mapping \<Rightarrow> bool \<Rightarrow>
   'l ser_error + byte list \<times> nat" where
  "serializeV4 lz metadata blds mappings incomplete =
     bind_res (v4_block blds mappings) (seal_block lz metadata incomplete)"

definition deserializeV4 ::
  "(byte list \<Rightarrow> byte list \<times> 'l option) \<Rightarrow> Metadata \<Rightarrow> byte list \<Rightarrow> 'l ser_error + Header" where
  "deserializeV4 stream metadata blockData =
     bind_res (open_block stream blockData) (\<lambda>(flags, decompressed).
     bind_res (readV4BuildsSection decompressed) (\<lambda>(blds, r).
     case read_fixed 4 u32_dec r of
       Inl e \<Rightarrow> Inl (MappingRead e)
     | Inr (numMappings, r1) \<Rightarrow>
         if unat numMappings > length r1 div v4MappingSize then Inl MappingCount
         else case read_many (unat numMappings) v4MappingSize buildmap_dec r1 of
           Inl e \<Rightarrow> Inl (MappingRead e)
         | Inr (mappings, _) \<Rightarrow>
             bind_res (map_sum NewHeaderError id (NewHeader metadata mappings)) (\<lambda>h.
               Inr (h\<lparr>h_Builds := blds, h_IncompletePendingUpload := (flags AND v4FlagIncomplete \<noteq> 0)\<rparr>))))"

section \<open>serialization\_v5.go: writing\<close>

text \<open>A column without the rows of the nil build; a column longer than \<open>buildIdx\<close> panics.\<close>

definition live_col :: "u16 list \<Rightarrow> 'a list \<Rightarrow> 'a list option" where
  "live_col bidx col =
     (if length col \<le> length bidx then Some (map fst (filter (\<lambda>(v, bi). bi \<noteq> nilBuildIdx) (zip col bidx)))
      else None)"

fun offset_deltas :: "u64 \<Rightarrow> u32 list \<Rightarrow> byte list" where
  "offset_deltas prevOffset [] = []"
| "offset_deltas prevOffset (v # vs) =
     (let off = ucast v in put_uvarint (off - prevOffset) @ offset_deltas off vs)"

fun storage_deltas :: "i64 \<Rightarrow> u32 list \<Rightarrow> byte list" where
  "storage_deltas prevStorage [] = []"
| "storage_deltas prevStorage (v # vs) =
     (let s = ucast v in put_varint (s - prevStorage) @ storage_deltas s vs)"

definition writeV5MappingSection :: "Mapping \<Rightarrow> 'l ser_error + byte list" where
  "writeV5MappingSection m =
     (let live = filter (\<lambda>i. i \<noteq> nilBuildIdx) (buildIdx m); n = length live in
      case (live_col (buildIdx m) (offsets m), live_col (buildIdx m) (lengths m), live_col (buildIdx m) (storage m)) of
        (Some offs, Some lens, Some sto) \<Rightarrow>
          Inr (u32_enc (word_of_nat (length (builds m))) @ concat (map uuid_enc (builds m)) @
               u32_enc (word_of_nat n) @
               offset_deltas 0 offs @
               concat (map (\<lambda>v. put_uvarint (ucast v)) lens) @
               storage_deltas 0 sto @
               concat (map (\<lambda>v. put_uvarint (ucast v)) live))
      | _ \<Rightarrow> Inl SerPanic)"

definition serializeV5 ::
  "(byte list \<Rightarrow> 'l + byte list) \<Rightarrow> Metadata \<Rightarrow> build_table option \<Rightarrow> Mapping \<Rightarrow> bool \<Rightarrow>
   'l ser_error + byte list \<times> nat" where
  "serializeV5 lz metadata blds mapping incomplete =
     bind_res (writeV4BuildsSection blds mapping) (\<lambda>b.
     bind_res (writeV5MappingSection mapping) (\<lambda>ms.
     seal_block lz metadata incomplete (b @ ms)))"

section \<open>serialization\_v5.go: reading\<close>

fun read_offsets :: "nat \<Rightarrow> u64 \<Rightarrow> byte list \<Rightarrow> 'l ser_error + u32 list \<times> byte list" where
  "read_offsets 0 prevOffset r = Inr ([], r)"
| "read_offsets (Suc k) prevOffset r =
     (case read_uvarint r of
        Inl e \<Rightarrow> Inl (MappingRead e)
      | Inr (d, r1) \<Rightarrow>
          if d > maxBlockIdx then Inl OffsetDelta
          else if prevOffset + d > maxBlockIdx then Inl OffsetRange
          else map_sum id (map_prod (\<lambda>vs. ucast (prevOffset + d) # vs) id) (read_offsets k (prevOffset + d) r1))"

fun read_lengths :: "nat \<Rightarrow> byte list \<Rightarrow> 'l ser_error + u32 list \<times> byte list" where
  "read_lengths 0 r = Inr ([], r)"
| "read_lengths (Suc k) r =
     (case read_uvarint r of
        Inl e \<Rightarrow> Inl (MappingRead e)
      | Inr (v, r1) \<Rightarrow>
          if v > maxBlockIdx then Inl LengthRange
          else map_sum id (map_prod (\<lambda>vs. ucast v # vs) id) (read_lengths k r1))"

fun read_storage :: "nat \<Rightarrow> i64 \<Rightarrow> byte list \<Rightarrow> 'l ser_error + u32 list \<times> byte list" where
  "read_storage 0 prevStorage r = Inr ([], r)"
| "read_storage (Suc k) prevStorage r =
     (case read_varint r of
        Inl e \<Rightarrow> Inl (MappingRead e)
      | Inr (d, r1) \<Rightarrow>
          if sint (prevStorage + d) < 0 \<or> sint (prevStorage + d) > sint maxBlockIdx then Inl StorageRange
          else map_sum id (map_prod (\<lambda>vs. ucast (prevStorage + d) # vs) id) (read_storage k (prevStorage + d) r1))"

fun read_indices :: "nat \<Rightarrow> u64 \<Rightarrow> byte list \<Rightarrow> 'l ser_error + u16 list \<times> byte list" where
  "read_indices 0 m r = Inr ([], r)"
| "read_indices (Suc k) m r =
     (case read_uvarint r of
        Inl e \<Rightarrow> Inl (MappingRead e)
      | Inr (v, r1) \<Rightarrow>
          if v \<ge> m then Inl BuildIndexRange
          else map_sum id (map_prod (\<lambda>vs. ucast v # vs) id) (read_indices k m r1))"

text \<open>The loop that rebuilds the zero regions; it returns the rows and the end of the last one.\<close>

fun fill_gaps :: "u64 \<Rightarrow> u32 \<Rightarrow> row list \<Rightarrow> 'l ser_error + row list \<times> u32" where
  "fill_gaps sizeBlocks current [] = Inr ([], current)"
| "fill_gaps sizeBlocks current ((off, len, sto, idx) # rs) =
     (if len = 0 then Inl ZeroLengthEntry
      else if off < current then Inl OverlapEntry
      else
        let gap = (if off > current then [(current, off - current, 0, nilBuildIdx)] else []);
            end' = ucast off + ucast len
        in if end' > sizeBlocks then Inl EndBeyondSize
           else map_sum id (map_prod (\<lambda>rows. gap @ (off, len, sto, idx) # rows) id)
                  (fill_gaps sizeBlocks (ucast end') rs))"

definition columns :: "u64 \<Rightarrow> uuid list \<Rightarrow> row list \<Rightarrow> 'l ser_error + Mapping" where
  "columns bsz blds rows =
     map_sum ColumnsError id (newMappingFromColumns bsz blds (map (\<lambda>(o', l, s, i). o') rows)
       (map (\<lambda>(o', l, s, i). l) rows) (map (\<lambda>(o', l, s, i). s) rows) (map (\<lambda>(o', l, s, i). i) rows))"

text \<open>The pass that only counts the rows, to size the slices, is left out; so is the allocation.\<close>

definition maxEntriesByMemory :: nat where
  "maxEntriesByMemory = v4MaxUncompressedHeaderSize div (14 + 2 * 14)"

definition readV5MappingSection :: "byte list \<Rightarrow> u64 \<Rightarrow> u64 \<Rightarrow> 'l ser_error + Mapping" where
  "readV5MappingSection r bsz sz =
     (let sizeBlocks = (if sz mod bsz \<noteq> 0 then sz div bsz + 1 else sz div bsz) in
      if sizeBlocks > maxBlockIdx then Inl SizeBlockRange
      else case read_fixed 4 u32_dec r of
        Inl e \<Rightarrow> Inl (MappingRead e)
      | Inr (m, r1) \<Rightarrow>
          if unat m > maxBuildsPerHeader then Inl TooManyV5Builds
          else if unat m > length r1 div 16 then Inl BuildCount
          else case read_many (unat m) 16 uuid_dec r1 of
            Inl e \<Rightarrow> Inl (MappingRead e)
          | Inr (blds, r2) \<Rightarrow>
              (case read_fixed 4 u32_dec r2 of
                 Inl e \<Rightarrow> Inl (MappingRead e)
               | Inr (n, r3) \<Rightarrow>
                   if unat n > maxV5MappingEntries then Inl TooManyV5Entries
                   else if n = 0 then
                     (if sz = 0 then columns bsz blds []
                      else columns bsz blds [(0, ucast sizeBlocks, 0, nilBuildIdx)])
                   else if unat n > min (length r3 div 4) maxEntriesByMemory then Inl MappingCount
                   else
                     bind_res (read_offsets (unat n) 0 r3) (\<lambda>(offs, r4).
                     bind_res (read_lengths (unat n) r4) (\<lambda>(lens, r5).
                     bind_res (read_storage (unat n) 0 r5) (\<lambda>(sto, r6).
                     bind_res (read_indices (unat n) (ucast m) r6) (\<lambda>(idx, r7).
                     bind_res (fill_gaps sizeBlocks 0 (zip offs (zip lens (zip sto idx)))) (\<lambda>(rows, current).
                     columns bsz blds
                       (if ucast current < sizeBlocks
                        then rows @ [(current, ucast sizeBlocks - current, 0, nilBuildIdx)] else rows))))))))"

definition deserializeV5 ::
  "(byte list \<Rightarrow> byte list \<times> 'l option) \<Rightarrow> Metadata \<Rightarrow> byte list \<Rightarrow> 'l ser_error + Header" where
  "deserializeV5 stream metadata blockData =
     (if md_BlockSize metadata = 0 then Inl ZeroBlockSizeV5
      else bind_res (open_block stream blockData) (\<lambda>(flags, decompressed).
           bind_res (readV4BuildsSection decompressed) (\<lambda>(blds, r).
           bind_res (readV5MappingSection r PageSize (md_Size metadata)) (\<lambda>mapping.
           Inr \<lparr>h_Metadata = metadata, h_Builds = blds, h_Mapping = mapping,
                h_IncompletePendingUpload = (flags AND v4FlagIncomplete \<noteq> 0)\<rparr>))))"

section \<open>serialization.go\<close>

definition metadataFormatVersion :: "u64 \<Rightarrow> u64" where
  "metadataFormatVersion version = version AND metadataVersionMask"

definition SerializeHeader :: "(byte list \<Rightarrow> 'l + byte list) \<Rightarrow> Header \<Rightarrow> 'l ser_error + byte list" where
  "SerializeHeader lz h =
     (let v = metadataFormatVersion (md_Version (h_Metadata h)) in
      if v = 1 \<or> v = 2 \<or> v = 3 then serializeV3 (h_Metadata h) (h_Mapping h)
      else if v = MetadataVersionV4 then
        map_sum id fst (serializeV4 lz (h_Metadata h) (h_Builds h) (h_Mapping h) (h_IncompletePendingUpload h))
      else if v = MetadataVersionV5 then
        map_sum id fst (serializeV5 lz (h_Metadata h) (h_Builds h) (h_Mapping h) (h_IncompletePendingUpload h))
      else Inl UnsupportedVersion)"

definition deserializeMetadata :: "byte list \<Rightarrow> 'l ser_error + Metadata" where
  "deserializeMetadata data = map_sum MetadataRead fst (read_fixed metadataSize metadata_dec data)"

definition DeserializeBytes ::
  "(byte list \<Rightarrow> byte list \<times> 'l option) \<Rightarrow> byte list \<Rightarrow> 'l ser_error + Header" where
  "DeserializeBytes stream data =
     (if length data < metadataSize then Inl HeaderTooShort
      else bind_res (deserializeMetadata (take metadataSize data)) (\<lambda>metadata.
        let blockData = drop metadataSize data; v = metadataFormatVersion (md_Version metadata) in
        if v = MetadataVersionV5 then deserializeV5 stream metadata blockData
        else if v = MetadataVersionV4 then deserializeV4 stream metadata blockData
        else if v = 1 \<or> v = 2 \<or> v = 3 then deserializeV3 metadata blockData
        else Inl UnsupportedVersion))"

definition zero_BuildData :: BuildData where
  "zero_BuildData = \<lparr>bd_Size = 0, bd_Checksum = 0, bd_FrameData = None\<rparr>"

definition backfillMissingV3UncompressedBuilds :: "Header \<Rightarrow> Header" where
  "backfillMissingV3UncompressedBuilds h =
     (let v4plus = metadataFormatVersion (md_Version (h_Metadata h)) \<ge> MetadataVersionV4 in
      h\<lparr>h_Builds := fold (\<lambda>bid blds.
          if lookup_build blds bid \<noteq> None then blds
          else if v4plus \<and> bid \<noteq> md_BuildId (h_Metadata h) then blds
          else Some (AList.update bid zero_BuildData (case blds of None \<Rightarrow> [] | Some t \<Rightarrow> t)))
        (builds (h_Mapping h)) (h_Builds h)\<rparr>)"

text \<open>The blob that \<open>storage.GetBlob\<close> returned, or the error of opening or reading it, is a parameter.\<close>

definition LoadHeader ::
  "(byte list \<Rightarrow> byte list \<times> 'l option) \<Rightarrow> 'l + byte list \<Rightarrow> 'l ser_error + Header \<times> nat" where
  "LoadHeader stream blob =
     (case blob of
        Inl e \<Rightarrow> Inl (BlobError e)
      | Inr data \<Rightarrow>
          bind_res (DeserializeBytes stream data) (\<lambda>h.
            Inr (if \<not> h_IncompletePendingUpload h then backfillMissingV3UncompressedBuilds h else h, length data)))"

definition headerCodec :: "Header option \<Rightarrow> CompressionType" where
  "headerCodec h =
     (case h of
        None \<Rightarrow> CompressionNone
      | Some h' \<Rightarrow>
          let v = metadataFormatVersion (md_Version (h_Metadata h')) in
          if v = MetadataVersionV4 \<or> v = MetadataVersionV5 then CompressionLZ4 else CompressionNone)"

text \<open>\<open>put\<close> is the error of opening the blob or of its \<open>Put\<close>. The result is the type of the compression
  config, the stored and the uncompressed byte counts, and the bytes stored.\<close>

definition StoreHeader ::
  "(byte list \<Rightarrow> 'l + byte list) \<Rightarrow> (byte list \<Rightarrow> 'l option) \<Rightarrow> Header option \<Rightarrow>
   'l ser_error + string \<times> nat \<times> nat \<times> byte list" where
  "StoreHeader lz put ho =
     (case ho of
        None \<Rightarrow> Inl NilHeader
      | Some h \<Rightarrow>
          if h_IncompletePendingUpload h then Inl RefuseIncomplete
          else
            let v = metadataFormatVersion (md_Version (h_Metadata h)) in
            bind_res
              (if v = 1 \<or> v = 2 \<or> v = 3 then
                 map_sum id (\<lambda>data. ('''', length data, data)) (serializeV3 (h_Metadata h) (h_Mapping h))
               else if v = MetadataVersionV4 \<or> v = MetadataVersionV5 then
                 bind_res
                   (if v = MetadataVersionV5
                    then serializeV5 lz (h_Metadata h) (h_Builds h) (h_Mapping h) (h_IncompletePendingUpload h)
                    else serializeV4 lz (h_Metadata h) (h_Builds h) (h_Mapping h) (h_IncompletePendingUpload h))
                   (\<lambda>(data, blockUncompressed).
                     if blockUncompressed > v4MaxUncompressedHeaderSize then Inl RefuseOversize
                     else Inr (ct_String CompressionLZ4,
                               metadataSize + v4FlagsLen + v4SizePrefixLen + blockUncompressed, data))
               else Inl UnsupportedVersion)
              (\<lambda>(cfg, uncompressed, data).
                 case put data of
                   Some e \<Rightarrow> Inl (BlobError e)
                 | None \<Rightarrow> Inr (cfg, length data, uncompressed, data)))"

end
