(* ===== verification/Header_Roundtrip.thy ===== *)
theory Header_Roundtrip
  imports Serialization
begin

text \<open>
  What the wire formats promise: a header that was stored is read back. V3 and V4 give back the very
  entries; V5 drops the zero regions and rebuilds them, so its promise is that every byte of the
  device resolves as before. Build data comes back with its frame table trimmed to the mapped ranges.
\<close>

section \<open>Records\<close>

lemma tuple_metadata_tuple: "tuple_metadata (metadata_tuple m) = m"
  by (simp add: tuple_metadata_def metadata_tuple_def)

lemma tuple_buildmap_tuple: "tuple_buildmap (buildmap_tuple m) = m"
  by (simp add: tuple_buildmap_def buildmap_tuple_def)

interpretation metadatac: fixed_codec metadata_enc metadata_dec 64
proof -
  have "fixed_codec (pair_enc u64_enc (pair_enc u64_enc (pair_enc u64_enc (pair_enc u64_enc
      (pair_enc uuid_enc uuid_enc))))) (pair_dec 8 u64_dec (pair_dec 8 u64_dec (pair_dec 8 u64_dec
      (pair_dec 8 u64_dec (pair_dec 16 uuid_dec uuid_dec))))) (8 + (8 + (8 + (8 + (16 + 16)))))"
    by (intro fixed_codec_pair u64c.fixed_codec_axioms uuidc.fixed_codec_axioms)
  from fixed_codec_iso [OF this tuple_metadata_tuple]
  show "fixed_codec metadata_enc metadata_dec 64" by (simp add: metadata_enc_def metadata_dec_def)
qed

interpretation buildmapc: fixed_codec buildmap_enc buildmap_dec 40
proof -
  have "fixed_codec (pair_enc u64_enc (pair_enc u64_enc (pair_enc uuid_enc u64_enc)))
      (pair_dec 8 u64_dec (pair_dec 8 u64_dec (pair_dec 16 uuid_dec u64_dec))) (8 + (8 + (16 + 8)))"
    by (intro fixed_codec_pair u64c.fixed_codec_axioms uuidc.fixed_codec_axioms)
  from fixed_codec_iso [OF this tuple_buildmap_tuple]
  show "fixed_codec buildmap_enc buildmap_dec 40" by (simp add: buildmap_enc_def buildmap_dec_def)
qed

interpretation checksumc: fixed_codec checksum_enc checksum_dec 32
  by unfold_locales (simp_all add: checksum_enc_def checksum_dec_def word_le_roundtrip)

interpretation infoc: fixed_codec info_enc info_dec 56
proof -
  have "fixed_codec (pair_enc uuid_enc (pair_enc u64_enc checksum_enc))
      (pair_dec 16 uuid_dec (pair_dec 8 u64_dec checksum_dec)) (16 + (8 + 32))"
    by (intro fixed_codec_pair u64c.fixed_codec_axioms uuidc.fixed_codec_axioms checksumc.fixed_codec_axioms)
  then show "fixed_codec info_enc info_dec 56" by (simp add: info_enc_def info_dec_def)
qed

section \<open>V3\<close>

lemma read_v3_enc: "read_v3 (concat (map buildmap_enc ms)) = Inr ms"
proof (induction ms)
  case Nil
  then show ?case by (simp add: read_v3.simps [of "[]"] read_fixed_def read_full_def)
next
  case (Cons m ms)
  have "read_fixed 40 buildmap_dec (buildmap_enc m @ concat (map buildmap_enc ms)) =
      Inr (m, concat (map buildmap_enc ms))" by (rule buildmapc.read_enc)
  with Cons show ?case by (simp add: read_v3.simps [of "buildmap_enc m @ _"])
qed

text \<open>Mappings as headers hold them, in pages.\<close>

definition paged_mapping :: "Mapping \<Rightarrow> bool" where
  "paged_mapping m \<longleftrightarrow> mapping_wf m \<and> blockSize m = PageSize \<and> offsets m \<noteq> [] \<and>
     length (builds m) \<le> maxBuildsPerHeader"

lemma col_aligned: "(ucast (w :: u32) * PageSize) mod PageSize = 0"
  "(ucast (w :: u32) * PageSize) div PageSize \<le> maxBlockIdx"
proof -
  have m: "unat (ucast w * PageSize) = unat w * 4096"
    using unat_block_mult [of PageSize w] by (simp add: PageSize_def)
  have "unat ((ucast w * PageSize) mod PageSize) = 0"
    unfolding unat_mod_distrib m by (simp add: PageSize_def)
  then show "(ucast w * PageSize) mod PageSize = 0" by simp
  have "unat ((ucast w * PageSize) div PageSize) = unat w"
    unfolding unat_div_distrib m by (simp add: PageSize_def)
  then show "(ucast w * PageSize) div PageSize \<le> maxBlockIdx"
    using unsigned_less [of w, where 'a = nat] by (simp add: word_le_nat_alt maxBlockIdx_def)
qed

lemma NewHeader_paged:
  assumes "paged_mapping m" and "md_BlockSize md \<noteq> 0"
  shows "\<exists>h. NewHeader md (entries m) = Inr h \<and> h_Metadata h = md \<and> entries (h_Mapping h) = entries m \<and>
    mapping_wf (h_Mapping h) \<and> blockSize (h_Mapping h) = PageSize \<and> h_Builds h = None \<and>
    \<not> h_IncompletePendingUpload h"
proof -
  have wf: "mapping_wf m" and ne: "entries m \<noteq> []" and bsz: "blockSize m = PageSize"
    using assms(1) by (auto simp: paged_mapping_def entries_def)
  have al: "\<forall>e \<in> set (entries m). aligned PageSize e"
    by (auto simp: entries_def entry_at_def aligned_def bsz col_aligned)
  have "BuildId ` set (entries m) - {uuid_Nil} \<subseteq> set (builds m)"
    using wf by (auto simp: entries_def entry_at_def build_at_def mapping_wf_def dest: nth_mem split: if_splits)
  then have "card (BuildId ` set (entries m) - {uuid_Nil}) \<le> maxBuildsPerHeader"
    using assms(1) card_length [of "builds m"] card_mono [OF finite_set] by (fastforce simp: paged_mapping_def)
  then obtain c where c: "NewMapping PageSize (entries m) = Inr c"
    using NewMapping_succeeds [OF _ al] by (auto simp: PageSize_def)
  from c NewMapping_wf [OF c] NewMapping_entries [OF c] NewMapping_builds(4) [OF c] ne assms(2) show ?thesis
    by (simp add: NewHeader_def)
qed

section \<open>The builds section\<close>

lemma extractRelevantRanges_filter:
  "extractRelevantRanges ms b =
   map (\<lambda>m. \<lparr>rg_Offset = BuildStorageOffset m, rg_Length = Length m\<rparr>) (filter (\<lambda>m. BuildId m = b) ms)"
proof -
  have "fold (\<lambda>m ranges. ranges(BuildId m := ranges (BuildId m) @
      [\<lparr>rg_Offset = BuildStorageOffset m, rg_Length = Length m\<rparr>])) ms R b =
    R b @ map (\<lambda>m. \<lparr>rg_Offset = BuildStorageOffset m, rg_Length = Length m\<rparr>) (filter (\<lambda>m. BuildId m = b) ms)"
    for R by (induction ms arbitrary: R) auto
  then show ?thesis by (simp add: extractRelevantRanges_def)
qed

text \<open>The build data as it comes back from the wire.\<close>

definition wire_build :: "(uuid \<Rightarrow> Range list) \<Rightarrow> uuid \<Rightarrow> BuildData \<Rightarrow> BuildData" where
  "wire_build R b bd = bd\<lparr>bd_FrameData := normal_table (TrimToRanges (bd_FrameData bd) (R b))\<rparr>"

lemma table_valid_trim: "table_valid ft \<Longrightarrow> table_valid (TrimToRanges ft rs)"
proof (cases ft)
  case (Some t)
  assume v: "table_valid ft"
  show ?thesis
  proof (cases "rs = []")
    case True
    then show ?thesis using v Some by (simp add: TrimToRanges_def)
  next
    case False
    have ok: "frames_ok 0 0 (ft_entries t)" using v Some by (simp add: table_valid_def)
    have "length (filter P (ft_entries t)) \<le> unat maxDeserializedFrames" for P
      using v Some order.trans [OF length_filter_le [of P "ft_entries t"]] by (simp add: table_valid_def)
    then show ?thesis
      unfolding Some TrimToRanges_filter [OF ok False] using frames_ok_filter [OF ok] by (simp add: table_valid_def)
  qed
qed (simp add: TrimToRanges_def)

lemma update_new: "k \<notin> fst ` set al \<Longrightarrow> AList.update k v al = al @ [(k, v)]"
  by (induction al) auto

lemma read_builds_enc:
  assumes "\<forall>(b, bd) \<in> set xs. table_valid (bd_FrameData bd)" and "distinct (map fst (acc @ xs))"
  shows "read_builds (length xs) acc (concat (map (write_build R) xs) @ rest) =
    Inr (acc @ map (\<lambda>(b, bd). (b, wire_build R b bd)) xs, rest)"
  using assms
proof (induction xs arbitrary: acc)
  case (Cons x xs)
  obtain b bd where x: "x = (b, bd)" by (cases x)
  let ?T = "TrimToRanges (bd_FrameData bd) (R b)"
  let ?w = "\<lparr>bd_Size = bd_Size bd, bd_Checksum = bd_Checksum bd, bd_FrameData = normal_table ?T\<rparr>"
  have "table_valid ?T" using Cons.prems(1) x by (intro table_valid_trim) auto
  note ft = Serialize_roundtrip [OF this]
  have w: "?w = wire_build R b bd" by (simp add: wire_build_def)
  have new: "AList.update b ?w acc = acc @ [(b, ?w)]" using Cons.prems(2) x by (intro update_new) auto
  have "\<forall>(b, bd) \<in> set xs. table_valid (bd_FrameData bd)" "distinct (map fst ((acc @ [(b, ?w)]) @ xs))"
    using Cons.prems x by auto
  from Cons.IH [OF this] show ?case
    using infoc.read_enc [of "(b, bd_Size bd, bd_Checksum bd)"] ft
    by (simp add: x write_build_def v4BuildInfoSize_def w new [unfolded w])
qed simp

lemma length_write_build: "64 \<le> length (write_build R x)"
  by (cases x) (auto simp: write_build_def infoc.length_enc Serialize_def Let_def u32c.length_enc split: prod.split)

lemma length_write_builds: "64 * length xs \<le> length (concat (map (write_build R) xs))"
proof (induction xs)
  case (Cons x xs)
  then show ?case using length_write_build [of R x] by simp
qed simp

text \<open>A build table that can be written: distinct ids, valid frame tables.\<close>

definition builds_ok :: "build_table option \<Rightarrow> bool" where
  "builds_ok blds \<longleftrightarrow> (case blds of None \<Rightarrow> True
     | Some t \<Rightarrow> distinct (map fst t) \<and> length t < 2 ^ 32 \<and> (\<forall>(b, bd) \<in> set t. table_valid (bd_FrameData bd)))"

lemma map_of_wire:
  "distinct (map fst t) \<Longrightarrow> map_of (map (\<lambda>(b, bd). (b, wire_build R b bd)) (sort_key fst t)) b =
   map_option (wire_build R b) (map_of t b)"
proof -
  assume d: "distinct (map fst t)"
  then have d': "distinct (map fst (sort_key fst t))"
    by (metis distinct_map distinct_sort set_sort)
  have "map_of (map (\<lambda>(b, bd). (b, wire_build R b bd)) xs) b = map_option (wire_build R b) (map_of xs b)" for xs
    by (induction xs) auto
  moreover have "map_of (sort_key fst t) b = map_of t b"
    using map_of_eqI [of "sort_key fst t" t] d d' by (metis map_of_eq_None_iff map_of_eq_Some_iff set_map set_sort option.exhaust)
  ultimately show ?thesis by simp
qed

lemma builds_section_roundtrip:
  assumes wf: "mapping_wf m" and ok: "builds_ok blds"
  shows "\<exists>b blds'. (writeV4BuildsSection blds m :: 'l ser_error + _) = Inr b \<and>
    (readV4BuildsSection (b @ rest) :: 'l ser_error + _) = Inr (blds', rest) \<and>
    (\<forall>id. lookup_build blds' id = map_option (wire_build (extractRelevantRanges (entries m)) id) (lookup_build blds id))"
proof -
  let ?R = "extractRelevantRanges (entries m)"
  define t where "t = (case blds of None \<Rightarrow> [] | Some t \<Rightarrow> t)"
  define xs where "xs = sort_key fst t"
  have t: "distinct (map fst t)" "length t < 2 ^ 32" "\<forall>(b, bd) \<in> set t. table_valid (bd_FrameData bd)"
    using ok by (auto simp: builds_ok_def t_def split: option.splits)
  have lk: "lookup_build blds id = map_of t id" for id
    by (simp add: lookup_build_def t_def split: option.splits)
  have n: "unat (word_of_nat (length xs) :: u32) = length xs"
    using t(2) by (simp add: xs_def unat_of_nat take_bit_nat_eq_self)
  have xs: "\<forall>(b, bd) \<in> set xs. table_valid (bd_FrameData bd)" "distinct (map fst ([] @ xs))"
    using t(1,3) by (auto simp: xs_def distinct_map)
  have w: "(writeV4BuildsSection blds m :: 'l ser_error + _) = Inr (u32_enc (word_of_nat (length xs)) @ concat (map (write_build ?R) xs))"
    by (simp add: writeV4BuildsSection_def Slice_wf [OF wf] xs_def t_def)
  show ?thesis
  proof (cases "xs = []")
    case True
    then have "t = []" by (metis xs_def length_0_conv length_sort)
    then have "lookup_build blds id = None" for id by (simp add: lk)
    moreover have "(readV4BuildsSection (u32_enc 0 @ rest) :: 'l ser_error + _) = Inr (None, rest)"
      by (simp add: readV4BuildsSection_def u32c.read_enc)
    ultimately show ?thesis using True w by (auto simp: lookup_build_def [of None])
  next
    case False
    then have "(word_of_nat (length xs) :: u32) \<noteq> 0" using n by (metis length_0_conv unat_0)
    moreover have "length xs \<le> length (concat (map (write_build ?R) xs) @ rest) div 64"
      using length_write_builds [of xs ?R] by (simp add: less_eq_div_iff_mult_less_eq mult.commute)
    ultimately have "(readV4BuildsSection (u32_enc (word_of_nat (length xs)) @ concat (map (write_build ?R) xs) @ rest)
        :: 'l ser_error + _) =
        Inr (Some (map (\<lambda>(b, bd). (b, wire_build ?R b bd)) xs), rest)"
      using read_builds_enc [OF xs, where 'a = 'l, of ?R rest] n
      by (simp add: readV4BuildsSection_def u32c.read_enc v4BuildInfoSize_def frameTableHeaderSize_def)
    moreover have "lookup_build (Some (map (\<lambda>(b, bd). (b, wire_build ?R b bd)) xs)) id =
        map_option (wire_build ?R id) (lookup_build blds id)" for id
      using map_of_wire [OF t(1)] by (simp add: lookup_build_def [of "Some _"] xs_def lk)
    ultimately show ?thesis using w by auto
  qed
qed

section \<open>The envelope\<close>

text \<open>The documented contract of LZ4: what was compressed decompresses to itself.\<close>

definition lz4_ok :: "(byte list \<Rightarrow> 'l + byte list) \<Rightarrow> (byte list \<Rightarrow> byte list \<times> 'l option) \<Rightarrow> bool" where
  "lz4_ok lz stream \<longleftrightarrow> (\<forall>data. \<exists>c. lz data = Inr c \<and> stream c = (data, None))"

lemma envelope_roundtrip:
  assumes "lz4_ok lz stream" and "length block \<le> v4MaxUncompressedHeaderSize"
  shows "\<exists>body. seal_block lz md inc block = Inr (metadata_enc md @ body, length block) \<and>
    open_block stream body = Inr (if inc then v4FlagIncomplete else 0, block)"
proof -
  obtain c where c: "lz block = Inr c" "stream c = (block, None)" using assms(1) by (auto simp: lz4_ok_def)
  have "unat (word_of_nat (length block) :: u32) = length block"
    using assms(2) by (simp add: v4MaxUncompressedHeaderSize_def unat_of_nat take_bit_nat_eq_self)
  moreover have "u32_dec (take 4 (u32_enc w @ c)) = w" for w
    using u32c.dec_enc [of w] by (simp add: u32c.length_enc)
  ultimately show ?thesis
    using c assms(2)
    by (simp add: seal_block_def open_block_def compressLZ4_def decompressLZ4_def v4FlagsLen_def v4SizePrefixLen_def
        u32c.length_enc Let_def)
qed

section \<open>V4\<close>

lemma flag_bit: "(if inc then v4FlagIncomplete else 0) AND v4FlagIncomplete \<noteq> 0 \<longleftrightarrow> inc"
  by (simp add: v4FlagIncomplete_def)

text \<open>The header \<open>h'\<close> is \<open>h\<close> as it comes back from the wire.\<close>

definition wire_equal :: "Header \<Rightarrow> Header \<Rightarrow> bool" where
  "wire_equal h h' \<longleftrightarrow> h_Metadata h' = h_Metadata h \<and>
     h_IncompletePendingUpload h' = h_IncompletePendingUpload h \<and>
     mapping_wf (h_Mapping h') \<and> blockSize (h_Mapping h') = PageSize \<and>
     (\<forall>b. lookup_build (h_Builds h') b =
        map_option (wire_build (extractRelevantRanges (entries (h_Mapping h))) b) (lookup_build (h_Builds h) b))"

text \<open>A header that can be written and read: a block size, a mapping in pages, a build table.\<close>

definition writable :: "Header \<Rightarrow> bool" where
  "writable h \<longleftrightarrow> md_BlockSize (h_Metadata h) \<noteq> 0 \<and> paged_mapping (h_Mapping h) \<and> builds_ok (h_Builds h)"

lemma serializeV4_roundtrip:
  assumes lz: "lz4_ok lz stream" and wr: "writable h"
    and ser: "serializeV4 lz (h_Metadata h) (h_Builds h) (h_Mapping h) (h_IncompletePendingUpload h) = Inr (data, n)"
    and cap: "n \<le> v4MaxUncompressedHeaderSize"
  shows "\<exists>body h'. data = metadata_enc (h_Metadata h) @ body \<and>
    deserializeV4 stream (h_Metadata h) body = Inr h' \<and> wire_equal h h' \<and>
    entries (h_Mapping h') = entries (h_Mapping h)"
proof -
  let ?m = "h_Mapping h" let ?md = "h_Metadata h" let ?es = "entries ?m"
  have wf: "mapping_wf ?m" and pm: "paged_mapping ?m" and bs: "md_BlockSize ?md \<noteq> 0" and ok: "builds_ok (h_Builds h)"
    using wr by (auto simp: writable_def paged_mapping_def)
  let ?tail = "u32_enc (word_of_nat (length (offsets ?m))) @ concat (map buildmap_enc ?es)"
  from builds_section_roundtrip [OF wf ok, of ?tail, where 'l = 'a] obtain b blds' where
    b: "(writeV4BuildsSection (h_Builds h) ?m :: 'a ser_error + _) = Inr b"
      "(readV4BuildsSection (b @ ?tail) :: 'a ser_error + _) = Inr (blds', ?tail)"
      "\<forall>id. lookup_build blds' id = map_option (wire_build (extractRelevantRanges ?es) id) (lookup_build (h_Builds h) id)"
    by blast
  have v4: "(v4_block (h_Builds h) ?m :: 'a ser_error + _) = Inr (b @ ?tail)"
    by (simp add: v4_block_def b(1) Slice_wf [OF wf] Len_def)
  have n: "n = length (b @ ?tail)"
    using ser by (auto simp: serializeV4_def v4 seal_block_def bind_res_eq_Inr Let_def)
  have "length (b @ ?tail) \<le> v4MaxUncompressedHeaderSize" using cap n by simp
  from envelope_roundtrip [OF lz this, of ?md "h_IncompletePendingUpload h"] obtain body where
    body: "data = metadata_enc ?md @ body"
      "open_block stream body = Inr (if h_IncompletePendingUpload h then v4FlagIncomplete else 0, b @ ?tail)"
    using ser by (auto simp: serializeV4_def v4)
  have len: "length (concat (map buildmap_enc ?es)) = length (offsets ?m) * 40"
    by (simp add: buildmapc.length_concat)
  have "length (offsets ?m) \<le> v4MaxUncompressedHeaderSize" using cap n len by simp
  then have k: "unat (word_of_nat (length (offsets ?m)) :: u32) = length (offsets ?m)"
    by (simp add: v4MaxUncompressedHeaderSize_def unat_of_nat take_bit_nat_eq_self)
  obtain h0 where h0: "NewHeader ?md ?es = Inr h0" "h_Metadata h0 = ?md" "entries (h_Mapping h0) = ?es"
    "mapping_wf (h_Mapping h0)" "blockSize (h_Mapping h0) = PageSize"
    using NewHeader_paged [OF pm bs] by blast
  have rd: "read_many (length (offsets ?m)) 40 buildmap_dec (concat (map buildmap_enc ?es)) = Inr (?es, [])"
    using buildmapc.read_many_enc [of ?es "[]"] by simp
  let ?h' = "h0\<lparr>h_Builds := blds', h_IncompletePendingUpload := h_IncompletePendingUpload h\<rparr>"
  have "deserializeV4 stream ?md body = Inr ?h'"
    using k len rd h0(1)
    by (simp add: deserializeV4_def body(2) b(2) u32c.read_enc v4MappingSize_def flag_bit)
  moreover have "wire_equal h ?h'" using h0 b(3) by (simp add: wire_equal_def)
  ultimately show ?thesis using body(1) h0(3) by auto
qed

section \<open>Versions\<close>

lemma deserializeMetadata_enc: "deserializeMetadata (metadata_enc md) = Inr md"
  using metadatac.read_enc [of md "[]"] by (simp add: deserializeMetadata_def metadataSize_def)

lemma DeserializeBytes_enc:
  "DeserializeBytes stream (metadata_enc md @ body) =
   (let v = metadataFormatVersion (md_Version md) in
    if v = MetadataVersionV5 then deserializeV5 stream md body
    else if v = MetadataVersionV4 then deserializeV4 stream md body
    else if v = 1 \<or> v = 2 \<or> v = 3 then deserializeV3 md body
    else Inl UnsupportedVersion)"
  by (simp add: DeserializeBytes_def metadataSize_def metadatac.length_enc deserializeMetadata_enc)

text \<open>
  C26. V3 headers survive storage: for a header of format version 1 to 3 that \<open>StoreHeader\<close> accepts,
  \<open>DeserializeBytes\<close> of the stored bytes is a header with the same metadata, the same entries and no
  build table.
\<close>

theorem V3_store_load:
  assumes "metadataFormatVersion (md_Version (h_Metadata h)) \<in> {1, 2, 3}" and "writable h"
    and "StoreHeader lz put (Some h) = Inr (cfg, stored, uncompressed, data)"
  shows "\<exists>h'. DeserializeBytes stream data = Inr h' \<and> h_Metadata h' = h_Metadata h \<and>
    entries (h_Mapping h') = entries (h_Mapping h) \<and> h_Builds h' = None \<and> stored = uncompressed"
proof -
  let ?md = "h_Metadata h" let ?es = "entries (h_Mapping h)"
  have wf: "mapping_wf (h_Mapping h)" and pm: "paged_mapping (h_Mapping h)" and bs: "md_BlockSize ?md \<noteq> 0"
    using assms(2) by (auto simp: writable_def paged_mapping_def)
  have v: "metadataFormatVersion (md_Version ?md) \<noteq> MetadataVersionV4"
    "metadataFormatVersion (md_Version ?md) \<noteq> MetadataVersionV5"
    using assms(1) by (auto simp: MetadataVersionV4_def MetadataVersionV5_def)
  have data: "data = metadata_enc ?md @ concat (map buildmap_enc ?es)" "stored = uncompressed"
    using assms(1,3) v
    by (auto simp: StoreHeader_def serializeV3_def Slice_wf [OF wf] Let_def split: if_splits option.splits)
  have "\<exists>h'. deserializeV3 ?md (concat (map buildmap_enc ?es)) = Inr h' \<and> h_Metadata h' = ?md \<and>
      entries (h_Mapping h') = ?es \<and> h_Builds h' = None"
    using NewHeader_paged [OF pm bs] by (auto simp: deserializeV3_def read_v3_enc)
  then show ?thesis
    using assms(1) v data by (auto simp: DeserializeBytes_enc Let_def)
qed

lemma sample_writable: "writable sample_header"
  by (simp add: writable_def paged_mapping_def builds_ok_def sample_header_def NewTemplateMetadata_def mapping_wf_def
      nilBuildIdx_def PageSize_def maxBuildsPerHeader_def)

lemma sample_slice: "Slice (h_Mapping sample_header) = Some (entries (h_Mapping sample_header))"
  using sample_writable by (simp add: writable_def paged_mapping_def Slice_wf)

theorem V3_store_load_witness:
  "\<exists>data h'. StoreHeader (\<lambda>_. Inl ()) (\<lambda>_. None) (Some sample_header) = Inr ('''', length data, length data, data) \<and>
     DeserializeBytes (\<lambda>_. ([], Some ())) data = Inr h' \<and> entries (h_Mapping h') = entries (h_Mapping sample_header)"
proof -
  have v: "metadataFormatVersion (md_Version (h_Metadata sample_header)) \<in> {1, 2, 3}"
    by (simp add: sample_header_def NewTemplateMetadata_def metadataFormatVersion_def metadataVersionMask_def
        metadataVersion_def)
  have inc: "\<not> h_IncompletePendingUpload sample_header" by (simp add: sample_header_def)
  let ?data = "metadata_enc (h_Metadata sample_header) @ concat (map buildmap_enc (entries (h_Mapping sample_header)))"
  have s: "StoreHeader (\<lambda>_. Inl ()) (\<lambda>_. None) (Some sample_header) = Inr ('''', length ?data, length ?data, ?data)"
    using v inc by (simp add: StoreHeader_def serializeV3_def sample_slice Let_def)
  from V3_store_load [OF v sample_writable s, of "\<lambda>_. ([], Some ())"] s show ?thesis by blast
qed

lemma StoreHeader_complete: "StoreHeader lz put (Some h) = Inr r \<Longrightarrow> \<not> h_IncompletePendingUpload h"
  by (rule notI) (simp add: StoreHeader_def)

text \<open>The write path of V4 and V5 behind its guards.\<close>

definition store_sealed ::
  "(byte list \<Rightarrow> 'l option) \<Rightarrow> byte list \<times> nat \<Rightarrow> 'l ser_error + string \<times> nat \<times> nat \<times> byte list" where
  "store_sealed put r =
     (if snd r > v4MaxUncompressedHeaderSize then Inl RefuseOversize
      else case put (fst r) of
        Some e \<Rightarrow> Inl (BlobError e)
      | None \<Rightarrow> Inr (ct_String CompressionLZ4, length (fst r),
                     metadataSize + v4FlagsLen + v4SizePrefixLen + snd r, fst r))"

lemma store_sealed_ok:
  "store_sealed put r = Inr (cfg, stored, unc, data) \<Longrightarrow> snd r \<le> v4MaxUncompressedHeaderSize \<and> fst r = data"
  by (simp add: store_sealed_def not_less split: if_splits option.splits)

lemma store_sealed_succeeds: "n \<le> v4MaxUncompressedHeaderSize \<Longrightarrow>
  store_sealed (\<lambda>_. None) (d, n) = Inr (ct_String CompressionLZ4, length d,
    metadataSize + v4FlagsLen + v4SizePrefixLen + n, d)"
  by (simp add: store_sealed_def)

lemma StoreHeader_sealed:
  assumes "\<not> h_IncompletePendingUpload h"
  shows "metadataFormatVersion (md_Version (h_Metadata h)) = MetadataVersionV4 \<Longrightarrow> StoreHeader lz put (Some h) =
      bind_res (serializeV4 lz (h_Metadata h) (h_Builds h) (h_Mapping h) False) (store_sealed put)"
    and "metadataFormatVersion (md_Version (h_Metadata h)) = MetadataVersionV5 \<Longrightarrow> StoreHeader lz put (Some h) =
      bind_res (serializeV5 lz (h_Metadata h) (h_Builds h) (h_Mapping h) False) (store_sealed put)"
proof -
  have b: "bind_res (bind_res x (\<lambda>(data, blockUncompressed).
        if blockUncompressed > v4MaxUncompressedHeaderSize then Inl RefuseOversize
        else Inr (ct_String CompressionLZ4, metadataSize + v4FlagsLen + v4SizePrefixLen + blockUncompressed, data)))
      (\<lambda>(cfg, uncompressed, data). case put data of
          Some e \<Rightarrow> Inl (BlobError e) | None \<Rightarrow> Inr (cfg, length data, uncompressed, data)) =
    bind_res x (store_sealed put)" for x
    by (cases x) (auto simp: store_sealed_def split: option.split)
  show "metadataFormatVersion (md_Version (h_Metadata h)) = MetadataVersionV4 \<Longrightarrow> StoreHeader lz put (Some h) =
      bind_res (serializeV4 lz (h_Metadata h) (h_Builds h) (h_Mapping h) False) (store_sealed put)"
    unfolding b [symmetric] using assms by (simp add: StoreHeader_def MetadataVersionV4_def MetadataVersionV5_def)
  show "metadataFormatVersion (md_Version (h_Metadata h)) = MetadataVersionV5 \<Longrightarrow> StoreHeader lz put (Some h) =
      bind_res (serializeV5 lz (h_Metadata h) (h_Builds h) (h_Mapping h) False) (store_sealed put)"
    unfolding b [symmetric] using assms by (simp add: StoreHeader_def MetadataVersionV4_def MetadataVersionV5_def)
qed

lemma bind_store_sealed:
  assumes "bind_res x (store_sealed put) = Inr (cfg, stored, unc, data)"
  obtains n where "x = Inr (data, n)" "n \<le> v4MaxUncompressedHeaderSize"
  using assms store_sealed_ok [of put] by (cases x) fastforce+

text \<open>
  C24. V4 headers survive storage: whenever \<open>StoreHeader\<close> accepts a V4 header, \<open>DeserializeBytes\<close> of the
  stored bytes succeeds with the same metadata, flag and entries, and with every build's data, its
  frame table trimmed to the ranges that the mapping reads; in particular the size guard of the write
  path suffices for the size cap of the read path.
\<close>

theorem V4_store_load:
  assumes "metadataFormatVersion (md_Version (h_Metadata h)) = MetadataVersionV4" and "writable h"
    and "lz4_ok lz stream" and "StoreHeader lz put (Some h) = Inr (cfg, stored, uncompressed, data)"
  shows "\<exists>h'. DeserializeBytes stream data = Inr h' \<and> wire_equal h h' \<and>
    entries (h_Mapping h') = entries (h_Mapping h)"
proof -
  note inc = StoreHeader_complete [OF assms(4)]
  from assms(4) [unfolded StoreHeader_sealed(1) [OF inc assms(1)]] obtain n where
    "serializeV4 lz (h_Metadata h) (h_Builds h) (h_Mapping h) (h_IncompletePendingUpload h) = Inr (data, n)"
    "n \<le> v4MaxUncompressedHeaderSize" using inc by (auto elim: bind_store_sealed)
  from serializeV4_roundtrip [OF assms(3,2) this] assms(1) show ?thesis
    by (auto simp: DeserializeBytes_enc MetadataVersionV4_def MetadataVersionV5_def)
qed

text \<open>A trivial codec that meets the contract.\<close>

lemma identity_lz4: "lz4_ok (\<lambda>d. Inr d) (\<lambda>c. (c, None))"
  by (simp add: lz4_ok_def)

definition sample_v4 :: Header where
  "sample_v4 = sample_header\<lparr>h_Metadata := (h_Metadata sample_header)\<lparr>md_Version := 4\<rparr>\<rparr>"

lemma sample_v4_writable: "writable sample_v4"
  using sample_writable by (simp add: sample_v4_def writable_def)

theorem V4_store_load_witness:
  "\<exists>cfg stored unc data h'. StoreHeader (\<lambda>d. Inr d) (\<lambda>_. None :: unit option) (Some sample_v4) = Inr (cfg, stored, unc, data) \<and>
     DeserializeBytes (\<lambda>c. (c, None :: unit option)) data = Inr h' \<and> wire_equal sample_v4 h' \<and>
     entries (h_Mapping h') = entries (h_Mapping sample_v4)"
proof -
  have v: "metadataFormatVersion (md_Version (h_Metadata sample_v4)) = MetadataVersionV4"
    by (simp add: sample_v4_def metadataFormatVersion_def metadataVersionMask_def MetadataVersionV4_def)
  have inc: "\<not> h_IncompletePendingUpload sample_v4" by (simp add: sample_v4_def sample_header_def)
  have sl: "Slice (h_Mapping sample_v4) = Some (entries (h_Mapping sample_header))"
    by (simp add: sample_v4_def sample_slice)
  have b: "v4_block (h_Builds sample_v4) (h_Mapping sample_v4) = Inr (u32_enc 0 @ u32_enc 2 @
      concat (map buildmap_enc (entries (h_Mapping sample_header))))"
    by (simp add: v4_block_def writeV4BuildsSection_def sl Len_def)
      (simp add: sample_v4_def sample_header_def)
  obtain cfg stored unc data where
    s: "StoreHeader (\<lambda>d. Inr d) (\<lambda>_. None :: unit option) (Some sample_v4) = Inr (cfg, stored, unc, data)"
    unfolding StoreHeader_sealed(1) [OF inc v]
    by (simp add: serializeV4_def b seal_block_def compressLZ4_def store_sealed_succeeds u32c.length_enc
        buildmapc.length_enc sample_entries v4MaxUncompressedHeaderSize_def)
  from V4_store_load [OF v sample_v4_writable identity_lz4 s] s show ?thesis by blast
qed

section \<open>Backfilling\<close>

lemma backfill_fold:
  "lookup_build (fold (\<lambda>bid blds.
      if lookup_build blds bid \<noteq> None then blds
      else if P bid then blds
      else Some (AList.update bid zero_BuildData (case blds of None \<Rightarrow> [] | Some t \<Rightarrow> t))) ids t) b =
   (if lookup_build t b \<noteq> None then lookup_build t b
    else if b \<in> set ids \<and> \<not> P b then Some zero_BuildData else None)"
proof (induction ids arbitrary: t)
  case (Cons i ids)
  have "lookup_build (Some (AList.update i zero_BuildData (case t of None \<Rightarrow> [] | Some t \<Rightarrow> t))) b =
      (if b = i then Some zero_BuildData else lookup_build t b)"
    by (auto simp: lookup_build_def update_conv split: option.split)
  then show ?case by (auto simp: Cons.IH simp del: not_None_eq)
qed simp

text \<open>
  What \<open>LoadHeader\<close> adds to a complete header: every build that the mapping refers to and that has
  no entry gets the zero entry, "uncompressed, size unknown", in a header before V4; in a V4 or later
  header only the header's own build does, so that a missing ancestor stays missing. Entries that
  exist, the metadata and the mapping are left alone.
\<close>

theorem backfill_correct:
  "lookup_build (h_Builds (backfillMissingV3UncompressedBuilds h)) b =
     (case lookup_build (h_Builds h) b of
        Some bd \<Rightarrow> Some bd
      | None \<Rightarrow>
          if b \<in> set (builds (h_Mapping h)) \<and>
             (metadataFormatVersion (md_Version (h_Metadata h)) < MetadataVersionV4 \<or> b = md_BuildId (h_Metadata h))
          then Some zero_BuildData else None) \<and>
   h_Metadata (backfillMissingV3UncompressedBuilds h) = h_Metadata h \<and>
   h_Mapping (backfillMissingV3UncompressedBuilds h) = h_Mapping h"
  unfolding backfillMissingV3UncompressedBuilds_def Let_def
  using backfill_fold [where P = "\<lambda>bid. metadataFormatVersion (md_Version (h_Metadata h)) \<ge> MetadataVersionV4 \<and>
    bid \<noteq> md_BuildId (h_Metadata h)" and b = b and t = "h_Builds h" and ids = "builds (h_Mapping h)"]
  by (auto simp del: not_None_eq split: option.split)

end
