(* ===== verification/V5_Roundtrip.thy ===== *)
theory V5_Roundtrip
  imports Header_Roundtrip
begin

text \<open>
  The columnar V5 format: the four columns of the entries that have data are read back exactly, and
  the loop that rebuilds the zero regions between them gives a mapping in which every byte of the
  device resolves as before.
\<close>

section \<open>The columns\<close>

lemma u32_le_maxBlockIdx: "ucast (w :: u32) \<le> maxBlockIdx"
  using unsigned_less [of w, where 'a = nat] by (simp add: word_le_nat_alt maxBlockIdx_def)

lemma ucast_u64_u32: "ucast (ucast (w :: u32) :: u64) = w"
  by (rule bit_word_eqI) (simp add: bit_simps)

lemma ucast_u64_u16: "ucast (ucast (w :: u16) :: u64) = w"
  by (rule bit_word_eqI) (simp add: bit_simps)

lemma unat_ucast_u16 [simp]: "unat (ucast (w :: u16) :: u64) = unat w"
  using unsigned_less [of w, where 'a = nat] by (simp add: unsigned_ucast_eq take_bit_nat_eq_self_iff)

lemma read_offsets_enc:
  "sorted vs \<Longrightarrow> \<forall>v \<in> set vs. prev \<le> ucast v \<Longrightarrow>
   read_offsets (length vs) prev (offset_deltas prev vs @ rest) = Inr (vs, rest)"
proof (induction vs arbitrary: prev)
  case (Cons v vs)
  let ?off = "ucast v :: u64"
  have "?off - prev \<le> ?off" using Cons.prems by (auto intro: word_sub_le)
  then have "?off - prev \<le> maxBlockIdx" using u32_le_maxBlockIdx [of v] by (rule order_trans)
  moreover have "\<forall>w \<in> set vs. ?off \<le> ucast w" using Cons.prems(1) by (simp add: word_le_nat_alt)
  ultimately show ?case
    using Cons u32_le_maxBlockIdx [of v] by (simp add: Let_def read_put_uvarint not_less ucast_u64_u32)
qed simp

lemma read_lengths_enc:
  "read_lengths (length vs) (concat (map (\<lambda>v. put_uvarint (ucast v)) vs) @ rest) = Inr (vs, rest)"
  by (induction vs) (simp_all add: read_put_uvarint not_less u32_le_maxBlockIdx ucast_u64_u32)

lemma sint_col: "0 \<le> sint (ucast (w :: u32) :: u64)" "sint (ucast w :: u64) \<le> sint maxBlockIdx"
proof -
  have w: "unat w < 2 ^ 32" using unsigned_less [of w, where 'a = nat] by simp
  then have "sint (ucast w :: u64) = int (unat w)" by (subst sint_small_u64) simp_all
  then show "0 \<le> sint (ucast w :: u64)" "sint (ucast w :: u64) \<le> sint maxBlockIdx"
    using w by (simp_all add: maxBlockIdx_def)
qed

lemma read_storage_enc:
  "read_storage (length vs) prev (storage_deltas prev vs @ rest) = Inr (vs, rest)"
  by (induction vs arbitrary: prev) (simp_all add: Let_def read_put_varint sint_col not_less ucast_u64_u32)

lemma read_indices_enc:
  "\<forall>v \<in> set vs. ucast v < m \<Longrightarrow>
   read_indices (length vs) m (concat (map (\<lambda>v. put_uvarint (ucast v)) vs) @ rest) = Inr (vs, rest)"
  by (induction vs) (simp_all add: read_put_uvarint not_le ucast_u64_u16)

lemma length_offset_deltas: "length vs \<le> length (offset_deltas prev vs)"
proof (induction vs arbitrary: prev)
  case (Cons v vs)
  from Cons [of "ucast v"] length_put_uvarint [of "ucast v - prev"] show ?case by (simp add: Let_def)
qed simp

lemma length_storage_deltas: "length vs \<le> length (storage_deltas prev vs)"
proof (induction vs arbitrary: prev)
  case (Cons v vs)
  have "1 \<le> length (put_varint (ucast v - prev))" using length_put_uvarint by (simp add: put_varint_def)
  with Cons [of "ucast v"] show ?case by (simp add: Let_def)
qed simp

lemma length_uvarints: "length vs \<le> length (concat (map (\<lambda>v. put_uvarint (f v)) vs))"
proof (induction vs)
  case (Cons v vs)
  then show ?case using length_put_uvarint [of "f v"] by simp
qed simp

section \<open>The rows of a mapping\<close>

definition rows :: "Mapping \<Rightarrow> row list" where
  "rows m = zip (offsets m) (zip (lengths m) (zip (storage m) (buildIdx m)))"

abbreviation live :: "row list \<Rightarrow> row list" where
  "live rs \<equiv> filter (\<lambda>(off, len, sto, bi). bi \<noteq> nilBuildIdx) rs"

lemma entries_rows: "mapping_wf m \<Longrightarrow> entries m = map (row_entry (blockSize m) (builds m)) (rows m)"
  by (rule nth_equalityI) (auto simp: mapping_wf_def rows_def entry_at_def row_entry_def entries_def)

lemma live_cols:
  assumes "length offs = length bidx" "length lens = length bidx" "length sto = length bidx"
  shows "live_col bidx offs = Some (map (\<lambda>(o', l, s, i). o') (live (zip offs (zip lens (zip sto bidx)))))"
    "live_col bidx lens = Some (map (\<lambda>(o', l, s, i). l) (live (zip offs (zip lens (zip sto bidx)))))"
    "live_col bidx sto = Some (map (\<lambda>(o', l, s, i). s) (live (zip offs (zip lens (zip sto bidx)))))"
    "filter (\<lambda>i. i \<noteq> nilBuildIdx) bidx = map (\<lambda>(o', l, s, i). i) (live (zip offs (zip lens (zip sto bidx))))"
proof -
  have *: "length xs = length ys \<Longrightarrow> length ys = length zs \<Longrightarrow> length zs = length ws \<Longrightarrow>
      map fst (filter (\<lambda>(v, bi). bi \<noteq> nilBuildIdx) (zip xs ws)) = map (\<lambda>(o', l, s, i). o') (live (zip xs (zip ys (zip zs ws)))) \<and>
      map fst (filter (\<lambda>(v, bi). bi \<noteq> nilBuildIdx) (zip ys ws)) = map (\<lambda>(o', l, s, i). l) (live (zip xs (zip ys (zip zs ws)))) \<and>
      map fst (filter (\<lambda>(v, bi). bi \<noteq> nilBuildIdx) (zip zs ws)) = map (\<lambda>(o', l, s, i). s) (live (zip xs (zip ys (zip zs ws)))) \<and>
      filter (\<lambda>i. i \<noteq> nilBuildIdx) ws = map (\<lambda>(o', l, s, i). i) (live (zip xs (zip ys (zip zs ws))))"
    for xs :: "u32 list" and ys zs :: "u32 list" and ws
    by (induction xs ys zs ws rule: list_induct4) auto
  show "live_col bidx offs = Some (map (\<lambda>(o', l, s, i). o') (live (zip offs (zip lens (zip sto bidx)))))"
    "live_col bidx lens = Some (map (\<lambda>(o', l, s, i). l) (live (zip offs (zip lens (zip sto bidx)))))"
    "live_col bidx sto = Some (map (\<lambda>(o', l, s, i). s) (live (zip offs (zip lens (zip sto bidx)))))"
    "filter (\<lambda>i. i \<noteq> nilBuildIdx) bidx = map (\<lambda>(o', l, s, i). i) (live (zip offs (zip lens (zip sto bidx))))"
    using * [of offs lens sto bidx] assms by (simp_all add: live_col_def)
qed

lemma zip_columns:
  "zip (map (\<lambda>(o', l, s, i). o') rs) (zip (map (\<lambda>(o', l, s, i). l) rs)
    (zip (map (\<lambda>(o', l, s, i). s) rs) (map (\<lambda>(o', l, s, i). i) rs))) = (rs :: row list)"
  by (induction rs) auto

section \<open>Rebuilding the zero regions\<close>

abbreviation page_entry :: "uuid list \<Rightarrow> row \<Rightarrow> BuildMap" where
  "page_entry blds r \<equiv> row_entry PageSize blds r"

lemma page_entry_nat:
  "mstart (page_entry blds (off, len, sto, bi)) = unat off * 4096"
  "mend (page_entry blds (off, len, sto, bi)) = (unat off + unat len) * 4096"
  "bm_ok (page_entry blds (off, len, sto, bi))"
proof -
  have P: "unat PageSize \<le> 2 ^ 30" "unat PageSize = 4096" by (simp_all add: PageSize_def)
  note m = unat_block_mult [OF P(1), of off] unat_block_mult [OF P(1), of len] unat_block_mult [OF P(1), of sto]
  show "mstart (page_entry blds (off, len, sto, bi)) = unat off * 4096"
    "mend (page_entry blds (off, len, sto, bi)) = (unat off + unat len) * 4096"
    "bm_ok (page_entry blds (off, len, sto, bi))"
    using m by (auto simp: row_entry_def mstart_def mend_def bm_ok_def P(2) add_mult_distrib)
qed

text \<open>The rows that \<open>readV5MappingSection\<close> hands to \<open>newMappingFromColumns\<close>: the result of the loop and
  the region after the last entry.\<close>

definition closed_rows :: "u64 \<Rightarrow> row list \<times> u32 \<Rightarrow> row list" where
  "closed_rows sizeBlocks rc =
     (if ucast (snd rc) < sizeBlocks
      then fst rc @ [(snd rc, ucast sizeBlocks - snd rc, 0, nilBuildIdx)] else fst rc)"

lemma closed_rows_Cons: "closed_rows sb (xs @ ys, c) = xs @ closed_rows sb (ys, c)"
  by (simp add: closed_rows_def)

lemma gap_entry:
  assumes "cur0 < cur"
  shows "mstart (page_entry blds (cur0, cur - cur0, 0, nilBuildIdx)) = unat cur0 * 4096"
    "mend (page_entry blds (cur0, cur - cur0, 0, nilBuildIdx)) = unat cur * 4096"
    "source_of (page_entry blds (cur0, cur - cur0, 0, nilBuildIdx)) p = Zeros"
  using assms by (simp_all add: page_entry_nat word_less_nat_alt unat_sub word_le_nat_alt source_of_def)
    (simp add: row_entry_def build_at_def)

lemma fill_gaps_ok:
  assumes "contiguous (unat cur * 4096) (map (page_entry blds) rs) (unat sb * 4096)" and "cur0 \<le> cur"
    and "\<forall>(off, len, sto, bi) \<in> set rs. bi \<noteq> nilBuildIdx \<longrightarrow> len \<noteq> 0" and sb: "sb \<le> maxBlockIdx"
  shows "\<exists>rc. (fill_gaps sb cur0 (live rs) :: 'l ser_error + _) = Inr rc \<and>
    contiguous (unat cur0 * 4096) (map (page_entry blds) (closed_rows sb rc)) (unat sb * 4096) \<and>
    (\<forall>p. resolve (map (page_entry blds) (closed_rows sb rc)) p =
      (if unat cur0 * 4096 \<le> p \<and> p < unat cur * 4096 then Some Zeros
       else resolve (map (page_entry blds) rs) p)) \<and>
    (\<forall>(off, len, sto, bi) \<in> set (closed_rows sb rc). bi = nilBuildIdx \<or> (\<exists>(o', l, s, b) \<in> set rs. bi = b))"
  using assms(1-3)
proof (induction rs arbitrary: cur cur0)
  case Nil
  have sb32: "unat (ucast sb :: u32) = unat sb" "ucast (ucast sb :: u32) = sb"
    using sb by (simp_all add: unat_ucast_u64_u32 ucast_u32_u64 word_le_nat_alt maxBlockIdx_def)
  have cur: "cur = ucast sb" using Nil.prems(1) sb32(1) by (metis contiguous.simps(1) list.simps(8)
        mult_right_cancel unat_inject zero_neq_numeral)
  show ?case
  proof (cases "cur0 < cur")
    case True
    then have "ucast cur0 < sb" using cur sb32(1) by (simp add: word_less_nat_alt)
    with True show ?thesis
      using gap_entry [OF True, of blds] cur sb32
      by (auto simp: closed_rows_def page_entry_nat(3))
  next
    case False
    then have "cur0 = cur" using Nil.prems(2) by simp
    moreover have "\<not> ucast cur < sb" using cur sb32(2) by simp
    ultimately show ?thesis using Nil.prems(1) by (simp add: closed_rows_def)
  qed
next
  case (Cons r rs)
  obtain off len sto bi where r: "r = (off, len, sto, bi)" by (cases r)
  have off: "off = cur" and c: "contiguous ((unat cur + unat len) * 4096) (map (page_entry blds) rs) (unat sb * 4096)"
    using Cons.prems(1) by (auto simp: r page_entry_nat)
  have le: "unat cur + unat len \<le> unat sb" using contiguous_le [OF c] by simp
  then have lt32: "unat cur + unat len < 2 ^ 32" using sb by (simp add: word_le_nat_alt maxBlockIdx_def)
  have e: "unat (ucast cur + ucast len :: u64) = unat cur + unat len" using lt32 by (simp add: unat_add_u64)
  then have e32: "unat (ucast (ucast cur + ucast len :: u64) :: u32) = unat cur + unat len"
    using lt32 by (simp add: unat_ucast_u64_u32)
  let ?next = "ucast (ucast cur + ucast len :: u64) :: u32"
  have rest: "\<forall>(off, len, sto, bi) \<in> set rs. bi \<noteq> nilBuildIdx \<longrightarrow> len \<noteq> 0" using Cons.prems(3) by auto
  have c': "contiguous (unat ?next * 4096) (map (page_entry blds) rs) (unat sb * 4096)" using c e32 by simp
  show ?case
  proof (cases "bi = nilBuildIdx")
    case True
    have "cur0 \<le> ?next" using Cons.prems(2) e32 by (simp add: word_le_nat_alt)
    from Cons.IH [OF c' this rest] obtain rc where
      rc: "(fill_gaps sb cur0 (live rs) :: 'l ser_error + _) = Inr rc"
        "contiguous (unat cur0 * 4096) (map (page_entry blds) (closed_rows sb rc)) (unat sb * 4096)"
        "\<And>p. resolve (map (page_entry blds) (closed_rows sb rc)) p =
          (if unat cur0 * 4096 \<le> p \<and> p < (unat cur + unat len) * 4096 then Some Zeros
           else resolve (map (page_entry blds) rs) p)"
        "\<forall>(off, len, sto, bi) \<in> set (closed_rows sb rc). bi = nilBuildIdx \<or> (\<exists>(o', l, s, b) \<in> set rs. bi = b)"
      unfolding e32 by blast
    have z: "source_of (page_entry blds r) p = Zeros" for p
      by (simp add: r True row_entry_def build_at_def source_of_def)
    have "unat cur0 \<le> unat cur" using Cons.prems(2) by (simp add: word_le_nat_alt)
    then have "resolve (map (page_entry blds) (closed_rows sb rc)) p =
        (if unat cur0 * 4096 \<le> p \<and> p < unat cur * 4096 then Some Zeros
         else resolve (map (page_entry blds) (r # rs)) p)" for p
      using z [of p] rc(3) [of p] by (auto simp: r off page_entry_nat)
    then show ?thesis using rc(1,2,4) True by (force simp: r)
  next
    case False
    from Cons.IH [OF c' order_refl rest] obtain rc where
      rc: "(fill_gaps sb ?next (live rs) :: 'l ser_error + _) = Inr rc"
        "contiguous ((unat cur + unat len) * 4096) (map (page_entry blds) (closed_rows sb rc)) (unat sb * 4096)"
        "\<And>p. resolve (map (page_entry blds) (closed_rows sb rc)) p = resolve (map (page_entry blds) rs) p"
        "\<forall>(off, len, sto, bi) \<in> set (closed_rows sb rc). bi = nilBuildIdx \<or> (\<exists>(o', l, s, b) \<in> set rs. bi = b)"
      unfolding e32 by (metis (no_types, lifting) linorder_not_less)
    define gap where "gap = (if cur > cur0 then [(cur0, cur - cur0, 0 :: u32, nilBuildIdx)] else [])"
    have len: "len \<noteq> 0" using Cons.prems(3) r False by auto
    have "\<not> ucast cur + ucast len > sb" using e le by (simp add: word_less_nat_alt)
    then have f: "(fill_gaps sb cur0 (live (r # rs)) :: 'l ser_error + _) = Inr (gap @ r # fst rc, snd rc)"
      using False len Cons.prems(2) rc(1) by (cases rc) (auto simp: r off gap_def not_less Let_def)
    have cl: "closed_rows sb (gap @ r # fst rc, snd rc) = gap @ r # closed_rows sb rc"
      using closed_rows_Cons [of sb "gap @ [r]" "fst rc" "snd rc"] by simp
    have g: "contiguous (unat cur0 * 4096) (map (page_entry blds) gap) (unat cur * 4096)"
      "resolve (map (page_entry blds) gap) p = (if unat cur0 * 4096 \<le> p \<and> p < unat cur * 4096 then Some Zeros else None)" for p
      using Cons.prems(2) gap_entry [of cur0 cur blds] by (auto simp: gap_def page_entry_nat(3))
    have "contiguous (unat cur0 * 4096) (map (page_entry blds) (gap @ r # closed_rows sb rc)) (unat sb * 4096)"
      unfolding map_append by (rule contiguous_append [OF g(1)]) (use rc(2) in \<open>simp add: r off page_entry_nat\<close>)
    moreover have "resolve (map (page_entry blds) (gap @ r # closed_rows sb rc)) p =
      (if unat cur0 * 4096 \<le> p \<and> p < unat cur * 4096 then Some Zeros
       else resolve (map (page_entry blds) (r # rs)) p)" for p
      unfolding map_append resolve_append g(2) using rc(3) by simp
    moreover have "\<forall>(off, len, sto, bi) \<in> set (gap @ r # closed_rows sb rc).
        bi = nilBuildIdx \<or> (\<exists>(o', l, s, b) \<in> set (r # rs). bi = b)"
      using rc(4) by (force simp: gap_def r)
    ultimately show ?thesis using f cl by auto
  qed
qed

section \<open>The mapping section\<close>

text \<open>What V5 needs beyond \<open>writable\<close>: a mapping that covers the device, no empty entry with data, and no
  more entries with data than the reader's memory bound.\<close>

definition v5_mapping :: "Mapping \<Rightarrow> u64 \<Rightarrow> bool" where
  "v5_mapping m sz \<longleftrightarrow> paged_mapping m \<and> unat sz < 2 ^ 44 \<and> contiguous 0 (entries m) (unat sz) \<and>
     (\<forall>(off, len, sto, bi) \<in> set (rows m). bi \<noteq> nilBuildIdx \<longrightarrow> len \<noteq> 0) \<and>
     length (live (rows m)) \<le> maxEntriesByMemory"

lemma columns_ok:
  assumes "\<forall>(off, len, sto, bi) \<in> set rs. bi = nilBuildIdx \<or> unat bi < length blds"
  shows "\<exists>m. columns PageSize blds rs = Inr m \<and> mapping_wf m \<and> blockSize m = PageSize \<and>
    entries m = map (page_entry blds) rs \<and> builds m = blds"
proof -
  let ?m = "\<lparr>blockSize = PageSize, builds = blds, offsets = map (\<lambda>(o', l, s, i). o') rs, lengths = map (\<lambda>(o', l, s, i). l) rs,
    storage = map (\<lambda>(o', l, s, i). s) rs, buildIdx = map (\<lambda>(o', l, s, i). i) rs\<rparr> :: Mapping"
  have n: "newMappingFromColumns PageSize blds (map (\<lambda>(o', l, s, i). o') rs) (map (\<lambda>(o', l, s, i). l) rs)
      (map (\<lambda>(o', l, s, i). s) rs) (map (\<lambda>(o', l, s, i). i) rs) = Inr ?m"
    using assms by (auto simp: newMappingFromColumns_def Let_def list_ex_iff)
  have wf: "mapping_wf ?m" by (rule newMappingFromColumns_wf [OF n]) (simp add: PageSize_def)
  have "entries ?m = map (page_entry blds) rs" by (simp add: entries_rows [OF wf] rows_def zip_columns)
  with n wf show ?thesis by (simp add: columns_def)
qed

lemma live_offsets_sorted:
  assumes "mapping_wf m" "sorted (offsets m)"
  shows "sorted (map (\<lambda>(o', l, s, i). o') (live (rows m)))"
proof -
  have len: "length (lengths m) = length (offsets m)" "length (storage m) = length (offsets m)"
    "length (buildIdx m) = length (offsets m)" using assms(1) by (auto simp: mapping_wf_def)
  have "(\<lambda>(o' :: u32, l :: u32, s :: u32, i :: u16). o') = fst" by auto
  then have "map (\<lambda>(o', l, s, i). o') (rows m) = offsets m" using len by (simp add: rows_def)
  then have "sorted (map (\<lambda>(o', l, s, i). o') (rows m))" using assms(2) by simp
  then show ?thesis by (rule sorted_filter)
qed

text \<open>The counts of the section and their checks, over the columns as they are read.\<close>

lemma readV5_sections:
  assumes "sz mod PageSize = 0" "sz div PageSize \<le> maxBlockIdx" "length blds \<le> maxBuildsPerHeader"
    "unat (word_of_nat (length blds) :: u32) = length blds" "unat (word_of_nat n :: u32) = n"
    "n \<le> maxEntriesByMemory" "n \<le> length r3 div 4"
    and cols: "(read_offsets n 0 r3 :: 'l ser_error + _) = Inr (offs, r4)"
      "(read_lengths n r4 :: 'l ser_error + _) = Inr (lens, r5)"
      "(read_storage n 0 r5 :: 'l ser_error + _) = Inr (sto, r6)"
      "(read_indices n (ucast (word_of_nat (length blds) :: u32)) r6 :: 'l ser_error + _) = Inr (idx, r7)"
  shows "(readV5MappingSection (u32_enc (word_of_nat (length blds)) @ concat (map uuid_enc blds) @
      u32_enc (word_of_nat n) @ r3) PageSize sz :: 'l ser_error + _) =
    (if n = 0 then (if sz = 0 then columns PageSize blds []
       else columns PageSize blds [(0, ucast (sz div PageSize), 0, nilBuildIdx)])
     else bind_res (fill_gaps (sz div PageSize) 0 (zip offs (zip lens (zip sto idx))))
       (\<lambda>rc. columns PageSize blds (closed_rows (sz div PageSize) rc)))"
proof -
  have b: "read_many (length blds) 16 uuid_dec (concat (map uuid_enc blds) @ rest) = Inr (blds, rest)"
    "\<not> length (concat (map uuid_enc blds) @ rest) div 16 < length blds" for rest
    by (rule uuidc.read_many_enc) (simp add: uuidc.length_concat)
  have n0: "(word_of_nat n :: u32) = 0 \<longleftrightarrow> n = 0" using assms(5) by (metis unat_0 unat_eq_0_iff)
  have caps: "\<not> maxV5MappingEntries < n" "\<not> min (length r3 div 4) maxEntriesByMemory < n"
    using assms(6,7) by (simp_all add: maxEntriesByMemory_def v4MaxUncompressedHeaderSize_def maxV5MappingEntries_def)
  have cl: "(\<lambda>(rows, current). columns PageSize blds
      (if ucast current < sz div PageSize then rows @ [(current, ucast (sz div PageSize) - current, 0, nilBuildIdx)]
       else rows)) = (\<lambda>rc. columns PageSize blds (closed_rows (sz div PageSize) rc) :: 'l ser_error + Mapping)"
    by (auto simp: closed_rows_def fun_eq_iff)
  have nb: "\<not> maxBuildsPerHeader < length blds" "\<not> maxBlockIdx < sz div PageSize" using assms(2,3) by simp_all
  show ?thesis
  proof (cases "n = 0")
    case True
    then show ?thesis
      unfolding readV5MappingSection_def Let_def u32c.read_enc sum.case prod.case assms(4,5)
      using assms(1) nb caps b by (simp add: u32c.read_enc del: length_append)
  next
    case False
    then show ?thesis
      unfolding readV5MappingSection_def Let_def u32c.read_enc sum.case prod.case assms(4,5)
      using assms(1) nb caps b n0 cols cl by (simp only: if_False if_True not_True_eq_False not_False_eq_True simp_thms
        bind_res_simps sum.case prod.case u32c.read_enc assms(5))
  qed
qed

lemma v5_section_roundtrip:
  assumes v5: "v5_mapping m sz"
  shows "\<exists>b m'. (writeV5MappingSection m :: 'l ser_error + _) = Inr b \<and>
    (readV5MappingSection b PageSize sz :: 'l ser_error + _) = Inr m' \<and> mapping_wf m' \<and> blockSize m' = PageSize \<and>
    contiguous 0 (entries m') (unat sz) \<and> (\<forall>p. resolve (entries m') p = resolve (entries m) p)"
proof -
  have wf: "mapping_wf m" and bsz: "blockSize m = PageSize" and nb: "length (builds m) \<le> maxBuildsPerHeader"
    and c: "contiguous 0 (entries m) (unat sz)" and sz44: "unat sz < 2 ^ 44"
    and nz: "\<forall>(off, len, sto, bi) \<in> set (rows m). bi \<noteq> nilBuildIdx \<longrightarrow> len \<noteq> 0"
    and cap: "length (live (rows m)) \<le> maxEntriesByMemory"
    using v5 by (auto simp: v5_mapping_def paged_mapping_def)
  have len: "length (lengths m) = length (buildIdx m)" "length (storage m) = length (buildIdx m)"
    "length (offsets m) = length (buildIdx m)" using wf by (auto simp: mapping_wf_def)
  let ?L = "live (rows m)" let ?n = "length ?L"
  let ?offs = "map (\<lambda>(o', l, s, i). o') ?L" and ?lens = "map (\<lambda>(o', l, s, i). l) ?L"
    and ?sto = "map (\<lambda>(o', l, s, i). s) ?L" and ?idx = "map (\<lambda>(o', l, s, i). i) ?L"
  note cols = live_cols [OF len(3,1,2), folded rows_def]
  let ?r3 = "offset_deltas 0 ?offs @ concat (map (\<lambda>v. put_uvarint (ucast v)) ?lens) @ storage_deltas 0 ?sto @
    concat (map (\<lambda>v. put_uvarint (ucast v)) ?idx)"
  let ?b = "u32_enc (word_of_nat (length (builds m))) @ concat (map uuid_enc (builds m)) @ u32_enc (word_of_nat ?n) @ ?r3"
  have w: "(writeV5MappingSection m :: 'l ser_error + _) = Inr ?b"
    unfolding writeV5MappingSection_def Let_def cols by (simp only: option.case prod.case length_map)
  let ?sb = "sz div PageSize"
  have page: "4096 dvd unat sz"
  proof -
    have "\<forall>e \<in> set (entries m). 4096 dvd mstart e \<and> 4096 dvd mend e"
      by (auto simp: entries_rows [OF wf] bsz page_entry_nat)
    then show ?thesis using contiguous_end_dvd [OF c, of 4096] by simp
  qed
  have sb: "sz mod PageSize = 0" "unat ?sb * 4096 = unat sz"
    using page by (simp_all add: PageSize_def unat_mod_distrib unat_div_distrib flip: unat_eq_0_iff)
  then have sbmax: "?sb \<le> maxBlockIdx" using sz44 by (simp add: word_le_nat_alt maxBlockIdx_def)
  have nb32: "unat (word_of_nat (length (builds m)) :: u32) = length (builds m)"
    using nb by (simp add: maxBuildsPerHeader_def nilBuildIdx_def unat_of_nat take_bit_nat_eq_self)
  have n32: "unat (word_of_nat ?n :: u32) = ?n"
    using cap by (simp add: maxEntriesByMemory_def v4MaxUncompressedHeaderSize_def unat_of_nat take_bit_nat_eq_self)
  have cap': "?n \<le> maxV5MappingEntries"
    using cap by (simp add: maxEntriesByMemory_def v4MaxUncompressedHeaderSize_def maxV5MappingEntries_def)
  have bytes: "?n \<le> length ?r3 div 4"
    using length_offset_deltas [of ?offs 0] length_storage_deltas [of ?sto 0]
      length_uvarints [where f = ucast and vs = ?lens] length_uvarints [where f = ucast and vs = ?idx]
    by (simp add: less_eq_div_iff_mult_less_eq)
  have idx: "\<forall>v \<in> set ?idx. unat v < length (builds m)"
    using wf len by (auto simp: rows_def mapping_wf_def dest!: in_set_zipE set_zip_rightD)
  have sorted: "sorted ?offs"
    using live_offsets_sorted [OF wf contiguous_offsets_sorted [OF c]] bsz
    by (simp add: small_blocks_def PageSize_def)
  have "contiguous (unat (0 :: u32) * 4096) (map (page_entry (builds m)) (rows m)) (unat ?sb * 4096)"
    using c sb(2) by (simp add: entries_rows [OF wf] bsz)
  from fill_gaps_ok [OF this order_refl nz sbmax, where 'l = 'l] obtain rc where
    rc: "(fill_gaps ?sb 0 ?L :: 'l ser_error + _) = Inr rc"
      "contiguous 0 (map (page_entry (builds m)) (closed_rows ?sb rc)) (unat sz)"
      "\<And>p. resolve (map (page_entry (builds m)) (closed_rows ?sb rc)) p = resolve (entries m) p"
      "\<forall>(off, len, sto, bi) \<in> set (closed_rows ?sb rc). bi = nilBuildIdx \<or> (\<exists>(o', l, s, b) \<in> set (rows m). bi = b)"
    by (auto simp: sb(2) entries_rows [OF wf] bsz)
  have "\<forall>(off, len, sto, bi) \<in> set (closed_rows ?sb rc). bi = nilBuildIdx \<or> unat bi < length (builds m)"
    using rc(4) wf len by (fastforce simp: rows_def mapping_wf_def dest!: in_set_zipE set_zip_rightD)
  from columns_ok [OF this, where 'a = 'l] obtain m' where
    m': "(columns PageSize (builds m) (closed_rows ?sb rc) :: 'l ser_error + _) = Inr m'" "mapping_wf m'"
      "blockSize m' = PageSize" "entries m' = map (page_entry (builds m)) (closed_rows ?sb rc)" by blast
  have i': "\<forall>v \<in> set ?idx. ucast v < (ucast (word_of_nat (length (builds m)) :: u32) :: u64)"
    using idx nb32 by (simp add: word_less_nat_alt)
  have "(readV5MappingSection ?b PageSize sz :: 'l ser_error + _) =
      (if ?n = 0 then (if sz = 0 then columns PageSize (builds m) []
         else columns PageSize (builds m) [(0, ucast ?sb, 0, nilBuildIdx)])
       else bind_res (fill_gaps ?sb 0 (zip ?offs (zip ?lens (zip ?sto ?idx))))
         (\<lambda>rc. columns PageSize (builds m) (closed_rows ?sb rc)))"
    by (rule readV5_sections [OF sb(1) sbmax nb nb32 n32 cap bytes _ _ _ _])
      (use read_offsets_enc [OF sorted, of 0] read_lengths_enc [of ?lens] read_storage_enc [of ?sto 0]
        read_indices_enc [OF i', of "[]"] in simp_all)
  note head = this [unfolded zip_columns]
  have rd: "(readV5MappingSection ?b PageSize sz :: 'l ser_error + _) = Inr m'"
  proof (cases "?n = 0")
    case True
    then have "rc = ([], 0)" using rc(1) by simp
    moreover have "sz = 0 \<longleftrightarrow> ?sb = 0" using sb(2) by (metis mult_is_0 unat_eq_0_iff zero_neq_numeral)
    ultimately show ?thesis unfolding head using m'(1) True
      by (auto simp: closed_rows_def word_gt_0)
  next
    case False
    then show ?thesis unfolding head using rc(1) m'(1) by (simp only: if_False bind_res_simps)
  qed
  show ?thesis using w rd m' rc(2,3) by auto
qed

section \<open>V5 headers\<close>

lemma serializeV5_roundtrip:
  assumes lz: "lz4_ok lz stream" and wr: "writable h" and v5: "v5_mapping (h_Mapping h) (md_Size (h_Metadata h))"
    and ser: "serializeV5 lz (h_Metadata h) (h_Builds h) (h_Mapping h) (h_IncompletePendingUpload h) = Inr (data, n)"
    and cap: "n \<le> v4MaxUncompressedHeaderSize"
  shows "\<exists>body h'. data = metadata_enc (h_Metadata h) @ body \<and>
    deserializeV5 stream (h_Metadata h) body = Inr h' \<and> wire_equal h h' \<and>
    contiguous 0 (entries (h_Mapping h')) (unat (md_Size (h_Metadata h))) \<and>
    (\<forall>p. resolve (entries (h_Mapping h')) p = resolve (entries (h_Mapping h)) p)"
proof -
  let ?m = "h_Mapping h" let ?md = "h_Metadata h"
  have wf: "mapping_wf ?m" and bs: "md_BlockSize ?md \<noteq> 0" and ok: "builds_ok (h_Builds h)"
    using wr by (auto simp: writable_def paged_mapping_def)
  from v5_section_roundtrip [OF v5, where 'l = 'a] obtain ms m' where
    m': "(writeV5MappingSection ?m :: 'a ser_error + _) = Inr ms"
      "(readV5MappingSection ms PageSize (md_Size ?md) :: 'a ser_error + _) = Inr m'" "mapping_wf m'"
      "blockSize m' = PageSize" "contiguous 0 (entries m') (unat (md_Size ?md))"
      "\<And>p. resolve (entries m') p = resolve (entries ?m) p" by blast
  from builds_section_roundtrip [OF wf ok, of ms, where 'l = 'a] obtain b blds' where
    b: "(writeV4BuildsSection (h_Builds h) ?m :: 'a ser_error + _) = Inr b"
      "(readV4BuildsSection (b @ ms) :: 'a ser_error + _) = Inr (blds', ms)"
      "\<forall>id. lookup_build blds' id = map_option (wire_build (extractRelevantRanges (entries ?m)) id) (lookup_build (h_Builds h) id)"
    by blast
  have n: "n = length (b @ ms)"
    using ser by (auto simp: serializeV5_def b(1) m'(1) seal_block_def bind_res_eq_Inr Let_def)
  then have "length (b @ ms) \<le> v4MaxUncompressedHeaderSize" using cap by simp
  from envelope_roundtrip [OF lz this, of ?md "h_IncompletePendingUpload h"] obtain body where
    body: "data = metadata_enc ?md @ body"
      "open_block stream body = Inr (if h_IncompletePendingUpload h then v4FlagIncomplete else 0, b @ ms)"
    using ser by (auto simp: serializeV5_def b(1) m'(1))
  let ?h' = "\<lparr>h_Metadata = ?md, h_Builds = blds', h_Mapping = m', h_IncompletePendingUpload = h_IncompletePendingUpload h\<rparr>"
  have "deserializeV5 stream ?md body = Inr ?h'"
    using bs by (simp add: deserializeV5_def body(2) b(2) m'(2) flag_bit)
  moreover have "wire_equal h ?h'" using m'(3,4) b(3) by (simp add: wire_equal_def)
  ultimately show ?thesis using body(1) m'(5,6) by auto
qed

text \<open>
  C22. V5 headers survive storage: whenever \<open>StoreHeader\<close> accepts a V5 header whose mapping covers the
  device and has at most as many data entries as the reader's memory bound, \<open>DeserializeBytes\<close> of the
  stored bytes succeeds with the same metadata and flag, a mapping that covers the device again, the
  trimmed build data, and every byte of the device resolves as before, although the zero regions are
  not stored.
\<close>

theorem V5_store_load:
  assumes "metadataFormatVersion (md_Version (h_Metadata h)) = MetadataVersionV5" and "writable h"
    and "v5_mapping (h_Mapping h) (md_Size (h_Metadata h))" and "lz4_ok lz stream"
    and "StoreHeader lz put (Some h) = Inr (cfg, stored, uncompressed, data)"
  shows "\<exists>h'. DeserializeBytes stream data = Inr h' \<and> wire_equal h h' \<and>
    contiguous 0 (entries (h_Mapping h')) (unat (md_Size (h_Metadata h))) \<and>
    (\<forall>p. resolve (entries (h_Mapping h')) p = resolve (entries (h_Mapping h)) p)"
proof -
  note inc = StoreHeader_complete [OF assms(5)]
  from assms(5) [unfolded StoreHeader_sealed(2) [OF inc assms(1)]] obtain n where
    "serializeV5 lz (h_Metadata h) (h_Builds h) (h_Mapping h) (h_IncompletePendingUpload h) = Inr (data, n)"
    "n \<le> v4MaxUncompressedHeaderSize" using inc by (auto elim: bind_store_sealed)
  from serializeV5_roundtrip [OF assms(4,2,3) this] assms(1) show ?thesis
    by (auto simp: DeserializeBytes_enc)
qed

definition sample_v5 :: Header where
  "sample_v5 = sample_header\<lparr>h_Metadata := (h_Metadata sample_header)\<lparr>md_Version := 5\<rparr>\<rparr>"

lemma sample_v5_mapping: "v5_mapping (h_Mapping sample_v5) (md_Size (h_Metadata sample_v5))"
proof -
  have "contiguous 0 (entries (h_Mapping sample_header)) 12288"
    by (simp add: sample_entries mstart_def mend_def bm_ok_def)
  moreover have "md_Size (h_Metadata sample_v5) = 12288"
    by (simp add: sample_v5_def sample_header_def NewTemplateMetadata_def)
  moreover have "rows (h_Mapping sample_header) = [(0, 2, 1, 0), (2, 1, 0, 65535)]"
    by (simp add: rows_def sample_header_def)
  ultimately show ?thesis
    using sample_writable
    by (simp add: v5_mapping_def writable_def nilBuildIdx_def maxEntriesByMemory_def
        v4MaxUncompressedHeaderSize_def sample_v5_def)
qed

theorem V5_store_load_witness:
  "\<exists>cfg stored unc data h'. StoreHeader (\<lambda>d. Inr d) (\<lambda>_. None :: unit option) (Some sample_v5) = Inr (cfg, stored, unc, data) \<and>
     DeserializeBytes (\<lambda>c. (c, None :: unit option)) data = Inr h' \<and> wire_equal sample_v5 h' \<and>
     resolve (entries (h_Mapping h')) 5000 = resolve (entries (h_Mapping sample_v5)) 5000"
proof -
  have v: "metadataFormatVersion (md_Version (h_Metadata sample_v5)) = MetadataVersionV5"
    by (simp add: sample_v5_def metadataFormatVersion_def metadataVersionMask_def MetadataVersionV5_def)
  have inc: "\<not> h_IncompletePendingUpload sample_v5" by (simp add: sample_v5_def sample_header_def)
  have w: "writable sample_v5" using sample_writable by (simp add: sample_v5_def writable_def)
  have sl: "Slice (h_Mapping sample_v5) = Some (entries (h_Mapping sample_header))"
    by (simp add: sample_v5_def sample_slice)
  have b: "writeV4BuildsSection (h_Builds sample_v5) (h_Mapping sample_v5) = Inr (u32_enc 0)"
    by (simp add: writeV4BuildsSection_def sl) (simp add: sample_v5_def sample_header_def)
  have ms: "writeV5MappingSection (h_Mapping sample_v5) = Inr (u32_enc 1 @ uuid_enc 7 @ u32_enc 1 @ [0, 2, 2, 0])"
    by (simp add: writeV5MappingSection_def sample_v5_def sample_header_def live_col_def nilBuildIdx_def
        put_uvarint.simps put_varint_def zigzag_def)
  obtain cfg stored unc data where
    s: "StoreHeader (\<lambda>d. Inr d) (\<lambda>_. None :: unit option) (Some sample_v5) = Inr (cfg, stored, unc, data)"
    unfolding StoreHeader_sealed(2) [OF inc v]
    by (simp add: serializeV5_def b ms seal_block_def compressLZ4_def store_sealed_succeeds u32c.length_enc
        uuidc.length_enc v4MaxUncompressedHeaderSize_def)
  from V5_store_load [OF v w sample_v5_mapping identity_lz4 s] s show ?thesis by blast
qed

section \<open>The entry bound of the reader\<close>

text \<open>The reader refuses more than \<open>maxEntriesByMemory\<close> data entries; the writer has no such check.\<close>

lemma readV5_too_many:
  assumes "length blds \<le> maxBuildsPerHeader" "maxEntriesByMemory < n" "n < 2 ^ 32"
  shows "\<exists>e. (readV5MappingSection (u32_enc (word_of_nat (length blds)) @ concat (map uuid_enc blds) @
      u32_enc (word_of_nat n) @ r3) PageSize sz :: 'l ser_error + _) = Inl e"
proof -
  have n32: "unat (word_of_nat n :: u32) = n" using assms(3) by (simp add: unat_of_nat take_bit_nat_eq_self)
  have nb32: "unat (word_of_nat (length blds) :: u32) = length blds"
    using assms(1) by (simp add: maxBuildsPerHeader_def nilBuildIdx_def unat_of_nat take_bit_nat_eq_self)
  have b: "read_many (length blds) 16 uuid_dec (concat (map uuid_enc blds) @ rest) = Inr (blds, rest)"
    "\<not> length (concat (map uuid_enc blds) @ rest) div 16 < length blds" for rest
    by (rule uuidc.read_many_enc) (simp add: uuidc.length_concat)
  have n0: "(word_of_nat n :: u32) \<noteq> 0" using n32 assms(2) by (metis not_less_zero unat_0)
  have caps: "min (length r3 div 4) maxEntriesByMemory < n" using assms(2) by simp
  show ?thesis
    unfolding readV5MappingSection_def Let_def u32c.read_enc sum.case prod.case n32 nb32
    using assms(1) b n0 caps by (simp add: u32c.read_enc n32 del: length_append)
qed

lemma writeV5_shape:
  assumes "mapping_wf m"
  shows "\<exists>r3. (writeV5MappingSection m :: 'l ser_error + _) =
    Inr (u32_enc (word_of_nat (length (builds m))) @ concat (map uuid_enc (builds m)) @
         u32_enc (word_of_nat (length (live (rows m)))) @ r3)"
proof -
  have "length (offsets m) = length (buildIdx m)" "length (lengths m) = length (buildIdx m)"
    "length (storage m) = length (buildIdx m)" using assms by (auto simp: mapping_wf_def)
  note cols = live_cols [OF this, folded rows_def]
  show ?thesis unfolding writeV5MappingSection_def Let_def cols by simp
qed

lemma serializeV5_too_many:
  assumes lz: "lz4_ok lz stream" and wr: "writable h" and n: "maxEntriesByMemory < length (live (rows (h_Mapping h)))"
    "length (live (rows (h_Mapping h))) < 2 ^ 32"
    and ser: "serializeV5 lz (h_Metadata h) (h_Builds h) (h_Mapping h) inc = Inr (data, k)"
    and cap: "k \<le> v4MaxUncompressedHeaderSize"
  shows "\<exists>body e. data = metadata_enc (h_Metadata h) @ body \<and> deserializeV5 stream (h_Metadata h) body = Inl e"
proof -
  let ?m = "h_Mapping h" let ?md = "h_Metadata h"
  have wf: "mapping_wf ?m" and bs: "md_BlockSize ?md \<noteq> 0" and ok: "builds_ok (h_Builds h)"
    and nb: "length (builds ?m) \<le> maxBuildsPerHeader"
    using wr by (auto simp: writable_def paged_mapping_def)
  from writeV5_shape [OF wf, where 'l = 'a] obtain ms where ms: "(writeV5MappingSection ?m :: 'a ser_error + _) = Inr ms"
    and "\<exists>e. (readV5MappingSection ms PageSize (md_Size ?md) :: 'a ser_error + _) = Inl e"
    using readV5_too_many [OF nb n, where 'l = 'a] by blast
  then obtain e where e: "(readV5MappingSection ms PageSize (md_Size ?md) :: 'a ser_error + _) = Inl e" by blast
  from builds_section_roundtrip [OF wf ok, of ms, where 'l = 'a] obtain b blds' where
    b: "(writeV4BuildsSection (h_Builds h) ?m :: 'a ser_error + _) = Inr b"
      "(readV4BuildsSection (b @ ms) :: 'a ser_error + _) = Inr (blds', ms)" by blast
  have "k = length (b @ ms)"
    using ser by (auto simp: serializeV5_def b(1) ms seal_block_def bind_res_eq_Inr Let_def)
  then have "length (b @ ms) \<le> v4MaxUncompressedHeaderSize" using cap by simp
  from envelope_roundtrip [OF lz this, of ?md inc] obtain body where
    body: "data = metadata_enc ?md @ body" "open_block stream body = Inr (if inc then v4FlagIncomplete else 0, b @ ms)"
    using ser by (auto simp: serializeV5_def b(1) ms)
  have "deserializeV5 stream ?md body = Inl e" using bs by (simp add: deserializeV5_def body(2) b(2) e)
  with body(1) show ?thesis by blast
qed

text \<open>
  C27. The guards of \<open>StoreHeader\<close> do not cover the entry bound of the V5 reader: a V5 header with more
  data entries than \<open>maxEntriesByMemory\<close> that \<open>StoreHeader\<close> accepts (and stores) can never be read
  back; \<open>DeserializeBytes\<close> of the stored bytes is an error.
\<close>

theorem V5_stored_unreadable:
  assumes "metadataFormatVersion (md_Version (h_Metadata h)) = MetadataVersionV5" and "writable h"
    and "maxEntriesByMemory < length (live (rows (h_Mapping h)))" "length (live (rows (h_Mapping h))) < 2 ^ 32"
    and "lz4_ok lz stream" and "StoreHeader lz put (Some h) = Inr (cfg, stored, uncompressed, data)"
  shows "\<exists>e. DeserializeBytes stream data = Inl e"
proof -
  note inc = StoreHeader_complete [OF assms(6)]
  from assms(6) [unfolded StoreHeader_sealed(2) [OF inc assms(1)]] obtain n where
    "serializeV5 lz (h_Metadata h) (h_Builds h) (h_Mapping h) False = Inr (data, n)"
    "n \<le> v4MaxUncompressedHeaderSize" by (auto elim: bind_store_sealed)
  from serializeV5_too_many [OF assms(5,2,3,4) this] assms(1) show ?thesis
    by (auto simp: DeserializeBytes_enc)
qed

text \<open>Such headers exist: a varint has at most ten bytes, so the columns of \<open>maxEntriesByMemory + 1\<close> entries
  stay below the cap of the write path.\<close>

lemma length_put_uvarint_le: "unat x < 128 ^ Suc k \<Longrightarrow> length (put_uvarint x) \<le> Suc k"
proof (induction k arbitrary: x)
  case 0
  then show ?case by (simp add: put_uvarint.simps [of x] word_le_nat_alt)
next
  case (Suc k)
  have "unat (drop_bit 7 x) < 128 ^ Suc k"
    using Suc.prems by (simp add: drop_bit_eq_div unat_div_distrib div_less_iff_less_mult)
  from Suc.IH [OF this] show ?case by (simp add: put_uvarint.simps [of x])
qed

lemma length_put_uvarint_10: "length (put_uvarint x) \<le> 10"
  using length_put_uvarint_le [of x 9] u64_bound [of x] by simp

lemma length_columns:
  "length (offset_deltas p vs) \<le> 10 * length vs" "length (storage_deltas q vs) \<le> 10 * length vs"
  "length (concat (map (\<lambda>v. put_uvarint (f v)) ws)) \<le> 10 * length ws"
proof -
  show "length (offset_deltas p vs) \<le> 10 * length vs"
    by (induction vs arbitrary: p) (simp_all add: Let_def add_le_mono length_put_uvarint_10)
  show "length (storage_deltas q vs) \<le> 10 * length vs"
    by (induction vs arbitrary: q) (simp_all add: Let_def put_varint_def add_le_mono length_put_uvarint_10)
  show "length (concat (map (\<lambda>v. put_uvarint (f v)) ws)) \<le> 10 * length ws"
    by (induction ws) (simp_all add: add_le_mono length_put_uvarint_10)
qed

definition huge_v5 :: Header where
  "huge_v5 =
     (let n = Suc maxEntriesByMemory in
      \<lparr>h_Metadata = (NewTemplateMetadata 7 4096 0)\<lparr>md_Version := 5\<rparr>, h_Builds = None,
       h_Mapping = \<lparr>blockSize = PageSize, builds = [7], offsets = replicate n 0, lengths = replicate n 1,
         storage = replicate n 0, buildIdx = replicate n 0\<rparr>, h_IncompletePendingUpload = False\<rparr>)"

lemma huge_v5_rows: "live (rows (h_Mapping huge_v5)) = replicate (Suc maxEntriesByMemory) (0, 1, 0, 0)"
  by (simp add: huge_v5_def rows_def Let_def zip_replicate nilBuildIdx_def filter_replicate del: replicate_Suc)

lemma huge_v5_block:
  "\<exists>ms. (writeV5MappingSection (h_Mapping huge_v5) :: 'l ser_error + _) = Inr ms \<and>
    length ms \<le> 24 + 40 * Suc maxEntriesByMemory"
proof -
  let ?n = "Suc maxEntriesByMemory"
  have lc: "live_col (replicate ?n (0 :: u16)) (replicate ?n v) = Some (replicate ?n v)" for v :: u32
    by (simp add: live_col_def zip_replicate nilBuildIdx_def filter_replicate del: replicate_Suc)
  have nn: "filter (\<lambda>i. i \<noteq> nilBuildIdx) (replicate ?n (0 :: u16)) = replicate ?n 0"
    by (simp add: nilBuildIdx_def filter_replicate del: replicate_Suc)
  let ?r3 = "offset_deltas 0 (replicate ?n 0) @ concat (map (\<lambda>v. put_uvarint (ucast v)) (replicate ?n (1 :: u32))) @
    storage_deltas 0 (replicate ?n 0) @ concat (map (\<lambda>v. put_uvarint (ucast v)) (replicate ?n (0 :: u16)))"
  have "(writeV5MappingSection (h_Mapping huge_v5) :: 'l ser_error + _) =
      Inr (u32_enc (word_of_nat (Suc 0)) @ uuid_enc 7 @ u32_enc (word_of_nat ?n) @ ?r3)"
    by (simp add: writeV5MappingSection_def huge_v5_def Let_def lc nn del: replicate_Suc map_replicate of_nat_Suc)
  moreover have "length ?r3 \<le> 40 * ?n"
    using length_columns(1) [where p = 0 and vs = "replicate ?n 0"] length_columns(2) [where q = 0 and vs = "replicate ?n 0"]
      length_columns(3) [where f = ucast and ws = "replicate ?n (1 :: u32)"]
      length_columns(3) [where f = ucast and ws = "replicate ?n (0 :: u16)"]
    by (simp del: replicate_Suc map_replicate)
  ultimately show ?thesis by (simp add: u32c.length_enc uuidc.length_enc del: replicate_Suc map_replicate)
qed

lemma huge_v5_writable: "writable huge_v5"
  by (simp add: writable_def paged_mapping_def mapping_wf_def huge_v5_def Let_def builds_ok_def NewTemplateMetadata_def
      PageSize_def maxBuildsPerHeader_def nilBuildIdx_def del: replicate_Suc)

theorem V5_stored_unreadable_witness:
  "\<exists>cfg stored unc data e. StoreHeader (\<lambda>d. Inr d) (\<lambda>_. None :: unit option) (Some huge_v5) = Inr (cfg, stored, unc, data) \<and>
     DeserializeBytes (\<lambda>c. (c, None :: unit option)) data = Inl e"
proof -
  have v: "metadataFormatVersion (md_Version (h_Metadata huge_v5)) = MetadataVersionV5"
    by (simp add: huge_v5_def Let_def metadataFormatVersion_def metadataVersionMask_def MetadataVersionV5_def)
  have inc: "\<not> h_IncompletePendingUpload huge_v5" by (simp add: huge_v5_def Let_def)
  have n: "maxEntriesByMemory < length (live (rows (h_Mapping huge_v5)))"
    "length (live (rows (h_Mapping huge_v5))) < 2 ^ 32"
    unfolding huge_v5_rows by (simp_all add: maxEntriesByMemory_def v4MaxUncompressedHeaderSize_def del: replicate_Suc)
  obtain ms where ms: "(writeV5MappingSection (h_Mapping huge_v5) :: unit ser_error + _) = Inr ms" "length ms \<le> 24 + 40 * Suc maxEntriesByMemory"
    using huge_v5_block by blast
  have "Slice (h_Mapping huge_v5) = Some (entries (h_Mapping huge_v5))"
    using huge_v5_writable by (simp add: writable_def paged_mapping_def Slice_wf)
  then have b: "writeV4BuildsSection (h_Builds huge_v5) (h_Mapping huge_v5) = Inr (u32_enc 0)"
    by (simp add: writeV4BuildsSection_def) (simp add: huge_v5_def Let_def)
  have "length (u32_enc 0 @ ms) \<le> v4MaxUncompressedHeaderSize"
    using ms(2) by (simp add: u32c.length_enc maxEntriesByMemory_def v4MaxUncompressedHeaderSize_def)
  then obtain cfg stored unc data where
    s: "StoreHeader (\<lambda>d. Inr d) (\<lambda>_. None :: unit option) (Some huge_v5) = Inr (cfg, stored, unc, data)"
    unfolding StoreHeader_sealed(2) [OF inc v]
    by (simp add: serializeV5_def b ms(1) seal_block_def compressLZ4_def store_sealed_succeeds)
  from V5_stored_unreadable [OF v huge_v5_writable n identity_lz4 s] s show ?thesis by blast
qed

end
