(* ===== verification/Bitmaps.thy ===== *)
theory Bitmaps
  imports Diff_Header
begin

text \<open>
  The interface of roaring bitmaps, a third-party package that the block layer builds on: the operations it
  calls are the fields of a record that every definition takes, their documented behaviour is the locale
  \<open>roaring\<close> over the set of members. The theory holds no code of the repository.
\<close>

section \<open>Roaring bitmaps\<close>

record 'bm roaring_ops =
  bm_New :: 'bm
  bm_Add :: "u32 \<Rightarrow> 'bm \<Rightarrow> 'bm"
  bm_Remove :: "u32 \<Rightarrow> 'bm \<Rightarrow> 'bm"
  bm_AddRange :: "u64 \<Rightarrow> u64 \<Rightarrow> 'bm \<Rightarrow> 'bm"
  bm_RemoveRange :: "u64 \<Rightarrow> u64 \<Rightarrow> 'bm \<Rightarrow> 'bm"
  bm_AndNot :: "'bm \<Rightarrow> 'bm \<Rightarrow> 'bm"
  bm_Or :: "'bm \<Rightarrow> 'bm \<Rightarrow> 'bm"
  bm_Contains :: "'bm \<Rightarrow> u32 \<Rightarrow> bool"
  bm_CardinalityInRange :: "'bm \<Rightarrow> u64 \<Rightarrow> u64 \<Rightarrow> u64"
  bm_GetCardinality :: "'bm \<Rightarrow> u64"
  bm_ToArray :: "'bm \<Rightarrow> u32 list"
  bm_Ranges :: "'bm \<Rightarrow> ranges"

text \<open>The laws, over the set of members \<open>mem b\<close>, for the ranges of 32-bit indices.\<close>

locale roaring =
  fixes R :: "'bm roaring_ops" and mem :: "'bm \<Rightarrow> nat set"
  assumes mem_bound: "mem b \<subseteq> {..<2 ^ 32}"
    and New: "mem (bm_New R) = {}"
    and Add: "mem (bm_Add R w b) = insert (unat w) (mem b)"
    and Remove: "mem (bm_Remove R w b) = mem b - {unat w}"
    and AddRange: "unat e \<le> 2 ^ 32 \<Longrightarrow> mem (bm_AddRange R s e b) = mem b \<union> {unat s..<unat e}"
    and RemoveRange: "unat e \<le> 2 ^ 32 \<Longrightarrow> mem (bm_RemoveRange R s e b) = mem b - {unat s..<unat e}"
    and AndNot: "mem (bm_AndNot R b c) = mem b - mem c"
    and Or: "mem (bm_Or R b c) = mem b \<union> mem c"
    and Contains: "bm_Contains R b w \<longleftrightarrow> unat w \<in> mem b"
    and CardinalityInRange: "bm_CardinalityInRange R b s e = word_of_nat (card (mem b \<inter> {unat s..<unat e}))"
    and GetCardinality: "bm_GetCardinality R b = word_of_nat (card (mem b))"
    and ToArray: "map unat (bm_ToArray R b) = sorted_list_of_set (mem b)"
    and Ranges: "is_runs (bm_Ranges R b) (mem b)"
begin

lemmas bm_laws = New Add Remove AddRange RemoveRange AndNot Or Contains CardinalityInRange

lemma finite_mem [simp]: "finite (mem b)"
  using mem_bound [of b] by (rule finite_subset) simp

end

section \<open>A reference bitmap\<close>

text \<open>A bitmap as the set of its members: it satisfies every law above, so that they can hold together,
  and the examples below run on it.\<close>

definition set_roaring :: "u32 set roaring_ops" where
  "set_roaring = \<lparr>
     bm_New = {}, bm_Add = insert, bm_Remove = (\<lambda>w b. b - {w}),
     bm_AddRange = (\<lambda>s e b. b \<union> {i. unat s \<le> unat i \<and> unat i < unat e}),
     bm_RemoveRange = (\<lambda>s e b. b - {i. unat s \<le> unat i \<and> unat i < unat e}),
     bm_AndNot = (-), bm_Or = (\<union>), bm_Contains = (\<lambda>b w. w \<in> b),
     bm_CardinalityInRange = (\<lambda>b s e. word_of_nat (card {i \<in> b. unat s \<le> unat i \<and> unat i < unat e})),
     bm_GetCardinality = (\<lambda>b. word_of_nat (card b)),
     bm_ToArray = (\<lambda>b. map word_of_nat (sorted_list_of_set (unat ` b))),
     bm_Ranges = set_ranges\<rparr>"

lemma unat_word_of_nat_u32: "x < 2 ^ 32 \<Longrightarrow> unat (word_of_nat x :: u32) = x"
  by (simp add: unat_of_nat take_bit_nat_eq_self)

lemma unat_image_range:
  assumes "e \<le> 2 ^ 32"
  shows "unat ` {i :: u32. s \<le> unat i \<and> unat i < e} = {s..<e}"
proof (rule set_eqI)
  fix x
  show "x \<in> unat ` {i :: u32. s \<le> unat i \<and> unat i < e} \<longleftrightarrow> x \<in> {s..<e}"
    using assms unat_word_of_nat_u32 [of x] by (auto intro!: image_eqI [of _ _ "word_of_nat x"])
qed

lemma unat_image_diff: "unat ` (A - B) = unat ` A - unat ` (B :: u32 set)"
  by (rule image_set_diff) (simp add: inj_on_def)

interpretation sets: roaring set_roaring "\<lambda>b. unat ` b"
proof (unfold_locales, goal_cases)
  case (1 b)
  then show ?case using unsigned_less [where 'a = nat and 'b = 32] by auto
next
  case (5 e s b)
  then show ?case using unat_image_range [OF 5, of "unat s"] by (simp add: set_roaring_def image_Un)
next
  case (6 e s b)
  then show ?case using unat_image_range [OF 6, of "unat s"] by (simp add: set_roaring_def unat_image_diff)
next
  case (10 b s e)
  have "unat ` b \<inter> {unat s..<unat e} = unat ` {i \<in> b. unat s \<le> unat i \<and> unat i < unat e}" by auto
  then show ?case by (simp add: set_roaring_def card_image inj_on_def)
next
  case (11 b)
  then show ?case by (simp add: set_roaring_def card_image inj_on_def)
next
  case (12 b)
  have "unat ` b \<subseteq> {..<2 ^ 32}" using unsigned_less [where 'a = nat and 'b = 32] by auto
  then show ?case by (auto simp: set_roaring_def unat_word_of_nat_u32 intro!: map_idI)
qed (auto simp: set_roaring_def set_ranges_runs)

end
