(* ===== verification/Page_Tracker.thy ===== *)
theory Page_Tracker
  imports Bitmaps
begin

text \<open>
  The page tracker of \<open>packages/orchestrator/pkg/sandbox/block/tracker.go\<close>: for every page index one
  of five states, kept in four bitmaps. Roaring bitmaps are a third-party package: their
  operations are the record that the definitions take, and their documented behaviour is the
  locale \<open>roaring\<close> of \<open>Bitmaps\<close>. The tracker's contract is the locale \<open>page_states\<close> over the abstract state of
  each page; the sublocale at the end shows that the four bitmaps implement it.
\<close>

section \<open>States and the tracker\<close>

text \<open>\<open>State\<close> is a \<open>uint8\<close>; \<open>numStates\<close> stands for the sentinel and every value above it.\<close>

datatype State = NotPresent | Dirty | Zero | Removed | Clean | numStates

definition NumStates :: nat where "NumStates = 5"

fun state_String :: "State \<Rightarrow> string" where
  "state_String NotPresent = ''not_present''"
| "state_String Dirty = ''dirty''"
| "state_String Zero = ''zero''"
| "state_String Removed = ''removed''"
| "state_String Clean = ''clean''"
| "state_String numStates = ''unknown''"

record 'bm Tracker =
  t_dirty :: 'bm
  t_zero :: 'bm
  t_removed :: 'bm
  t_clean :: 'bm

definition NewTracker :: "'bm roaring_ops \<Rightarrow> 'bm Tracker" where
  "NewTracker R = \<lparr>t_dirty = bm_New R, t_zero = bm_New R, t_removed = bm_New R, t_clean = bm_New R\<rparr>"

text \<open>\<open>bitmapFor\<close> hands out a pointer to one of the four bitmaps; \<open>on_bitmapFor\<close> is a mutation through
  that pointer (both callers pass \<open>Zero\<close> or \<open>Clean\<close>, so the nil pointer is never followed).\<close>

fun bitmapFor :: "'bm Tracker \<Rightarrow> State \<Rightarrow> 'bm option" where
  "bitmapFor t Dirty = Some (t_dirty t)"
| "bitmapFor t Zero = Some (t_zero t)"
| "bitmapFor t Removed = Some (t_removed t)"
| "bitmapFor t Clean = Some (t_clean t)"
| "bitmapFor t NotPresent = None"
| "bitmapFor t numStates = None"

fun on_bitmapFor :: "State \<Rightarrow> ('bm \<Rightarrow> 'bm) \<Rightarrow> 'bm Tracker \<Rightarrow> 'bm Tracker" where
  "on_bitmapFor Dirty f t = t\<lparr>t_dirty := f (t_dirty t)\<rparr>"
| "on_bitmapFor Zero f t = t\<lparr>t_zero := f (t_zero t)\<rparr>"
| "on_bitmapFor Removed f t = t\<lparr>t_removed := f (t_removed t)\<rparr>"
| "on_bitmapFor Clean f t = t\<lparr>t_clean := f (t_clean t)\<rparr>"
| "on_bitmapFor NotPresent f t = t"
| "on_bitmapFor numStates f t = t"

definition stateOf :: "'bm roaring_ops \<Rightarrow> 'bm Tracker \<Rightarrow> u32 \<Rightarrow> State" where
  "stateOf R t idx =
     (if bm_Contains R (t_dirty t) idx then Dirty
      else if bm_Contains R (t_zero t) idx then Zero
      else if bm_Contains R (t_removed t) idx then Removed
      else if bm_Contains R (t_clean t) idx then Clean
      else NotPresent)"

definition Get :: "'bm roaring_ops \<Rightarrow> 'bm Tracker \<Rightarrow> u32 \<Rightarrow> State" where
  "Get R t idx = stateOf R t idx"

definition SetRange :: "'bm roaring_ops \<Rightarrow> u32 \<Rightarrow> u32 \<Rightarrow> State \<Rightarrow> 'bm Tracker \<Rightarrow> 'bm Tracker" where
  "SetRange R start end state t =
     (if end \<le> start then t
      else
        let s = ucast start; e = ucast end;
            bm = (\<lambda>owner b. if owner = state then bm_AddRange R s e b else bm_RemoveRange R s e b)
        in \<lparr>t_dirty = bm Dirty (t_dirty t), t_zero = bm Zero (t_zero t),
            t_removed = bm Removed (t_removed t), t_clean = bm Clean (t_clean t)\<rparr>)"

definition install_mask :: "'bm roaring_ops \<Rightarrow> u32 \<Rightarrow> u32 \<Rightarrow> 'bm Tracker \<Rightarrow> 'bm" where
  "install_mask R start end t =
     (let mask = bm_AddRange R (ucast start) (ucast end) (bm_New R);
          mask = bm_AndNot R mask (t_dirty t);
          mask = bm_AndNot R mask (t_zero t)
      in bm_AndNot R mask (t_clean t))"

definition install_masked :: "'bm roaring_ops \<Rightarrow> u32 \<Rightarrow> u32 \<Rightarrow> State \<Rightarrow> 'bm Tracker \<Rightarrow> 'bm Tracker" where
  "install_masked R start end state t =
     (let mask = install_mask R start end t;
          t' = t\<lparr>t_removed := bm_AndNot R (t_removed t) mask\<rparr>
      in on_bitmapFor state (\<lambda>b. bm_Or R b mask) t')"

definition MarkInstalled :: "'bm roaring_ops \<Rightarrow> u32 \<Rightarrow> u32 \<Rightarrow> State \<Rightarrow> 'bm Tracker \<Rightarrow> 'bm Tracker" where
  "MarkInstalled R start end state t =
     (if end \<le> start \<or> (state \<noteq> Zero \<and> state \<noteq> Clean) then t
      else if end - start = 1 then
        (case stateOf R t start of
           Removed \<Rightarrow> on_bitmapFor state (bm_Add R start) (t\<lparr>t_removed := bm_Remove R start (t_removed t)\<rparr>)
         | NotPresent \<Rightarrow> on_bitmapFor state (bm_Add R start) t
         | _ \<Rightarrow> t)
      else install_masked R start end state t)"

definition MarkWritten :: "'bm roaring_ops \<Rightarrow> u32 \<Rightarrow> 'bm Tracker \<Rightarrow> 'bm Tracker \<times> State" where
  "MarkWritten R idx t =
     (let prev = stateOf R t idx;
          add = (\<lambda>t. t\<lparr>t_dirty := bm_Add R idx (t_dirty t)\<rparr>)
      in case prev of
           Dirty \<Rightarrow> (t, prev)
         | Removed \<Rightarrow> (t, prev)
         | Zero \<Rightarrow> (add (t\<lparr>t_zero := bm_Remove R idx (t_zero t)\<rparr>), prev)
         | Clean \<Rightarrow> (add (t\<lparr>t_clean := bm_Remove R idx (t_clean t)\<rparr>), prev)
         | NotPresent \<Rightarrow> (add t, prev)
         | numStates \<Rightarrow> (add t, prev))"

definition MarkWrittenPresent :: "'bm roaring_ops \<Rightarrow> u32 \<Rightarrow> 'bm Tracker \<Rightarrow> 'bm Tracker \<times> State" where
  "MarkWrittenPresent R idx t =
     (let prev = stateOf R t idx in
      if prev = Dirty then (t, prev)
      else (\<lparr>t_dirty = bm_Add R idx (t_dirty t), t_zero = bm_Remove R idx (t_zero t),
             t_removed = bm_Remove R idx (t_removed t), t_clean = bm_Remove R idx (t_clean t)\<rparr>, prev))"

definition MarkExported :: "'bm roaring_ops \<Rightarrow> u32 \<Rightarrow> 'bm Tracker \<Rightarrow> 'bm Tracker" where
  "MarkExported R idx t =
     (if \<not> bm_Contains R (t_dirty t) idx then t
      else t\<lparr>t_dirty := bm_Remove R idx (t_dirty t), t_clean := bm_Add R idx (t_clean t)\<rparr>)"

definition HasRange :: "'bm roaring_ops \<Rightarrow> u32 \<Rightarrow> u32 \<Rightarrow> State \<Rightarrow> 'bm Tracker \<Rightarrow> bool" where
  "HasRange R start end state t =
     (if end \<le> start then end = start
      else case bitmapFor t state of
          None \<Rightarrow> False
        | Some bm \<Rightarrow> bm_CardinalityInRange R bm (ucast start) (ucast end) = ucast (end - start))"

definition Present :: "'bm roaring_ops \<Rightarrow> u32 \<Rightarrow> u32 \<Rightarrow> 'bm Tracker \<Rightarrow> bool" where
  "Present R start end t =
     (if end \<le> start then end = start
      else let s = ucast start; e = ucast end in
        bm_CardinalityInRange R (t_dirty t) s e + bm_CardinalityInRange R (t_zero t) s e +
        bm_CardinalityInRange R (t_removed t) s e + bm_CardinalityInRange R (t_clean t) s e = e - s)"

definition Export :: "'bm roaring_ops \<Rightarrow> 'bm Tracker \<Rightarrow> 'bm \<times> 'bm" where
  "Export R t = (t_dirty t, bm_Or R (t_zero t) (t_removed t))"

definition ExportStates :: "'bm Tracker \<Rightarrow> 'bm \<times> 'bm \<times> 'bm \<times> 'bm" where
  "ExportStates t = (t_dirty t, t_zero t, t_removed t, t_clean t)"

section \<open>The contract: one state per page\<close>

text \<open>The abstract effect of each operation on a map from pages to states.\<close>

definition spec_SetRange :: "u32 \<Rightarrow> u32 \<Rightarrow> State \<Rightarrow> (u32 \<Rightarrow> State) \<Rightarrow> u32 \<Rightarrow> State" where
  "spec_SetRange a b st m i = (if a \<le> i \<and> i < b then (if st = numStates then NotPresent else st) else m i)"

definition spec_MarkInstalled :: "u32 \<Rightarrow> u32 \<Rightarrow> State \<Rightarrow> (u32 \<Rightarrow> State) \<Rightarrow> u32 \<Rightarrow> State" where
  "spec_MarkInstalled a b st m i =
     (if a \<le> i \<and> i < b \<and> st \<in> {Zero, Clean} \<and> m i \<in> {NotPresent, Removed} then st else m i)"

definition spec_MarkWritten :: "u32 \<Rightarrow> (u32 \<Rightarrow> State) \<Rightarrow> u32 \<Rightarrow> State" where
  "spec_MarkWritten j m i = (if i = j \<and> m i \<noteq> Removed then Dirty else m i)"

definition spec_MarkWrittenPresent :: "u32 \<Rightarrow> (u32 \<Rightarrow> State) \<Rightarrow> u32 \<Rightarrow> State" where
  "spec_MarkWrittenPresent j m = m(j := Dirty)"

definition spec_MarkExported :: "u32 \<Rightarrow> (u32 \<Rightarrow> State) \<Rightarrow> u32 \<Rightarrow> State" where
  "spec_MarkExported j m i = (if i = j \<and> m i = Dirty then Clean else m i)"

lemmas spec_defs = spec_SetRange_def spec_MarkInstalled_def spec_MarkWritten_def
  spec_MarkWrittenPresent_def spec_MarkExported_def

locale page_states =
  fixes inv :: "'t \<Rightarrow> bool" and get :: "'t \<Rightarrow> u32 \<Rightarrow> State" and new :: 't
    and set_range install_range :: "u32 \<Rightarrow> u32 \<Rightarrow> State \<Rightarrow> 't \<Rightarrow> 't"
    and written written_present exported :: "u32 \<Rightarrow> 't \<Rightarrow> 't"
  assumes inv_new: "inv new" and get_new: "get new = (\<lambda>_. NotPresent)"
    and inv_set: "inv t \<Longrightarrow> inv (set_range a b st t)"
    and get_set: "inv t \<Longrightarrow> get (set_range a b st t) = spec_SetRange a b st (get t)"
    and inv_install: "inv t \<Longrightarrow> inv (install_range a b st t)"
    and get_install: "inv t \<Longrightarrow> get (install_range a b st t) = spec_MarkInstalled a b st (get t)"
    and inv_written: "inv t \<Longrightarrow> inv (written i t)"
    and get_written: "inv t \<Longrightarrow> get (written i t) = spec_MarkWritten i (get t)"
    and inv_present: "inv t \<Longrightarrow> inv (written_present i t)"
    and get_present: "inv t \<Longrightarrow> get (written_present i t) = spec_MarkWrittenPresent i (get t)"
    and inv_exported: "inv t \<Longrightarrow> inv (exported i t)"
    and get_exported: "inv t \<Longrightarrow> get (exported i t) = spec_MarkExported i (get t)"
begin

lemmas inv_laws = inv_new inv_set inv_install inv_written inv_present inv_exported
lemmas get_laws = get_new get_set get_install get_written get_present get_exported

end

text \<open>A history of calls, as the fault handler, the balloon and the exporter make them.\<close>

datatype tracker_op =
    OpSetRange u32 u32 State | OpMarkInstalled u32 u32 State | OpMarkWritten u32
  | OpMarkWrittenPresent u32 | OpMarkExported u32

fun run_op :: "'bm roaring_ops \<Rightarrow> tracker_op \<Rightarrow> 'bm Tracker \<Rightarrow> 'bm Tracker" where
  "run_op R (OpSetRange a b st) t = SetRange R a b st t"
| "run_op R (OpMarkInstalled a b st) t = MarkInstalled R a b st t"
| "run_op R (OpMarkWritten i) t = fst (MarkWritten R i t)"
| "run_op R (OpMarkWrittenPresent i) t = fst (MarkWrittenPresent R i t)"
| "run_op R (OpMarkExported i) t = MarkExported R i t"

fun spec_op :: "tracker_op \<Rightarrow> (u32 \<Rightarrow> State) \<Rightarrow> u32 \<Rightarrow> State" where
  "spec_op (OpSetRange a b st) m = spec_SetRange a b st m"
| "spec_op (OpMarkInstalled a b st) m = spec_MarkInstalled a b st m"
| "spec_op (OpMarkWritten i) m = spec_MarkWritten i m"
| "spec_op (OpMarkWrittenPresent i) m = spec_MarkWrittenPresent i m"
| "spec_op (OpMarkExported i) m = spec_MarkExported i m"

section \<open>The four bitmaps implement the contract\<close>

definition disjoint_bitmaps :: "('bm \<Rightarrow> nat set) \<Rightarrow> 'bm Tracker \<Rightarrow> bool" where
  "disjoint_bitmaps mem t \<longleftrightarrow>
     mem (t_dirty t) \<inter> mem (t_zero t) = {} \<and> mem (t_dirty t) \<inter> mem (t_removed t) = {} \<and>
     mem (t_dirty t) \<inter> mem (t_clean t) = {} \<and> mem (t_zero t) \<inter> mem (t_removed t) = {} \<and>
     mem (t_zero t) \<inter> mem (t_clean t) = {} \<and> mem (t_removed t) \<inter> mem (t_clean t) = {}"

lemma single_range:
  fixes start :: u32
  assumes "start < end" "end - start = 1"
  shows "start \<le> i \<and> i < end \<longleftrightarrow> i = start"
proof -
  have "unat end - unat start = 1" using assms unat_sub [of start "end"] by simp
  then show ?thesis using assms(1) by (auto simp: word_le_nat_alt word_less_nat_alt simp flip: unat_inject)
qed

lemma card_Un_4:
  assumes "finite A" "finite B" "finite C" "finite D"
    and "A \<inter> B = {}" "A \<inter> C = {}" "A \<inter> D = {}" "B \<inter> C = {}" "B \<inter> D = {}" "C \<inter> D = {}"
  shows "card ((A \<union> B \<union> C \<union> D) \<inter> I) = card (A \<inter> I) + card (B \<inter> I) + card (C \<inter> I) + card (D \<inter> I)"
proof -
  have "card ((A \<union> B \<union> C \<union> D) \<inter> I) = card ((A \<union> B \<union> C) \<inter> I) + card (D \<inter> I)"
    using assms by (subst card_Un_disjoint [symmetric]) (auto simp: Int_Un_distrib2)
  moreover have "card ((A \<union> B \<union> C) \<inter> I) = card ((A \<union> B) \<inter> I) + card (C \<inter> I)"
    using assms by (subst card_Un_disjoint [symmetric]) (auto simp: Int_Un_distrib2)
  moreover have "card ((A \<union> B) \<inter> I) = card (A \<inter> I) + card (B \<inter> I)"
    using assms by (subst card_Un_disjoint [symmetric]) (auto simp: Int_Un_distrib2)
  ultimately show ?thesis by simp
qed

lemma u32_range: "unat i \<in> {unat (ucast a :: u64)..<unat (ucast b :: u64)} \<longleftrightarrow> a \<le> (i :: u32) \<and> i < (b :: u32)"
  by (simp add: word_le_nat_alt word_less_nat_alt)

lemma u32_le: "unat (ucast (b :: u32) :: u64) \<le> 2 ^ 32"
  using unsigned_less [of b, where 'a = nat] by simp

context roaring
begin

lemma bm_range:
  "mem (bm_AddRange R (ucast a) (ucast b) x) = mem x \<union> {unat (a :: u32)..<unat (b :: u32)}"
  "mem (bm_RemoveRange R (ucast a) (ucast b) x) = mem x - {unat a..<unat b}"
  by (simp_all only: AddRange [OF u32_le] RemoveRange [OF u32_le] unat_ucast_u32)

lemma stateOf_iff:
  assumes "disjoint_bitmaps mem t"
  shows "unat i \<in> mem (t_dirty t) \<longleftrightarrow> stateOf R t i = Dirty" "unat i \<in> mem (t_zero t) \<longleftrightarrow> stateOf R t i = Zero"
    "unat i \<in> mem (t_removed t) \<longleftrightarrow> stateOf R t i = Removed" "unat i \<in> mem (t_clean t) \<longleftrightarrow> stateOf R t i = Clean"
  using assms by (auto simp: stateOf_def Contains disjoint_bitmaps_def)

lemma new_ok: "disjoint_bitmaps mem (NewTracker R)" "stateOf R (NewTracker R) = (\<lambda>_. NotPresent)"
  by (auto simp: disjoint_bitmaps_def NewTracker_def stateOf_def New Contains)

lemma stateOf_not_num [simp]: "stateOf R t i \<noteq> numStates"
  by (simp add: stateOf_def)

lemma SetRange_ok:
  assumes "disjoint_bitmaps mem t"
  shows "disjoint_bitmaps mem (SetRange R a b st t)"
    and "stateOf R (SetRange R a b st t) = spec_SetRange a b st (stateOf R t)"
proof -
  show "disjoint_bitmaps mem (SetRange R a b st t)"
    using assms by (cases st) (auto simp: SetRange_def Let_def disjoint_bitmaps_def bm_range)
  have "stateOf R (SetRange R a b st t) i = spec_SetRange a b st (stateOf R t) i" for i
    by (cases st) (auto simp: SetRange_def Let_def spec_SetRange_def stateOf_def Contains bm_range
      word_le_nat_alt word_less_nat_alt)
  then show "stateOf R (SetRange R a b st t) = spec_SetRange a b st (stateOf R t)" ..
qed

lemma mem_install_mask:
  "mem (install_mask R a b t) =
     {unat a..<unat b} - mem (t_dirty t) - mem (t_zero t) - mem (t_clean t)"
  by (auto simp: install_mask_def Let_def New bm_range AndNot)

lemma install_masked_ok:
  assumes "disjoint_bitmaps mem t" "st = Zero \<or> st = Clean"
  shows "disjoint_bitmaps mem (install_masked R a b st t)"
    and "stateOf R (install_masked R a b st t) i = spec_MarkInstalled a b st (stateOf R t) i"
  using assms
  by (auto simp: install_masked_def Let_def disjoint_bitmaps_def mem_install_mask Or AndNot
      spec_MarkInstalled_def stateOf_def Contains word_le_nat_alt word_less_nat_alt)

end

context roaring
begin

lemma single_page_ok:
  assumes "disjoint_bitmaps mem t" "st = Zero \<or> st = Clean" "a < b" "b - a = 1"
  shows "disjoint_bitmaps mem (MarkInstalled R a b st t)"
    and "stateOf R (MarkInstalled R a b st t) i = spec_MarkInstalled a b st (stateOf R t) i"
proof -
  have nle: "\<not> b \<le> a" using assms(3) by simp
  have in_range: "a \<le> i \<and> i < b \<longleftrightarrow> i = a" by (rule single_range [OF assms(3,4)])
  show "disjoint_bitmaps mem (MarkInstalled R a b st t)"
    using assms(1,2,4) nle
    by (auto simp: MarkInstalled_def disjoint_bitmaps_def stateOf_def Contains Add Remove)
  show "stateOf R (MarkInstalled R a b st t) i = spec_MarkInstalled a b st (stateOf R t) i"
  proof (cases "i = a")
    case True
    then have "a \<le> i \<and> i < b" using in_range by simp
    then show ?thesis
      using assms(1,2,4) nle True
      by (auto simp: MarkInstalled_def spec_MarkInstalled_def disjoint_bitmaps_def stateOf_def Contains Add Remove)
  next
    case False
    then have "\<not> (a \<le> i \<and> i < b)" using in_range by blast
    then have "spec_MarkInstalled a b st (stateOf R t) i = stateOf R t i"
      unfolding spec_MarkInstalled_def by presburger
    moreover have "stateOf R (MarkInstalled R a b st t) i = stateOf R t i"
      using assms(2,4) nle False
      by (cases "stateOf R t a") (auto simp: MarkInstalled_def stateOf_def [of _ _ i] Contains Add Remove)
    ultimately show ?thesis by simp
  qed
qed

lemma MarkInstalled_ok:
  assumes "disjoint_bitmaps mem t"
  shows "disjoint_bitmaps mem (MarkInstalled R a b st t)"
    and "stateOf R (MarkInstalled R a b st t) = spec_MarkInstalled a b st (stateOf R t)"
proof -
  consider (skip) "b \<le> a \<or> (st \<noteq> Zero \<and> st \<noteq> Clean)" | (one) "st = Zero \<or> st = Clean" "a < b" "b - a = 1"
    | (many) "st = Zero \<or> st = Clean" "a < b" "b - a \<noteq> 1" by fastforce
  then have "disjoint_bitmaps mem (MarkInstalled R a b st t) \<and>
    (\<forall>i. stateOf R (MarkInstalled R a b st t) i = spec_MarkInstalled a b st (stateOf R t) i)"
  proof cases
    case skip
    then show ?thesis using assms by (auto simp: MarkInstalled_def spec_MarkInstalled_def)
  next
    case one
    then show ?thesis using single_page_ok [OF assms] by blast
  next
    case many
    then have "MarkInstalled R a b st t = install_masked R a b st t" by (auto simp: MarkInstalled_def)
    then show ?thesis using install_masked_ok [OF assms] many by simp
  qed
  then show "disjoint_bitmaps mem (MarkInstalled R a b st t)"
    "stateOf R (MarkInstalled R a b st t) = spec_MarkInstalled a b st (stateOf R t)" by auto
qed

lemma MarkWritten_ok:
  assumes "disjoint_bitmaps mem t"
  shows "disjoint_bitmaps mem (fst (MarkWritten R j t))"
    and "stateOf R (fst (MarkWritten R j t)) = spec_MarkWritten j (stateOf R t)"
    and "snd (MarkWritten R j t) = stateOf R t j"
  using assms
  by (auto simp: MarkWritten_def Let_def disjoint_bitmaps_def spec_MarkWritten_def stateOf_def Contains Add Remove fun_eq_iff)

lemma MarkWrittenPresent_ok:
  assumes "disjoint_bitmaps mem t"
  shows "disjoint_bitmaps mem (fst (MarkWrittenPresent R j t))"
    and "stateOf R (fst (MarkWrittenPresent R j t)) = spec_MarkWrittenPresent j (stateOf R t)"
    and "snd (MarkWrittenPresent R j t) = stateOf R t j"
  using assms
  by (auto simp: MarkWrittenPresent_def Let_def disjoint_bitmaps_def spec_MarkWrittenPresent_def stateOf_def Contains Add Remove fun_eq_iff)

lemma MarkExported_ok:
  assumes "disjoint_bitmaps mem t"
  shows "disjoint_bitmaps mem (MarkExported R j t)"
    and "stateOf R (MarkExported R j t) = spec_MarkExported j (stateOf R t)"
  using assms
  by (auto simp: MarkExported_def disjoint_bitmaps_def spec_MarkExported_def stateOf_def Contains Add Remove fun_eq_iff)

end

sublocale roaring \<subseteq> pages: page_states "disjoint_bitmaps mem" "stateOf R" "NewTracker R" "SetRange R" "MarkInstalled R"
  "\<lambda>i t. fst (MarkWritten R i t)" "\<lambda>i t. fst (MarkWrittenPresent R i t)" "MarkExported R"
  by unfold_locales
    (simp_all add: new_ok SetRange_ok MarkInstalled_ok MarkWritten_ok MarkWrittenPresent_ok MarkExported_ok)

context roaring
begin

lemma run_op_ok:
  assumes "disjoint_bitmaps mem t"
  shows "disjoint_bitmaps mem (run_op R c t) \<and> stateOf R (run_op R c t) = spec_op c (stateOf R t)"
  using assms by (cases c) (simp_all add: pages.inv_laws pages.get_laws)

lemma run_ops_ok:
  assumes "disjoint_bitmaps mem t"
  shows "disjoint_bitmaps mem (fold (run_op R) cs t) \<and>
    stateOf R (fold (run_op R) cs t) = fold spec_op cs (stateOf R t)"
  using assms by (induction cs arbitrary: t) (simp_all add: run_op_ok)

lemma card_full:
  assumes "a \<le> (b :: u32)" and "A \<subseteq> {unat a..<unat b}"
  shows "card A = unat b - unat a \<longleftrightarrow> A = {unat a..<unat b}"
  using assms card_subset_eq [of "{unat a..<unat b}" A] by auto

lemma card_u64:
  assumes "a < (b :: u32)" and "A \<subseteq> {unat a..<unat b}"
  shows "(word_of_nat (card A) :: u64) = ucast b - ucast a \<longleftrightarrow> A = {unat a..<unat b}"
proof -
  have le: "(ucast a :: u64) \<le> ucast b" using assms(1) by (simp add: word_le_nat_alt word_less_nat_alt)
  have "card A \<le> unat b" using card_mono [OF _ assms(2)] by simp
  then have "card A < 2 ^ 64" using unsigned_less [of b, where 'a = nat] by simp
  then have "unat (word_of_nat (card A) :: u64) = card A" by (simp add: unat_of_nat take_bit_nat_eq_self)
  moreover have "unat (ucast b - ucast a :: u64) = unat b - unat a" by (simp add: unat_sub [OF le])
  ultimately show ?thesis
    using card_full [of a b A] assms by (metis unat_inject order_less_imp_le)
qed

lemma range_u32: "{unat a..<unat (b :: u32)} = unat ` {i. a \<le> i \<and> i < b}"
proof (rule set_eqI)
  fix x
  show "x \<in> {unat a..<unat b} \<longleftrightarrow> x \<in> unat ` {i. a \<le> i \<and> i < b}"
  proof
    assume x: "x \<in> {unat a..<unat b}"
    then have "x < 2 ^ 32" using unsigned_less [of b, where 'a = nat] by simp
    then have "unat (word_of_nat x :: u32) = x" by (simp add: unat_of_nat take_bit_nat_eq_self)
    then show "x \<in> unat ` {i. a \<le> i \<and> i < b}" using x
      by (intro image_eqI [of _ _ "word_of_nat x"]) (auto simp: word_le_nat_alt word_less_nat_alt)
  qed (auto simp: word_le_nat_alt word_less_nat_alt)
qed

lemma HasRange_ok:
  assumes "disjoint_bitmaps mem t" "a < b"
  shows "HasRange R a b st t \<longleftrightarrow> st \<in> {Dirty, Zero, Removed, Clean} \<and> (\<forall>i. a \<le> i \<and> i < b \<longrightarrow> stateOf R t i = st)"
proof -
  have u: "(ucast (b - a) :: u64) = ucast b - ucast a"
    by (rule unat_inject [THEN iffD1]) (use assms(2) in \<open>simp add: unat_sub word_le_nat_alt word_less_nat_alt\<close>)
  have "bm_CardinalityInRange R x (ucast a) (ucast b) = ucast (b - a) \<longleftrightarrow> (\<forall>i. a \<le> i \<and> i < b \<longrightarrow> unat i \<in> mem x)" for x
    using card_u64 [OF assms(2), of "mem x \<inter> {unat a..<unat b}"]
    by (auto simp: CardinalityInRange u range_u32)
  then show ?thesis using assms(2)
    by (cases st) (auto simp: HasRange_def stateOf_iff [OF assms(1)])
qed

lemma Present_ok:
  assumes d: "disjoint_bitmaps mem t" and "a < b"
  shows "Present R a b t \<longleftrightarrow> (\<forall>i. a \<le> i \<and> i < b \<longrightarrow> stateOf R t i \<noteq> NotPresent)"
proof -
  let ?I = "{unat a..<unat b}"
  have "card ((mem (t_dirty t) \<union> mem (t_zero t) \<union> mem (t_removed t) \<union> mem (t_clean t)) \<inter> ?I) =
      card (mem (t_dirty t) \<inter> ?I) + card (mem (t_zero t) \<inter> ?I) + card (mem (t_removed t) \<inter> ?I) + card (mem (t_clean t) \<inter> ?I)"
    using d by (intro card_Un_4) (simp_all add: disjoint_bitmaps_def)
  then have "Present R a b t \<longleftrightarrow>
      (mem (t_dirty t) \<union> mem (t_zero t) \<union> mem (t_removed t) \<union> mem (t_clean t)) \<inter> ?I = ?I"
    using card_u64 [OF assms(2), of "(mem (t_dirty t) \<union> mem (t_zero t) \<union> mem (t_removed t) \<union> mem (t_clean t)) \<inter> ?I"] assms(2)
    by (simp add: Present_def Let_def CardinalityInRange flip: of_nat_add not_less)
  also have "\<dots> \<longleftrightarrow> (\<forall>i. a \<le> i \<and> i < b \<longrightarrow> stateOf R t i \<noteq> NotPresent)"
    by (auto simp: range_u32 stateOf_def Contains)
  finally show ?thesis .
qed

end

section \<open>Properties of the tracker\<close>

text \<open>
  C10. After any sequence of calls on a new tracker the four bitmaps are pairwise disjoint, and the
  state of every page is the one obtained by playing the same calls on a plain map from pages to
  states.
\<close>

theorem Tracker_refines:
  assumes "roaring R mem"
  shows "disjoint_bitmaps mem (fold (run_op R) ops (NewTracker R)) \<and>
    Get R (fold (run_op R) ops (NewTracker R)) = fold spec_op ops (\<lambda>_. NotPresent)"
  using roaring.run_ops_ok [OF assms roaring.new_ok(1) [OF assms]] roaring.new_ok(2) [OF assms]
  by (simp add: Get_def fun_eq_iff)

theorem Tracker_refines_witness:
  "Get set_roaring (fold (run_op set_roaring) [OpMarkInstalled 0 8 Clean, OpMarkWritten 3, OpSetRange 5 7 Removed,
      OpMarkWritten 5, OpMarkInstalled 0 8 Zero] (NewTracker set_roaring)) 3 = Dirty"
  unfolding conjunct2 [OF Tracker_refines [OF sets.roaring_axioms]]
  by (simp add: spec_defs)

text \<open>
  C20. The range queries, which only count members, answer about every single page: \<open>HasRange\<close> whether all
  pages of a non-empty range are in the given installed state, \<open>Present\<close> whether none is
  \<open>NotPresent\<close>; an export lists exactly the dirty and the known-zero pages.
\<close>

theorem Tracker_queries:
  assumes "roaring R mem" and "disjoint_bitmaps mem t" and "a < b"
  shows "(HasRange R a b st t \<longleftrightarrow>
        st \<in> {Dirty, Zero, Removed, Clean} \<and> (\<forall>i. a \<le> i \<and> i < b \<longrightarrow> Get R t i = st)) \<and>
    (Present R a b t \<longleftrightarrow> (\<forall>i. a \<le> i \<and> i < b \<longrightarrow> Get R t i \<noteq> NotPresent)) \<and>
    (unat i \<in> mem (fst (Export R t)) \<longleftrightarrow> Get R t i = Dirty) \<and>
    (unat i \<in> mem (snd (Export R t)) \<longleftrightarrow> Get R t i = Zero \<or> Get R t i = Removed)"
  using roaring.HasRange_ok [OF assms] roaring.Present_ok [OF assms] roaring.stateOf_iff [OF assms(1,2)]
  by (simp add: Get_def Export_def roaring.Or [OF assms(1)])

theorem Tracker_queries_witness:
  "Present set_roaring 2 5 (SetRange set_roaring 0 8 Zero (NewTracker set_roaring))"
proof -
  let ?t = "SetRange set_roaring 0 8 Zero (NewTracker set_roaring)"
  have "disjoint_bitmaps (\<lambda>b. unat ` b) ?t" by (simp add: sets.SetRange_ok sets.new_ok)
  then have "Present set_roaring 2 5 ?t \<longleftrightarrow> (\<forall>i. 2 \<le> i \<and> i < 5 \<longrightarrow> Get set_roaring ?t i \<noteq> NotPresent)"
    using Tracker_queries [OF sets.roaring_axioms, of ?t 2 5] by simp
  then show ?thesis
    by (auto simp: Get_def sets.SetRange_ok sets.new_ok spec_SetRange_def word_le_nat_alt word_less_nat_alt)
qed

text \<open>
  C16. The race of a fault handler with a writer is harmless: whether a read-side install of a page
  is recorded before or after the write-protect fault of the same page, the page ends as \<open>Dirty\<close>, and an
  install recorded at any time leaves every page dirty that was dirty.
\<close>

theorem install_write_race:
  assumes "roaring R mem" and "disjoint_bitmaps mem t" and "a \<le> i" "i < b" and "Get R t i \<noteq> Removed"
  shows "Get R (fst (MarkWritten R i (MarkInstalled R a b st t))) i = Dirty \<and>
    Get R (MarkInstalled R a b st (fst (MarkWritten R i t))) i = Dirty \<and>
    (Get R t j = Dirty \<longrightarrow> Get R (MarkInstalled R a b st t) j = Dirty)"
  using assms(2-) roaring.MarkInstalled_ok [OF assms(1)] roaring.MarkWritten_ok [OF assms(1)]
  by (auto simp: Get_def spec_defs)

theorem install_write_race_witness:
  "Get set_roaring (MarkInstalled set_roaring 0 8 Clean (fst (MarkWritten set_roaring 3 (NewTracker set_roaring)))) 3 = Dirty"
  using install_write_race [OF sets.roaring_axioms sets.new_ok(1), of 0 3 8 Clean]
  by (simp add: Get_def sets.new_ok)

end
