(* ===== verification/Block_Cache.thy ===== *)
theory Block_Cache
  imports Page_Tracker Export_Diff
begin

text \<open>
  The block cache of \<open>packages/orchestrator/pkg/sandbox/block/cache.go\<close>: a memory-mapped sparse file of fixed
  size with a page tracker that says which blocks it holds. The first part is the code; the second shows that
  a cache is a partial map from block numbers to block contents, which writes update and
  \<open>FillMissingFrom\<close> joins with an older one.
\<close>

section \<open>The cache\<close>

text \<open>Errors wrap their cause with \<open>%w\<close>, and the callers look at it with \<open>errors.As\<close>: an error is its
  innermost cause. \<open>CachePanic\<close> is a Go panic.\<close>

datatype cache_error =
    CacheClosedError string | BytesNotAvailableError | MisalignedWrite | OutOfBounds i64 | OsError string
  | CachePanic

text \<open>The mapped file is its bytes; \<open>c_mmap = None\<close> is the nil mapping of an empty cache.\<close>

record 'bm Cache =
  c_filePath :: string
  c_size :: i64
  c_blockSize :: i64
  c_mmap :: "byte list option"
  c_tracker :: "'bm Tracker"
  c_dirtyFile :: bool
  c_closed :: bool

text \<open>The results of \<open>os.OpenFile\<close>, \<open>Truncate\<close> and \<open>mmap.MapRegion\<close> are arguments; the mapping gives the
  bytes of the file, zeros where it is sparse. An \<open>int64\<close> is never above \<open>math.MaxInt\<close>.\<close>

definition NewCache ::
  "'bm roaring_ops \<Rightarrow> string option \<Rightarrow> string option \<Rightarrow> string + byte list \<Rightarrow> i64 \<Rightarrow> i64 \<Rightarrow> string \<Rightarrow> bool \<Rightarrow>
   cache_error + 'bm Cache" where
  "NewCache R openErr truncErr mapped sz blkSize filePath dirtyFile =
     (case openErr of Some e \<Rightarrow> Inl (OsError e) | None \<Rightarrow>
        if sz = 0 then
          Inr \<lparr>c_filePath = filePath, c_size = sz, c_blockSize = blkSize, c_mmap = None,
               c_tracker = NewTracker R, c_dirtyFile = dirtyFile, c_closed = False\<rparr>
        else case truncErr of Some e \<Rightarrow> Inl (OsError e) | None \<Rightarrow>
          (case mapped of Inl e \<Rightarrow> Inl (OsError e)
           | Inr mm \<Rightarrow>
               Inr \<lparr>c_filePath = filePath, c_size = sz, c_blockSize = blkSize, c_mmap = Some mm,
                    c_tracker = NewTracker R, c_dirtyFile = dirtyFile, c_closed = False\<rparr>))"

definition isClosed :: "'bm Cache \<Rightarrow> bool" where
  "isClosed c = c_closed c"

definition Cache_DiffMetadata :: "'bm roaring_ops \<Rightarrow> 'bm Cache \<Rightarrow> cache_error + 'bm DiffMetadata" where
  "Cache_DiffMetadata R c =
     (if isClosed c then Inl (CacheClosedError (c_filePath c))
      else if c_mmap c = None then Inr (NewDiffMetadata (bm_New R) (c_blockSize c) None None)
      else let (dirty, emptied) = Export R (c_tracker c)
           in Inr (NewDiffMetadata (bm_New R) (c_blockSize c) (Some dirty) (Some emptied)))"

text \<open>A zero block size divides by zero: \<open>None\<close>.\<close>

definition isCached :: "'bm roaring_ops \<Rightarrow> 'bm Cache \<Rightarrow> i64 \<Rightarrow> i64 \<Rightarrow> bool option" where
  "isCached R c off len =
     (if c_blockSize c = 0 then None
      else
        let start = ucast (BlockIdx off (c_blockSize c));
            end = ucast (BlockCeilIdx (i64_min (off + len) (c_size c)) (c_blockSize c))
        in Some (Present R start end (c_tracker c)))"

definition setIsCached :: "'bm roaring_ops \<Rightarrow> i64 \<Rightarrow> i64 \<Rightarrow> 'bm Cache \<Rightarrow> 'bm Cache option" where
  "setIsCached R off len c =
     (if c_blockSize c = 0 then None
      else
        let start = ucast (BlockIdx off (c_blockSize c));
            end = ucast (BlockCeilIdx (off + len) (c_blockSize c))
        in Some (c\<lparr>c_tracker := SetRange R start end Dirty (c_tracker c)\<rparr>))"

definition mmap_slice :: "'bm Cache \<Rightarrow> i64 \<Rightarrow> i64 \<Rightarrow> cache_error + byte list" where
  "mmap_slice c lo hi =
     (case c_mmap c of None \<Rightarrow> Inl CachePanic
      | Some mm \<Rightarrow> (case go_slice mm lo hi of None \<Rightarrow> Inl CachePanic | Some s \<Rightarrow> Inr s))"

definition Cache_Slice :: "'bm roaring_ops \<Rightarrow> 'bm Cache \<Rightarrow> i64 \<Rightarrow> i64 \<Rightarrow> cache_error + byte list" where
  "Cache_Slice R c off len =
     (if isClosed c then Inl (CacheClosedError (c_filePath c))
      else if c_mmap c = None then Inr []
      else
        case (if c_dirtyFile c then Some True else isCached R c off len) of
          None \<Rightarrow> Inl CachePanic
        | Some True \<Rightarrow> mmap_slice c off (i64_min (off + len) (c_size c))
        | Some False \<Rightarrow> Inl BytesNotAvailableError)"

definition sliceDirect :: "'bm Cache \<Rightarrow> i64 \<Rightarrow> i64 \<Rightarrow> cache_error + byte list" where
  "sliceDirect c off len =
     (if isClosed c then Inl (CacheClosedError (c_filePath c))
      else if c_mmap c = None then Inr []
      else if sint off < 0 \<or> sint off \<ge> sint (c_size c) then Inl BytesNotAvailableError
      else mmap_slice c off (i64_min (off + len) (c_size c)))"

text \<open>\<open>ReadAt\<close> returns the buffer as it is afterwards and the number of bytes copied.\<close>

definition Cache_ReadAt ::
  "'bm roaring_ops \<Rightarrow> 'bm Cache \<Rightarrow> byte list \<Rightarrow> i64 \<Rightarrow> cache_error + byte list \<times> nat" where
  "Cache_ReadAt R c b off =
     (if c_mmap c = None then Inr (b, 0)
      else if isClosed c then Inl (CacheClosedError (c_filePath c))
      else map_sum id (\<lambda>s. (go_copy b s, min (length b) (length s)))
        (Cache_Slice R c off (word_of_nat (length b))))"

text \<open>\<open>MADV_REMOVE\<close> frees the pages, which read as zeros afterwards; where it is unsupported the code
  clears them: both leave zeros.\<close>

definition punchHole :: "i64 \<Rightarrow> i64 \<Rightarrow> 'bm Cache \<Rightarrow> 'bm Cache option" where
  "punchHole off len c =
     (case c_mmap c of None \<Rightarrow> None
      | Some mm \<Rightarrow>
          (case go_slice mm off (off + len) of None \<Rightarrow> None
           | Some s \<Rightarrow> Some (c\<lparr>c_mmap := Some (overwrite mm (nat (sint off)) (replicate (length s) 0))\<rparr>)))"

text \<open>The closure \<open>flush\<close> of \<open>WriteAtWithoutLock\<close>, and its loop. The slice \<open>b[i-off:i-off+blockSize]\<close> panics
  when \<open>i\<close> wraps around, so the loop ends.\<close>

definition write_flush ::
  "'bm roaring_ops \<Rightarrow> byte list \<Rightarrow> i64 \<Rightarrow> i64 \<Rightarrow> i64 \<Rightarrow> bool \<Rightarrow> 'bm Cache \<Rightarrow> 'bm Cache option" where
  "write_flush R b off runStart runEnd runZero c =
     (let startIdx = ucast (BlockIdx runStart (c_blockSize c));
          endIdx = ucast (BlockCeilIdx runEnd (c_blockSize c))
      in if runZero then
           map_option (\<lambda>c. c\<lparr>c_tracker := SetRange R startIdx endIdx Zero (c_tracker c)\<rparr>)
             (punchHole runStart (runEnd - runStart) c)
         else case (c_mmap c, go_slice b (runStart - off) (runEnd - off)) of
             (Some mm, Some src) \<Rightarrow>
               (case go_slice mm runStart runEnd of None \<Rightarrow> None
                | Some dst \<Rightarrow>
                    Some (c\<lparr>c_mmap := Some (overwrite mm (nat (sint runStart)) (go_copy dst src)),
                            c_tracker := SetRange R startIdx endIdx Dirty (c_tracker c)\<rparr>))
           | _ \<Rightarrow> None)"

function write_loop ::
  "'bm roaring_ops \<Rightarrow> byte list \<Rightarrow> i64 \<Rightarrow> i64 \<Rightarrow> i64 \<Rightarrow> bool \<Rightarrow> i64 \<Rightarrow> 'bm Cache \<Rightarrow> 'bm Cache option" where
  "write_loop R b off end runStart runZero i c =
     (if sint i < sint end then
        case go_slice b (i - off) (i - off + c_blockSize c) of
          None \<Rightarrow> None
        | Some bl \<Rightarrow>
            if c_blockSize c = 0 then None
            else
              let z = IsZero bl in
              if z = runZero then write_loop R b off end runStart runZero (i + c_blockSize c) c
              else (case write_flush R b off runStart i runZero c of
                  None \<Rightarrow> None
                | Some c' \<Rightarrow> write_loop R b off end i z (i + c_blockSize c) c')
      else write_flush R b off runStart end runZero c)"
  by pat_completeness auto

lemma go_slice_grows:
  assumes "go_slice b lo (lo + bs) = Some s" "bs \<noteq> 0"
  shows "sint lo < sint (lo + bs)"
proof -
  have "sint lo \<noteq> sint (lo + bs)" using assms(2) signed_word_eqI [of lo "lo + bs"] by auto
  then show ?thesis using assms(1) by (simp add: go_slice_def split: if_splits)
qed

termination write_loop
proof (relation "measure (\<lambda>(_, _, off, _, _, _, i, _). nat (2 ^ 63 - sint (i - off)))", goal_cases)
  case (2 R b off "end" runStart runZero i c bl z)
  then have "sint (i - off) < sint (i - off + c_blockSize c)" by (intro go_slice_grows)
  then show ?case using sint_less [of "i - off"] by (simp add: algebra_simps)
next
  case (3 R b off "end" runStart runZero i c bl z c')
  then have "sint (i - off) < sint (i - off + c_blockSize c)" by (intro go_slice_grows)
  then show ?case using sint_less [of "i - off"] by (simp add: algebra_simps)
qed simp

declare write_loop.simps [simp del]

definition WriteAtWithoutLock ::
  "'bm roaring_ops \<Rightarrow> byte list \<Rightarrow> i64 \<Rightarrow> 'bm Cache \<Rightarrow> cache_error + 'bm Cache \<times> i64" where
  "WriteAtWithoutLock R b off c =
     (if isClosed c then Inl (CacheClosedError (c_filePath c))
      else if c_mmap c = None then Inr (c, 0)
      else if c_blockSize c = 0 then Inl CachePanic
      else if i64_mod (word_of_nat (length b)) (c_blockSize c) \<noteq> 0 \<or> i64_mod off (c_blockSize c) \<noteq> 0
        then Inl MisalignedWrite
      else
        let end = i64_min (off + word_of_nat (length b)) (c_size c) in
        if sint end \<le> sint off then Inr (c, 0)
        else case go_slice b 0 (c_blockSize c) of
            None \<Rightarrow> Inl CachePanic
          | Some first \<Rightarrow>
              (case write_loop R b off end off (IsZero first) (off + c_blockSize c) c of
                 None \<Rightarrow> Inl CachePanic
               | Some c' \<Rightarrow> Inr (c', end - off)))"

definition Cache_WriteAt ::
  "'bm roaring_ops \<Rightarrow> byte list \<Rightarrow> i64 \<Rightarrow> 'bm Cache \<Rightarrow> cache_error + 'bm Cache \<times> i64" where
  "Cache_WriteAt R b off c =
     (if c_mmap c = None then Inr (c, 0)
      else if isClosed c then Inl (CacheClosedError (c_filePath c))
      else WriteAtWithoutLock R b off c)"

definition WriteAtShared ::
  "'bm roaring_ops \<Rightarrow> byte list \<Rightarrow> i64 \<Rightarrow> 'bm Cache \<Rightarrow> cache_error + 'bm Cache \<times> i64" where
  "WriteAtShared R b off c =
     (if c_mmap c = None then Inr (c, 0)
      else if isClosed c then Inl (CacheClosedError (c_filePath c))
      else WriteAtWithoutLock R b off c)"

definition Cache_WriteZeroesAt ::
  "'bm roaring_ops \<Rightarrow> i64 \<Rightarrow> i64 \<Rightarrow> 'bm Cache \<Rightarrow> cache_error + 'bm Cache \<times> i64" where
  "Cache_WriteZeroesAt R off len c =
     (if c_mmap c = None then Inr (c, 0)
      else if isClosed c then Inl (CacheClosedError (c_filePath c))
      else
        let end = i64_min (off + len) (c_size c) in
        if sint end \<le> sint off then Inr (c, 0)
        else case punchHole off (end - off) c of
            None \<Rightarrow> Inl CachePanic
          | Some c' \<Rightarrow>
              if c_blockSize c = 0 then Inl CachePanic
              else Inr (c'\<lparr>c_tracker := SetRange R (ucast (BlockIdx off (c_blockSize c)))
                  (ucast (BlockCeilIdx end (c_blockSize c))) Zero (c_tracker c')\<rparr>, end - off))"

definition writeAtIfAbsent ::
  "'bm roaring_ops \<Rightarrow> byte list \<Rightarrow> i64 \<Rightarrow> 'bm Cache \<Rightarrow> cache_error + 'bm Cache" where
  "writeAtIfAbsent R b off c =
     (if c_mmap c = None then Inr c
      else if isClosed c then Inl (CacheClosedError (c_filePath c))
      else case isCached R c off (word_of_nat (length b)) of
          None \<Rightarrow> Inl CachePanic
        | Some True \<Rightarrow> Inr c
        | Some False \<Rightarrow> map_sum id fst (WriteAtWithoutLock R b off c))"

text \<open>The loops of \<open>FillMissingFrom\<close>: over the ranges of blocks, and over the blocks of a range. The
  inner one could run on when the offset wraps around; not returning is the value \<open>None\<close>.\<close>

partial_function (option) fill_range ::
  "'bm roaring_ops \<Rightarrow> 'bm Cache \<Rightarrow> byte list \<Rightarrow> i64 \<Rightarrow> i64 \<Rightarrow> 'bm Cache \<Rightarrow> (cache_error + byte list \<times> 'bm Cache) option" where
  "fill_range R older buf off end c =
     (if sint off < sint end then
        case Cache_ReadAt R older buf off of
          Inl e \<Rightarrow> Some (Inl e)
        | Inr (buf', _) \<Rightarrow>
            (case writeAtIfAbsent R buf' off c of
               Inl e \<Rightarrow> Some (Inl e)
             | Inr c' \<Rightarrow> fill_range R older buf' (off + c_blockSize c) end c')
      else Some (Inr (buf, c)))"

fun fill_ranges ::
  "'bm roaring_ops \<Rightarrow> 'bm Cache \<Rightarrow> (i64 \<times> i64) list \<Rightarrow> byte list \<Rightarrow> 'bm Cache \<Rightarrow> (cache_error + 'bm Cache) option" where
  "fill_ranges R older [] buf c = Some (Inr c)"
| "fill_ranges R older ((start, sz) # rs) buf c =
     (case fill_range R older buf start (start + sz) c of
        None \<Rightarrow> None
      | Some (Inl e) \<Rightarrow> Some (Inl e)
      | Some (Inr (buf', c')) \<Rightarrow> fill_ranges R older rs buf' c')"

text \<open>\<open>BitsetRanges\<close> of \<open>range.go\<close>: the runs of a bitmap as (start, size) in bytes.\<close>

definition BitsetRanges :: "'bm roaring_ops \<Rightarrow> 'bm \<Rightarrow> i64 \<Rightarrow> (i64 \<times> i64) list" where
  "BitsetRanges R b blkSize =
     map (\<lambda>(start, endExcl). (BlockOffset (ucast start) blkSize, BlockOffset (endExcl - ucast start) blkSize))
       (bm_Ranges R b)"

definition FillMissingFrom ::
  "'bm roaring_ops \<Rightarrow> 'bm Cache option \<Rightarrow> 'bm Cache \<Rightarrow> (cache_error + 'bm Cache) option" where
  "FillMissingFrom R older c =
     (case older of None \<Rightarrow> Some (Inr c)
      | Some old \<Rightarrow>
          (case Cache_DiffMetadata R old of
             Inl e \<Rightarrow> Some (Inl e)
           | Inr meta \<Rightarrow>
               let present = bm_Or R (dm_Dirty meta) (dm_Empty meta) in
               if sint (c_blockSize c) < 0 then Some (Inl CachePanic)
               else fill_ranges R old (BitsetRanges R present (c_blockSize c))
                   (replicate (nat (sint (c_blockSize c))) 0) c))"

text \<open>\<open>Close\<close> with the results of \<open>Unmap\<close> and \<open>os.RemoveAll\<close>; it returns the errors it joins.\<close>

definition Cache_Close :: "string option \<Rightarrow> string option \<Rightarrow> 'bm Cache \<Rightarrow> 'bm Cache \<times> cache_error list" where
  "Cache_Close unmapErr removeErr c =
     (let errs = (\<lambda>e. case e of None \<Rightarrow> [] | Some m \<Rightarrow> [OsError m]) in
      if c_mmap c = None then (c, errs removeErr)
      else if c_closed c then (c, [CacheClosedError (c_filePath c)])
      else (c\<lparr>c_closed := True\<rparr>, errs unmapErr @ errs removeErr))"

definition Cache_Size :: "'bm Cache \<Rightarrow> cache_error + i64" where
  "Cache_Size c = (if isClosed c then Inl (CacheClosedError (c_filePath c)) else Inr (c_size c))"

text \<open>\<open>address\<close> returns a pointer into the mapping, here the offset it points at (\<open>None\<close>: nil).\<close>

definition address :: "'bm Cache \<Rightarrow> i64 \<Rightarrow> cache_error + i64 option" where
  "address c off =
     (case c_mmap c of None \<Rightarrow> Inr None
      | Some mm \<Rightarrow>
          if sint off \<ge> sint (c_size c) then Inl (OutOfBounds off)
          else if sint off < 0 \<or> sint off \<ge> int (length mm) then Inl CachePanic
          else Inr (Some off))"

definition addressBytes :: "'bm Cache \<Rightarrow> i64 \<Rightarrow> i64 \<Rightarrow> cache_error + byte list" where
  "addressBytes c off len =
     (if c_mmap c = None then Inr []
      else if isClosed c then Inl (CacheClosedError (c_filePath c))
      else if sint off \<ge> sint (c_size c) then Inl (OutOfBounds off)
      else mmap_slice c off (i64_min (off + len) (c_size c)))"

section \<open>Blocks\<close>

lemma blk_overwrite:
  assumes "length ys = m * B" "(p + m) * B \<le> length xs"
  shows "blk (overwrite xs (p * B) ys) B k = (if p \<le> k \<and> k < p + m then blk ys B (k - p) else blk xs B k)"
proof -
  consider (below) "k < p" | (inside) "p \<le> k" "k < p + m" | (above) "p + m \<le> k" by linarith
  then show ?thesis
  proof cases
    case below
    then have "Suc k * B \<le> p * B" by (intro mult_le_mono1) simp
    moreover have "p * B \<le> length xs" using assms(2) by (simp add: add_mult_distrib)
    ultimately show ?thesis using below by (simp add: blk_def overwrite_def drop_take min_absorb2)
  next
    case inside
    have pl: "p * B \<le> length xs" using assms(2) by (simp add: add_mult_distrib)
    have "Suc (k - p) * B \<le> m * B" using inside by (intro mult_le_mono1) simp
    then have "(k - p) * B + B \<le> length ys" using assms(1) by simp
    moreover have "k * B - p * B = (k - p) * B" by (simp add: diff_mult_distrib)
    moreover have "p * B \<le> k * B" using inside by simp
    ultimately show ?thesis using inside pl by (simp add: blk_def overwrite_def)
  next
    case above
    have pl: "p * B \<le> length xs" using assms(2) by (simp add: add_mult_distrib)
    have "p * B + m * B \<le> k * B" using above by (metis add_mult_distrib mult_le_mono1)
    then show ?thesis using above pl assms(1) by (simp add: blk_def overwrite_def)
  qed
qed

lemma length_blk: "Suc k * B \<le> length xs \<Longrightarrow> length (blk xs B k) = B"
  by (simp add: blk_def)

lemma blk_section:
  assumes "j * B \<le> length b" "k < j - s" "s \<le> j"
  shows "blk (take ((j - s) * B) (drop (s * B) b)) B k = blk b B (s + k)"
proof -
  have "Suc k * B \<le> (j - s) * B" using assms(2) by (intro mult_le_mono1) simp
  then have "min B ((j - s) * B - k * B) = B" by simp
  then show ?thesis by (simp add: blk_def drop_take add_mult_distrib add.commute min_def)
qed

lemma length_section: "j * B \<le> length b \<Longrightarrow> length (take ((j - s) * B) (drop (s * B) b)) = (j - s) * B"
  by (simp add: diff_mult_distrib)

lemma blk_replicate:
  assumes "k < m"
  shows "blk (replicate (m * B) x) B k = replicate B x"
proof -
  have "Suc k * B \<le> m * B" using assms by (intro mult_le_mono1) simp
  then show ?thesis by (simp add: blk_def min_def)
qed

section \<open>The state of a cache\<close>

text \<open>What every open cache satisfies: its mapping has its size, a whole number of blocks, every tracked block
  is \<open>Dirty\<close> or \<open>Zero\<close>, lies inside, and a \<open>Zero\<close> block holds zeros. The sizes rule out wrap-around
  of \<open>int64\<close> offsets and \<open>uint32\<close> block indices.\<close>

definition bs_of :: "'bm Cache \<Rightarrow> nat" where
  "bs_of c = unat (c_blockSize c)"

definition blocks_of :: "'bm Cache \<Rightarrow> nat" where
  "blocks_of c = unat (c_size c) div bs_of c"

definition mapped_bytes :: "'bm Cache \<Rightarrow> byte list" where
  "mapped_bytes c = the (c_mmap c)"

definition sized :: "'bm Cache \<Rightarrow> bool" where
  "sized c \<longleftrightarrow> bs_of c dvd unat (c_size c) \<and> unat (c_size c) < 2 ^ 44 \<and> 4096 \<le> bs_of c \<and> bs_of c < 2 ^ 44"

definition cache_inv :: "'bm roaring_ops \<Rightarrow> ('bm \<Rightarrow> nat set) \<Rightarrow> 'bm Cache \<Rightarrow> bool" where
  "cache_inv R mem c \<longleftrightarrow> sized c \<and> c_mmap c \<noteq> None \<and> length (mapped_bytes c) = unat (c_size c) \<and>
     \<not> c_closed c \<and> \<not> c_dirtyFile c \<and> disjoint_bitmaps mem (c_tracker c) \<and>
     (\<forall>w. stateOf R (c_tracker c) w \<noteq> NotPresent \<longrightarrow>
        unat w < blocks_of c \<and> stateOf R (c_tracker c) w \<in> {Dirty, Zero} \<and>
        (stateOf R (c_tracker c) w = Zero \<longrightarrow> IsZero (blk (mapped_bytes c) (bs_of c) (unat w))))"

text \<open>The abstract value of a cache: the blocks it holds.\<close>

definition held :: "'bm roaring_ops \<Rightarrow> 'bm Cache \<Rightarrow> nat \<Rightarrow> byte list option" where
  "held R c k =
     (if k < blocks_of c \<and> stateOf R (c_tracker c) (word_of_nat k) \<noteq> NotPresent
      then Some (blk (mapped_bytes c) (bs_of c) k) else None)"

lemma sized_blocks:
  assumes "sized c"
  shows "blocks_of c * bs_of c = unat (c_size c)" "blocks_of c < 2 ^ 32" "0 < bs_of c"
proof -
  show size: "blocks_of c * bs_of c = unat (c_size c)" and "0 < bs_of c"
    using assms by (auto simp: sized_def blocks_of_def)
  have "blocks_of c * 4096 \<le> blocks_of c * bs_of c" using assms by (intro mult_le_mono2) (simp add: sized_def)
  then show "blocks_of c < 2 ^ 32" using assms size by (simp add: sized_def)
qed

lemma sized_offset:
  assumes "sized c" "k \<le> blocks_of c" "unat off = k * bs_of c"
  shows "unat off < 2 ^ 44" "unat off \<le> unat (c_size c)"
    and "unat (ucast (BlockIdx off (c_blockSize c)) :: u32) = k"
    and "unat (ucast (BlockCeilIdx off (c_blockSize c)) :: u32) = k"
proof -
  have "k * bs_of c \<le> blocks_of c * bs_of c" using assms(2) by (rule mult_le_mono1)
  then show le: "unat off \<le> unat (c_size c)" using assms(3) sized_blocks(1) [OF assms(1)] by simp
  then show off: "unat off < 2 ^ 44" using assms(1) by (simp add: sized_def)
  have B: "unat (c_blockSize c) = bs_of c" "bs_of c < 2 ^ 44" "0 < bs_of c" and k: "k < 2 ^ 32"
    using assms(1,2) sized_blocks [OF assms(1)] by (auto simp: bs_of_def sized_def)
  have "unat (BlockIdx off (c_blockSize c)) = k"
    using off assms(3) B by (simp add: BlockIdx_def i64_div_nonneg)
  then show "unat (ucast (BlockIdx off (c_blockSize c)) :: u32) = k" using k by (simp add: unat_ucast_u64_u32)
  have "unat (off + c_blockSize c) = k * bs_of c + bs_of c" using off assms(3) B by (simp add: unat_add_u64)
  then have "unat (off + c_blockSize c - 1) = k * bs_of c + (bs_of c - 1)"
    using B by (subst unat_sub) (simp_all add: word_le_nat_alt)
  moreover have "k * bs_of c + (bs_of c - 1) < 2 ^ 63" using off assms(3) B by simp
  ultimately have "unat (BlockCeilIdx off (c_blockSize c)) = (k * bs_of c + (bs_of c - 1)) div bs_of c"
    using B by (simp add: BlockCeilIdx_def i64_div_nonneg)
  also have "\<dots> = k" using B(3) by (intro div_nat_eqI) (simp_all add: mult.commute)
  finally show "unat (ucast (BlockCeilIdx off (c_blockSize c)) :: u32) = k" using k by (simp add: unat_ucast_u64_u32)
qed

section \<open>Reading a block\<close>

lemma word_range_one: "unat i = k \<Longrightarrow> unat j = Suc k \<Longrightarrow> i \<le> (w :: u32) \<and> w < j \<longleftrightarrow> w = i"
  by (auto simp: word_le_nat_alt word_less_nat_alt simp flip: unat_inject)

lemma sized_end:
  assumes "sized c" "o' + m \<le> blocks_of c" "unat off = o' * bs_of c" "unat len = m * bs_of c"
  shows "unat (off + len) = (o' + m) * bs_of c" "i64_min (off + len) (c_size c) = off + len"
proof -
  have "(o' + m) * bs_of c \<le> blocks_of c * bs_of c" using assms(2) by (rule mult_le_mono1)
  then have le: "(o' + m) * bs_of c \<le> unat (c_size c)" using sized_blocks(1) [OF assms(1)] by simp
  then have "unat off + unat len < 2 ^ 64" using assms by (simp add: sized_def add_mult_distrib)
  then show e: "unat (off + len) = (o' + m) * bs_of c" using assms by (simp add: unat_add_u64 add_mult_distrib)
  then have "unat (i64_min (off + len) (c_size c)) = unat (off + len)"
    using le assms(1) by (subst i64_min_nat) (simp_all add: sized_def)
  then show "i64_min (off + len) (c_size c) = off + len" by simp
qed

context roaring
begin

lemma isCached_block:
  assumes inv: "cache_inv R mem c" and k: "k < blocks_of c" "unat off = k * bs_of c" "unat len = bs_of c"
  shows "isCached R c off len = Some (stateOf R (c_tracker c) (word_of_nat k) \<noteq> NotPresent)"
proof -
  have sz: "sized c" and dj: "disjoint_bitmaps mem (c_tracker c)" using inv by (auto simp: cache_inv_def)
  note e = sized_end [OF sz, of k 1 off len] and B = sized_blocks [OF sz]
  let ?s = "ucast (BlockIdx off (c_blockSize c)) :: u32"
  let ?e = "ucast (BlockCeilIdx (off + len) (c_blockSize c)) :: u32"
  have idx: "unat ?s = k" "unat ?e = Suc k"
    using sized_offset [OF sz, of k off] sized_offset [OF sz, of "Suc k" "off + len"] e k by simp_all
  then have s: "?s = word_of_nat k" and lt: "?s < ?e"
    by (metis word_of_nat_unat) (simp add: word_less_nat_alt idx)
  have "c_blockSize c \<noteq> 0" using B(3) by (auto simp: bs_of_def)
  moreover have "Present R ?s ?e (c_tracker c) \<longleftrightarrow> stateOf R (c_tracker c) ?s \<noteq> NotPresent"
    unfolding Present_ok [OF dj lt] using word_range_one [OF idx] by metis
  ultimately show ?thesis using e k s by (simp add: isCached_def Let_def)
qed

lemma ReadAt_block:
  assumes inv: "cache_inv R mem c" and k: "k < blocks_of c" "unat off = k * bs_of c" "length buf = bs_of c"
  shows "Cache_ReadAt R c buf off =
    (case held R c k of None \<Rightarrow> Inl BytesNotAvailableError | Some x \<Rightarrow> Inr (x, bs_of c))"
proof -
  have sz: "sized c" using inv by (simp add: cache_inv_def)
  have len: "unat (word_of_nat (length buf) :: i64) = bs_of c"
    using sz k(3) by (simp add: unat_of_nat take_bit_nat_eq_self sized_def)
  note e = sized_end [OF sz, of k 1 off "word_of_nat (length buf)"]
  have ic: "isCached R c off (word_of_nat (length buf)) = Some (stateOf R (c_tracker c) (word_of_nat k) \<noteq> NotPresent)"
    by (rule isCached_block [OF inv k(1,2) len])
  obtain mm where mm: "c_mmap c = Some mm" "mapped_bytes c = mm" "length mm = unat (c_size c)"
    using inv by (auto simp: cache_inv_def mapped_bytes_def)
  have kB: "k * bs_of c + bs_of c \<le> length mm"
    using mult_le_mono1 [of "Suc k" "blocks_of c" "bs_of c"] k(1) mm(3) sized_blocks(1) [OF sz] by simp
  then have lt: "length mm < 2 ^ 44" using mm(3) sz by (simp add: sized_def)
  then have "go_slice mm off (off + word_of_nat (length buf)) = Some (blk mm (bs_of c) k)"
    using e k len kB by (subst go_slice_nat) (simp_all add: blk_def)
  then have "mmap_slice c off (i64_min (off + word_of_nat (length buf)) (c_size c)) = Inr (blk mm (bs_of c) k)"
    using e k len mm(1) by (simp add: mmap_slice_def)
  moreover have "length (blk mm (bs_of c) k) = bs_of c" using kB by (intro length_blk) simp
  moreover have "\<not> c_closed c" "\<not> c_dirtyFile c" using inv by (auto simp: cache_inv_def)
  ultimately show ?thesis
    using ic mm k by (auto simp: Cache_ReadAt_def Cache_Slice_def isClosed_def held_def)
qed

end

section \<open>Writing blocks\<close>

text \<open>\<open>wrote R mem b o s j c c'\<close>: from \<open>c\<close> to \<open>c'\<close> exactly the blocks \<open>o + s\<close> to \<open>o + j\<close> were written, with the
  blocks \<open>s\<close> to \<open>j\<close> of the buffer.\<close>

definition wrote ::
  "'bm roaring_ops \<Rightarrow> ('bm \<Rightarrow> nat set) \<Rightarrow> byte list \<Rightarrow> nat \<Rightarrow> nat \<Rightarrow> nat \<Rightarrow> 'bm Cache \<Rightarrow> 'bm Cache \<Rightarrow> bool" where
  "wrote R mem b o' s j c c' \<longleftrightarrow> cache_inv R mem c' \<and> c_size c' = c_size c \<and> c_blockSize c' = c_blockSize c \<and>
     (\<forall>k. held R c' k = (if o' + s \<le> k \<and> k < o' + j then Some (blk b (bs_of c) (k - o')) else held R c k))"

lemma wrote_trans:
  assumes "wrote R mem b o' s j c c'" "wrote R mem b o' j n c' c''" "s \<le> j" "j \<le> n"
  shows "wrote R mem b o' s n c c''"
  using assms by (auto simp: wrote_def bs_of_def)

context roaring
begin

text \<open>Both branches of \<open>flush\<close> put the same bytes into the mapping; only the state they record differs.\<close>

lemma wrote_range:
  assumes inv: "cache_inv R mem c" and r: "s < j" "o' + j \<le> blocks_of c" "j * bs_of c \<le> length b"
    and st: "st = (if z then Zero else Dirty)" "\<And>x. s \<le> x \<Longrightarrow> x < j \<Longrightarrow> z \<Longrightarrow> IsZero (blk b (bs_of c) x)"
    and ab: "unat a = o' + s" "unat e = o' + j"
  defines "data \<equiv> take ((j - s) * bs_of c) (drop (s * bs_of c) b)"
  shows "wrote R mem b o' s j c (c\<lparr>c_mmap := Some (overwrite (mapped_bytes c) ((o' + s) * bs_of c) data),
    c_tracker := SetRange R a e st (c_tracker c)\<rparr>)" (is "wrote R mem b o' s j c ?c")
proof -
  let ?B = "bs_of c"
  have sz: "sized c" and dj: "disjoint_bitmaps mem (c_tracker c)" and len: "length (mapped_bytes c) = unat (c_size c)"
    using inv by (auto simp: cache_inv_def)
  have le: "(o' + s + (j - s)) * ?B \<le> length (mapped_bytes c)"
    using mult_le_mono1 [OF r(2), of ?B] r(1) len sized_blocks(1) [OF sz] by simp
  have data: "length data = (j - s) * ?B" unfolding data_def by (rule length_section [OF r(3)])
  have blk: "blk (overwrite (mapped_bytes c) ((o' + s) * ?B) data) ?B k =
      (if o' + s \<le> k \<and> k < o' + j then blk b ?B (k - o') else blk (mapped_bytes c) ?B k)" for k
  proof (cases "o' + s \<le> k \<and> k < o' + j")
    case True
    then have "k - (o' + s) < j - s" "s + (k - (o' + s)) = k - o'" by arith+
    then have "blk data ?B (k - (o' + s)) = blk b ?B (k - o')"
      using blk_section [OF r(3), of "k - (o' + s)" s] r(1) by (simp add: data_def)
    then show ?thesis using blk_overwrite [OF data le, of k] True r(1) by simp
  qed (use blk_overwrite [OF data le, of k] r(1) in auto)
  have st': "stateOf R (SetRange R a e st (c_tracker c)) w =
      (if o' + s \<le> unat w \<and> unat w < o' + j then st else stateOf R (c_tracker c) w)" for w
    using SetRange_ok(2) [OF dj, of a e st] ab st(1)
    by (auto simp: spec_SetRange_def word_le_nat_alt word_less_nat_alt)
  have bytes: "mapped_bytes ?c = overwrite (mapped_bytes c) ((o' + s) * ?B) data" "bs_of ?c = ?B" "blocks_of ?c = blocks_of c"
    by (simp_all add: mapped_bytes_def bs_of_def blocks_of_def)
  have "length (overwrite (mapped_bytes c) ((o' + s) * ?B) data) = unat (c_size c)"
    using le data len by (subst length_overwrite) (simp_all add: add_mult_distrib)
  moreover have "unat w < blocks_of c \<and> stateOf R (SetRange R a e st (c_tracker c)) w \<in> {Dirty, Zero} \<and>
      (stateOf R (SetRange R a e st (c_tracker c)) w = Zero \<longrightarrow>
        IsZero (blk (overwrite (mapped_bytes c) ((o' + s) * ?B) data) ?B (unat w)))"
    if "stateOf R (SetRange R a e st (c_tracker c)) w \<noteq> NotPresent" for w
  proof (cases "o' + s \<le> unat w \<and> unat w < o' + j")
    case True
    then have "stateOf R (SetRange R a e st (c_tracker c)) w = st" by (simp add: st')
    then show ?thesis unfolding blk using True st(1) st(2) [of "unat w - o'"] r(2) by (cases z) auto
  next
    case False
    then show ?thesis using inv that unfolding cache_inv_def st' blk if_not_P [OF False] by blast
  qed
  ultimately have "cache_inv R mem ?c"
    using inv SetRange_ok(1) [OF dj] bytes by (simp add: cache_inv_def sized_def)
  moreover have "held R ?c k = (if o' + s \<le> k \<and> k < o' + j then Some (blk b ?B (k - o')) else held R c k)" for k
  proof (cases "k < blocks_of c")
    case True
    then have "unat (word_of_nat k :: u32) = k"
      using sized_blocks(2) [OF sz] by (simp add: unat_of_nat take_bit_nat_eq_self)
    moreover have "st \<noteq> NotPresent" using st(1) by simp
    ultimately show ?thesis using True bytes by (simp add: held_def st' blk)
  qed (use r(2) bytes in \<open>auto simp: held_def\<close>)
  ultimately show ?thesis by (simp add: wrote_def)
qed

end

context roaring
begin

lemma section_zero:
  assumes "j * B \<le> length b" "s \<le> j" "\<And>x. s \<le> x \<Longrightarrow> x < j \<Longrightarrow> IsZero (blk b B x)"
  shows "take ((j - s) * B) (drop (s * B) b) = replicate ((j - s) * B) 0"
  using assms
proof (induction "j - s" arbitrary: s)
  case (Suc d)
  then have js: "j - s = Suc (j - Suc s)" "s < j" by auto
  have "Suc s * B \<le> length b" using Suc.prems(1) js(2) mult_le_mono1 [of "Suc s" j B] by simp
  then have "length (blk b B s) = B" by (rule length_blk)
  then have "blk b B s = replicate B 0" using Suc.prems(3) [of s] js(2) IsZero_iff [of "blk b B s"] by simp
  moreover have "take ((j - Suc s) * B) (drop (Suc s * B) b) = replicate ((j - Suc s) * B) 0"
    using Suc.hyps(2) Suc.prems js by (intro Suc.hyps(1)) auto
  ultimately show ?case
    unfolding js(1) by (simp add: take_add blk_def replicate_add add.commute)
qed simp

lemma write_flush_wrote:
  assumes inv: "cache_inv R mem c" and r: "s < j" "o' + j \<le> blocks_of c" "j * bs_of c \<le> length b"
    and off: "unat off = o' * bs_of c" "unat rs = (o' + s) * bs_of c" "unat re = (o' + j) * bs_of c"
    and z: "\<And>x. s \<le> x \<Longrightarrow> x < j \<Longrightarrow> z \<Longrightarrow> IsZero (blk b (bs_of c) x)"
  shows "\<exists>c'. write_flush R b off rs re z c = Some c' \<and> wrote R mem b o' s j c c'"
proof -
  let ?B = "bs_of c" and ?a = "ucast (BlockIdx rs (c_blockSize c)) :: u32" and ?e = "ucast (BlockCeilIdx re (c_blockSize c)) :: u32"
  let ?data = "take ((j - s) * ?B) (drop (s * ?B) b)"
  let ?c = "c\<lparr>c_mmap := Some (overwrite (mapped_bytes c) ((o' + s) * ?B) ?data),
    c_tracker := SetRange R ?a ?e (if z then Zero else Dirty) (c_tracker c)\<rparr>"
  have sz: "sized c" and len: "length (mapped_bytes c) = unat (c_size c)" and mm: "c_mmap c = Some (mapped_bytes c)"
    using inv by (auto simp: cache_inv_def mapped_bytes_def)
  have le: "o' + s \<le> blocks_of c" using r by simp
  note so = sized_offset [OF sz le off(2)] and eo = sized_offset [OF sz r(2) off(3)]
  have rse: "unat (re - rs) = (j - s) * ?B" "rs + (re - rs) = re" "unat rs \<le> unat re"
    using off r(1) by (simp_all add: unat_sub word_le_nat_alt diff_mult_distrib add_mult_distrib)
  have rel: "unat (rs - off) = s * ?B" "unat (re - off) = j * ?B"
    using off by (simp_all add: unat_sub word_le_nat_alt add_mult_distrib)
  have "s * ?B \<le> j * ?B" using r(1) by simp
  moreover have "j * ?B < 2 ^ 63" using eo(1) off(3) by (simp add: add_mult_distrib)
  ultimately have j63: "s * ?B \<le> j * ?B" "s * ?B < 2 ^ 63" "j * ?B < 2 ^ 63" by linarith+
  have sl: "go_slice (mapped_bytes c) rs re = Some (take ((j - s) * ?B) (drop ((o' + s) * ?B) (mapped_bytes c)))"
    using so eo rse len off by (subst go_slice_nat) (simp_all add: diff_mult_distrib add_mult_distrib)
  have src: "go_slice b (rs - off) (re - off) = Some ?data"
    using rel j63 r(3) by (subst go_slice_nat) (simp_all add: diff_mult_distrib)
  have lens: "length (take ((j - s) * ?B) (drop ((o' + s) * ?B) (mapped_bytes c))) = (j - s) * ?B"
    using eo(2) off(3) len r(1) by (simp add: diff_mult_distrib add_mult_distrib)
  have nrs: "nat (sint rs) = (o' + s) * ?B" using so(1) by (simp add: sint_small_u64 del: of_nat_mult of_nat_add) (rule off(2))
  have "write_flush R b off rs re z c = Some ?c"
  proof (cases z)
    case True
    then have "replicate ((j - s) * ?B) 0 = ?data" using section_zero [OF r(3), of s] r(1) z by simp
    then show ?thesis
      using True mm sl lens nrs rse(2) by (simp add: write_flush_def punchHole_def Let_def)
  next
    case False
    have "length ?data = (j - s) * ?B" by (rule length_section [OF r(3)])
    then show ?thesis using False mm sl lens nrs src by (simp add: write_flush_def Let_def)
  qed
  moreover have "wrote R mem b o' s j c ?c"
    using z by (intro wrote_range [OF inv r refl]) (simp_all add: so eo)
  ultimately show ?thesis by blast
qed

lemma wrote_keeps:
  "wrote R mem b o' s j c c' \<Longrightarrow> cache_inv R mem c' \<and> bs_of c' = bs_of c \<and> blocks_of c' = blocks_of c \<and>
     c_blockSize c' = c_blockSize c \<and> c_size c' = c_size c"
  by (simp add: wrote_def bs_of_def blocks_of_def)

lemma write_loop_wrote:
  assumes inv: "cache_inv R mem c" and r: "s < j" "j \<le> n" "o' + n \<le> blocks_of c" "n * bs_of c \<le> length b"
    and off: "unat off = o' * bs_of c" "unat rs = (o' + s) * bs_of c" "unat i = (o' + j) * bs_of c" "unat e = (o' + n) * bs_of c"
    and z: "\<And>x. s \<le> x \<Longrightarrow> x < j \<Longrightarrow> IsZero (blk b (bs_of c) x) = z"
  shows "\<exists>c'. write_loop R b off e rs z i c = Some c' \<and> wrote R mem b o' s n c c'"
  using assms
proof (induction "n - j" arbitrary: c s j rs z i)
  case 0
  then have "i = e" "j = n" by (simp_all flip: unat_inject)
  then show ?case using 0 write_flush_wrote [of c s n o' b off rs e z] by (simp add: write_loop.simps)
next
  case (Suc d)
  let ?B = "bs_of c"
  have jn: "Suc j \<le> n" using Suc.hyps(2) by simp
  have sz: "sized c" using Suc.prems(1) by (simp add: cache_inv_def)
  have le: "o' + j \<le> blocks_of c" "o' + Suc j \<le> blocks_of c" using Suc.prems jn by simp_all
  have B: "unat (c_blockSize c) = 1 * ?B" "0 < ?B" using sized_blocks(3) [OF sz] by (simp_all add: bs_of_def)
  have nz: "c_blockSize c \<noteq> 0" using B by auto
  note so = sized_offset [OF sz le(1) Suc.prems(8)] and eo = sized_offset [OF sz Suc.prems(4,9)]
  have ib: "unat (i + c_blockSize c) = (o' + Suc j) * ?B"
    using sized_end(1) [OF sz _ Suc.prems(8) B(1)] le(2) by simp
  have lt: "sint i < sint e"
    using so(1) eo(1) Suc.prems(8,9) jn B(2) by (simp add: sint_small_u64)
  have rel: "unat (i - off) = j * ?B"
    using Suc.prems(6,8) by (simp add: unat_sub word_le_nat_alt add_mult_distrib)
  have jB: "Suc j * ?B \<le> n * ?B" using jn by (rule mult_le_mono1)
  moreover have "n * ?B < 2 ^ 44" using eo(1) Suc.prems(9) by (simp add: add_mult_distrib)
  ultimately have rel': "unat (i - off + c_blockSize c) = Suc j * ?B" "Suc j * ?B < 2 ^ 44"
    using rel B(1) sz by (simp_all add: unat_add_u64 sized_def)
  have sl: "go_slice b (i - off) (i - off + c_blockSize c) = Some (blk b ?B j)"
    using rel rel' jB Suc.prems(5) by (subst go_slice_nat) (simp_all add: blk_def)
  have unf: "write_loop R b off e rs z i c =
      (if IsZero (blk b ?B j) = z then write_loop R b off e rs z (i + c_blockSize c) c
       else case write_flush R b off rs i z c of None \<Rightarrow> None
         | Some c' \<Rightarrow> write_loop R b off e i (IsZero (blk b ?B j)) (i + c_blockSize c) c')"
    using lt sl nz by (subst write_loop.simps) (simp add: Let_def)
  show ?case
  proof (cases "IsZero (blk b ?B j) = z")
    case True
    have "\<exists>c'. write_loop R b off e rs z (i + c_blockSize c) c = Some c' \<and> wrote R mem b o' s n c c'"
    proof (rule Suc.hyps(1))
      show "IsZero (blk b ?B x) = z" if "s \<le> x" "x < Suc j" for x
        using True that Suc.prems(10) [of x] by (cases "x = j") auto
    qed (use Suc.prems Suc.hyps(2) jn ib in auto)
    then show ?thesis using unf True by simp
  next
    case False
    obtain c1 where c1: "write_flush R b off rs i z c = Some c1" "wrote R mem b o' s j c c1"
      using write_flush_wrote [OF Suc.prems(1,2) le(1) _ Suc.prems(6,7,8), of b z] Suc.prems(3,5,10) mult_le_mono1 [of j n ?B]
      by fastforce
    note k = wrote_keeps [OF c1(2)]
    have "\<exists>c'. write_loop R b off e i (IsZero (blk b ?B j)) (i + c_blockSize c) c1 = Some c' \<and> wrote R mem b o' j n c1 c'"
    proof (rule Suc.hyps(1))
      show "IsZero (blk b (bs_of c1) x) = IsZero (blk b ?B j)" if "j \<le> x" "x < Suc j" for x
        using that k by (simp add: le_less_Suc_eq)
    qed (use Suc.prems Suc.hyps(2) jn ib k in auto)
    then show ?thesis using unf False c1 wrote_trans [OF c1(2)] Suc.prems(2,3) by auto
  qed
qed

end

lemma small_diff: "(a :: nat) \<le> b \<Longrightarrow> b < 2 ^ 44 \<Longrightarrow> a < 2 ^ 64 \<and> b - a < 2 ^ 64 \<and> a + (b - a) = b"
  by simp

text \<open>The byte offset and size of a run of blocks, as \<open>NewRangeFromBlocks\<close> computes them.\<close>

lemma run_offsets:
  fixes s :: u32 and e bs :: u64
  assumes "unat s < unat e" "unat e * unat bs < 2 ^ 44"
  shows "unat (BlockOffset (ucast s) bs) = unat s * unat bs"
    and "unat (BlockOffset (e - ucast s) bs) = (unat e - unat s) * unat bs"
proof -
  have "unat s * unat bs \<le> unat e * unat bs" using assms(1) by (intro mult_le_mono1) simp
  then have sB: "unat s * unat bs < 2 ^ 64" "(unat e - unat s) * unat bs < 2 ^ 64"
    using small_diff [OF _ assms(2)] unfolding diff_mult_distrib by blast+
  then show "unat (BlockOffset (ucast s) bs) = unat s * unat bs" by (simp add: BlockOffset_def unat_word_ariths)
  have "unat (e - ucast s) = unat e - unat s" using assms(1) by (subst unat_sub) (simp_all add: word_le_nat_alt)
  then show "unat (BlockOffset (e - ucast s) bs) = (unat e - unat s) * unat bs"
    using sB(2) by (simp add: BlockOffset_def unat_word_ariths)
qed

lemma i64_mod_dvd:
  fixes a b :: i64
  assumes "unat a < 2 ^ 63" "unat b < 2 ^ 63" "unat b dvd unat a"
  shows "i64_mod a b = 0"
proof -
  have "sint a smod sint b = int (unat a) mod int (unat b)"
    using assms by (simp add: sint_small_u64 signed_modulo_int_def sdiv_nonneg minus_div_mult_eq_mod)
  also have "\<dots> = 0" using assms(3) by (simp flip: zmod_int)
  finally show ?thesis by (simp add: i64_mod_def)
qed

context roaring
begin

lemma WriteAt_wrote:
  assumes inv: "cache_inv R mem c" and n: "0 < n" "o' + n \<le> blocks_of c"
    and off: "unat off = o' * bs_of c" "length b = n * bs_of c"
  shows "\<exists>c'. WriteAtWithoutLock R b off c = Inr (c', word_of_nat (length b)) \<and> wrote R mem b o' 0 n c c'"
proof -
  let ?B = "bs_of c" and ?l = "word_of_nat (length b) :: i64"
  have sz: "sized c" and mm: "c_mmap c \<noteq> None" "\<not> isClosed c" using inv by (auto simp: cache_inv_def isClosed_def)
  have B: "unat (c_blockSize c) = ?B" "0 < ?B" "?B < 2 ^ 44" using sz sized_blocks(3) [OF sz] by (auto simp: bs_of_def sized_def)
  have le: "o' \<le> blocks_of c" using n by simp
  have "n * ?B \<le> blocks_of c * ?B" using n by (intro mult_le_mono1) simp
  then have nB: "n * ?B < 2 ^ 44" using sized_blocks(1) [OF sz] sz by (simp add: sized_def)
  then have l: "unat ?l = n * ?B" unfolding off(2) by (intro unat_word_of_nat_u64) simp
  note e = sized_end [OF sz n(2) off(1) l] and so = sized_offset [OF sz le off(1)]
  have eo: "unat (off + ?l) < 2 ^ 44" using sized_offset(1) [OF sz n(2) e(1)] .
  have mods: "i64_mod ?l (c_blockSize c) = 0" "i64_mod off (c_blockSize c) = 0"
    using nB B so(1) off(1) l by (auto intro!: i64_mod_dvd)
  have "unat off < unat (off + ?l)" unfolding e(1) off(1) using n(1) B(2) by simp
  then have lt: "sint off < sint (off + ?l)" using so(1) eo by (simp add: sint_small_u64 del: of_nat_mult)
  have bB: "?B \<le> length b" using off(2) n(1) by simp
  then have first: "go_slice b 0 (c_blockSize c) = Some (blk b ?B 0)"
    using B by (subst go_slice_nat) (simp_all add: blk_def)
  have ib: "unat (off + c_blockSize c) = (o' + 1) * ?B"
    using sized_end(1) [OF sz _ off(1), of 1 "c_blockSize c"] B(1) n by simp
  have "\<exists>c'. write_loop R b off (off + ?l) off (IsZero (blk b ?B 0)) (off + c_blockSize c) c = Some c' \<and> wrote R mem b o' 0 n c c'"
    using n off e(1) ib by (intro write_loop_wrote [OF inv, of 0 1]) auto
  then obtain c' where c': "write_loop R b off (off + ?l) off (IsZero (blk b ?B 0)) (off + c_blockSize c) c = Some c'"
    "wrote R mem b o' 0 n c c'" by blast
  moreover have "c_blockSize c \<noteq> 0" using B by auto
  ultimately show ?thesis
    using mm mods lt first by (auto simp: WriteAtWithoutLock_def Let_def e(2))
qed

lemma Cache_WriteAt_eq:
  assumes "cache_inv R mem c"
  shows "Cache_WriteAt R b off c = WriteAtWithoutLock R b off c" "WriteAtShared R b off c = WriteAtWithoutLock R b off c"
  using assms by (auto simp: Cache_WriteAt_def WriteAtShared_def cache_inv_def isClosed_def)

lemma WriteZeroes_wrote:
  assumes inv: "cache_inv R mem c" and n: "0 < n" "o' + n \<le> blocks_of c"
    and off: "unat off = o' * bs_of c" "unat len = n * bs_of c"
  shows "\<exists>c'. Cache_WriteZeroesAt R off len c = Inr (c', len) \<and>
    wrote R mem (replicate (n * bs_of c) 0) o' 0 n c c'"
proof -
  let ?B = "bs_of c"
  have sz: "sized c" and mm: "c_mmap c = Some (mapped_bytes c)" "\<not> isClosed c" "length (mapped_bytes c) = unat (c_size c)"
    using inv by (auto simp: cache_inv_def isClosed_def mapped_bytes_def)
  have le: "o' \<le> blocks_of c" using n by simp
  note e = sized_end [OF sz n(2) off] and so = sized_offset [OF sz le off(1)]
  note eo = sized_offset [OF sz n(2) e(1)]
  have "0 < ?B" using sized_blocks(3) [OF sz] .
  then have "unat off < unat (off + len)" unfolding e(1) off(1) using n(1) by simp
  then have lt: "sint off < sint (off + len)" using so(1) eo(1) by (simp add: sint_small_u64 del: of_nat_mult)
  have sl: "go_slice (mapped_bytes c) off (off + len) = Some (take (n * ?B) (drop (o' * ?B) (mapped_bytes c)))"
    using so eo e(1) off mm(3) by (subst go_slice_nat) (simp_all add: add_mult_distrib)
  have "length (take (n * ?B) (drop (o' * ?B) (mapped_bytes c))) = n * ?B"
    using eo(2) e(1) mm(3) by (simp add: add_mult_distrib)
  moreover have "nat (sint off) = o' * ?B" using so(1) off(1) by (simp add: sint_small_u64 del: of_nat_mult)
  ultimately have ph: "punchHole off len c = Some (c\<lparr>c_mmap := Some (overwrite (mapped_bytes c) (o' * ?B) (replicate (n * ?B) 0))\<rparr>)"
    using mm(1) sl by (simp add: punchHole_def)
  have "wrote R mem (replicate (n * ?B) 0) o' 0 n c
      (c\<lparr>c_mmap := Some (overwrite (mapped_bytes c) ((o' + 0) * ?B) (take ((n - 0) * ?B) (drop (0 * ?B) (replicate (n * ?B) 0)))),
         c_tracker := SetRange R (ucast (BlockIdx off (c_blockSize c))) (ucast (BlockCeilIdx (off + len) (c_blockSize c))) Zero (c_tracker c)\<rparr>)"
    by (rule wrote_range [OF inv n(1,2), where z = True]) (simp_all add: so eo IsZero_iff blk_replicate)
  moreover have "c_blockSize c \<noteq> 0" using \<open>0 < ?B\<close> by (auto simp: bs_of_def)
  ultimately show ?thesis using mm(1,2) lt ph e(2) by (simp add: Cache_WriteZeroesAt_def Let_def)
qed

lemma writeAtIfAbsent_block:
  assumes inv: "cache_inv R mem c" and k: "k < blocks_of c" "unat off = k * bs_of c" "length b = bs_of c"
  shows "\<exists>c'. writeAtIfAbsent R b off c = Inr c' \<and> cache_inv R mem c' \<and> c_size c' = c_size c \<and>
    c_blockSize c' = c_blockSize c \<and> held R c' = (if held R c k = None then (held R c)(k \<mapsto> b) else held R c)"
proof -
  have sz: "sized c" and op: "c_mmap c \<noteq> None" "\<not> isClosed c" using inv by (auto simp: cache_inv_def isClosed_def)
  have len: "unat (word_of_nat (length b) :: i64) = bs_of c"
    using sz k(3) by (simp add: unat_of_nat take_bit_nat_eq_self sized_def)
  note ic = isCached_block [OF inv k(1,2) len]
  show ?thesis
  proof (cases "held R c k")
    case None
    then have absent: "stateOf R (c_tracker c) (word_of_nat k) = NotPresent"
      using k(1) by (auto simp: held_def split: if_splits)
    obtain c' where c': "WriteAtWithoutLock R b off c = Inr (c', word_of_nat (length b))" "wrote R mem b k 0 1 c c'"
      using WriteAt_wrote [OF inv, of 1 k off b] k by auto
    have "held R c' x = ((held R c)(k \<mapsto> b)) x" for x
    proof -
      have "blk b (bs_of c) 0 = b" using k(3) by (simp add: blk_def)
      moreover have "k \<le> x \<and> x < k + 1 \<longleftrightarrow> x = k" by auto
      ultimately show ?thesis using c'(2) by (auto simp: wrote_def)
    qed
    then show ?thesis using None absent c' op ic by (auto simp: writeAtIfAbsent_def wrote_def)
  next
    case (Some y)
    then have "stateOf R (c_tracker c) (word_of_nat k) \<noteq> NotPresent" by (auto simp: held_def split: if_splits)
    then show ?thesis using Some op ic inv by (simp add: writeAtIfAbsent_def)
  qed
qed

end

section \<open>Folding an older cache\<close>

definition same_shape :: "'bm Cache \<Rightarrow> 'bm Cache \<Rightarrow> bool" where
  "same_shape c c' \<longleftrightarrow> c_size c' = c_size c \<and> c_blockSize c' = c_blockSize c"

lemma same_shapeD: "same_shape c c' \<Longrightarrow> bs_of c' = bs_of c \<and> blocks_of c' = blocks_of c"
  by (simp add: same_shape_def bs_of_def blocks_of_def)

lemma same_shape_trans: "same_shape a b \<Longrightarrow> same_shape b c \<Longrightarrow> same_shape a c"
  by (simp add: same_shape_def)

text \<open>The blocks in \<open>S\<close> that \<open>c\<close> does not hold come from \<open>old\<close>.\<close>

definition filled :: "(nat \<Rightarrow> byte list option) \<Rightarrow> nat set \<Rightarrow> (nat \<Rightarrow> byte list option) \<Rightarrow> nat \<Rightarrow> byte list option" where
  "filled old S m k = (if k \<in> S \<and> m k = None then old k else m k)"

lemma filled_filled: "filled old T (filled old S m) = filled old (S \<union> T) m"
  by (auto simp: filled_def fun_eq_iff)

context roaring
begin

lemma held_length:
  assumes "cache_inv R mem c" "held R c k = Some x"
  shows "length x = bs_of c" "k < blocks_of c"
proof -
  show k: "k < blocks_of c" using assms(2) by (auto simp: held_def split: if_splits)
  have "Suc k * bs_of c \<le> blocks_of c * bs_of c" using k by (intro mult_le_mono1) simp
  then have "Suc k * bs_of c \<le> length (mapped_bytes c)"
    using assms(1) sized_blocks(1) [of c] by (simp add: cache_inv_def)
  then show "length x = bs_of c" using length_blk assms(2) by (auto simp: held_def split: if_splits)
qed

lemma fill_range_ok:
  assumes "cache_inv R mem old" "cache_inv R mem c" "same_shape old c" "length buf = bs_of c"
    and "k \<le> m" "m \<le> blocks_of c" "unat off = k * bs_of c" "unat e = m * bs_of c"
    and "\<And>x. k \<le> x \<Longrightarrow> x < m \<Longrightarrow> held R old x \<noteq> None"
  shows "\<exists>buf' c'. fill_range R old buf off e c = Some (Inr (buf', c')) \<and> length buf' = bs_of c \<and>
    cache_inv R mem c' \<and> same_shape c c' \<and> held R c' = filled (held R old) {k..<m} (held R c)"
  using assms(2-)
proof (induction "m - k" arbitrary: k c buf off)
  case 0
  then have "off = e" by (simp flip: unat_inject)
  then show ?case using 0 by (auto simp: fill_range.simps same_shape_def filled_def fun_eq_iff)
next
  case (Suc d)
  note sh = same_shapeD [OF Suc.prems(2)]
  have sz: "sized c" using Suc.prems(1) by (simp add: cache_inv_def)
  have km: "k < m" and kb: "k < blocks_of c" using Suc.hyps(2) Suc.prems by simp_all
  obtain x where x: "held R old k = Some x" using Suc.prems(8) [of k] km by auto
  have rd: "Cache_ReadAt R old buf off = Inr (x, bs_of old)"
    using ReadAt_block [OF assms(1), of k off buf] x kb sh Suc.prems by simp
  have lx: "length x = bs_of c" using held_length [OF assms(1) x] sh by simp
  obtain c1 where c1: "writeAtIfAbsent R x off c = Inr c1" "cache_inv R mem c1" "same_shape c c1"
    "held R c1 = (if held R c k = None then (held R c)(k \<mapsto> x) else held R c)"
    using writeAtIfAbsent_block [OF Suc.prems(1) kb Suc.prems(6) lx] by (auto simp: same_shape_def)
  note sh1 = same_shapeD [OF c1(3)]
  have off1: "unat (off + c_blockSize c) = Suc k * bs_of c1"
    using sized_end(1) [OF sz _ Suc.prems(6), of 1 "c_blockSize c"] kb sh1 by (simp add: bs_of_def)
  have lt: "sint off < sint e"
    using sized_offset(1) [OF sz _ Suc.prems(6)] sized_offset(1) [OF sz Suc.prems(5,7)] Suc.prems(6,7) km kb sized_blocks(3) [OF sz]
    by (simp add: sint_small_u64 del: of_nat_mult)
  have "\<exists>buf' c'. fill_range R old x (off + c_blockSize c) e c1 = Some (Inr (buf', c')) \<and> length buf' = bs_of c1 \<and>
      cache_inv R mem c' \<and> same_shape c1 c' \<and> held R c' = filled (held R old) {Suc k..<m} (held R c1)"
    using Suc.hyps(2) Suc.prems c1 lx sh1 off1 km same_shape_trans
    by (intro Suc.hyps(1)) auto
  moreover have "filled (held R old) {Suc k..<m} (held R c1) = filled (held R old) {k..<m} (held R c)"
    using c1(4) x km by (auto simp: filled_def fun_eq_iff not_less_eq_eq le_Suc_eq)
  ultimately show ?case
    using lt rd c1 sh1 same_shape_trans by (subst fill_range.simps) auto
qed

lemma fill_ranges_ok:
  assumes "cache_inv R mem old"
    and "cache_inv R mem c" "same_shape old c" "length buf = bs_of c"
    and "ascending k rs" "\<And>x. in_ranges rs x \<Longrightarrow> held R old x \<noteq> None"
  shows "\<exists>c'. fill_ranges R old (map (\<lambda>(s, e). (BlockOffset (ucast s) (c_blockSize c), BlockOffset (e - ucast s) (c_blockSize c))) rs) buf c
      = Some (Inr c') \<and> cache_inv R mem c' \<and> same_shape c c' \<and>
    held R c' = filled (held R old) {x. in_ranges rs x} (held R c)"
  using assms(2-)
proof (induction rs arbitrary: k c buf)
  case Nil
  then show ?case by (auto simp: filled_def same_shape_def)
next
  case (Cons r rs)
  obtain s e where r: "r = (s, e)" by (cases r)
  have se: "unat s < unat e" "ascending (unat e) rs" using Cons.prems(4) r by auto
  have sz: "sized c" using Cons.prems(1) by (simp add: cache_inv_def)
  have "unat s \<le> unat e - 1" "unat e - 1 < unat e" using se(1) by simp_all
  then have "in_ranges (r # rs) (unat e - 1)" using r by simp
  then have "held R old (unat e - 1) \<noteq> None" by (rule Cons.prems(5))
  then have eb: "unat e \<le> blocks_of c"
    using held_length(2) [OF assms(1)] se(1) same_shapeD [OF Cons.prems(2)] by fastforce
  have "unat e * bs_of c \<le> blocks_of c * bs_of c" using eb by (rule mult_le_mono1)
  then have eB: "unat e * bs_of c < 2 ^ 44" using sized_blocks(1) [OF sz] sz by (simp add: sized_def)
  note off = run_offsets(1) [OF se(1) eB [unfolded bs_of_def], folded bs_of_def]
  note len = run_offsets(2) [OF se(1) eB [unfolded bs_of_def], folded bs_of_def]
  have sB: "unat s * bs_of c + (unat e - unat s) * bs_of c = unat e * bs_of c"
    using se(1) by (simp flip: add_mult_distrib)
  have e: "unat (BlockOffset (ucast s) (c_blockSize c) + BlockOffset (e - ucast s) (c_blockSize c)) = unat e * bs_of c"
    using off len sB eB by (subst unat_add_u64) simp_all
  have "\<exists>buf' c'. fill_range R old buf (BlockOffset (ucast s) (c_blockSize c))
      (BlockOffset (ucast s) (c_blockSize c) + BlockOffset (e - ucast s) (c_blockSize c)) c = Some (Inr (buf', c')) \<and>
    length buf' = bs_of c \<and> cache_inv R mem c' \<and> same_shape c c' \<and> held R c' = filled (held R old) {unat s..<unat e} (held R c)"
    by (rule fill_range_ok [OF assms(1) Cons.prems(1-3) _ eb off e]) (use se Cons.prems(5) r in auto)
  then obtain buf' c1 where c1: "fill_range R old buf (BlockOffset (ucast s) (c_blockSize c))
      (BlockOffset (ucast s) (c_blockSize c) + BlockOffset (e - ucast s) (c_blockSize c)) c = Some (Inr (buf', c1))"
    "length buf' = bs_of c1" "cache_inv R mem c1" "same_shape c c1" "held R c1 = filled (held R old) {unat s..<unat e} (held R c)"
    using same_shapeD by fastforce
  have "c_blockSize c1 = c_blockSize c" using c1(4) by (simp add: same_shape_def)
  moreover have "{x. in_ranges (r # rs) x} = {unat s..<unat e} \<union> {x. in_ranges rs x}" using r by auto
  ultimately show ?case
    using Cons.IH [OF c1(3) same_shape_trans [OF Cons.prems(2) c1(4)] c1(2) se(2)] Cons.prems(5) c1 r same_shape_trans [OF c1(4)]
    by (auto simp: filled_filled)
qed

text \<open>The bitmap whose runs \<open>FillMissingFrom\<close> walks is the set of the blocks that the older cache holds.\<close>

lemma present_held:
  assumes "cache_inv R mem old"
  shows "x \<in> mem (bm_Or R (t_dirty (c_tracker old)) (bm_Or R (t_zero (c_tracker old)) (t_removed (c_tracker old)))) \<longleftrightarrow> held R old x \<noteq> None"
    (is "x \<in> mem ?p \<longleftrightarrow> _")
proof -
  let ?t = "c_tracker old"
  have dj: "disjoint_bitmaps mem ?t" and sz: "sized old" using assms by (auto simp: cache_inv_def)
  show ?thesis
  proof (cases "x < 2 ^ 32")
    case True
    then have w: "unat (word_of_nat x :: u32) = x" by (simp add: unat_of_nat take_bit_nat_eq_self)
    have st: "stateOf R ?t w \<noteq> NotPresent \<Longrightarrow> unat w < blocks_of old \<and> stateOf R ?t w \<in> {Dirty, Zero}" for w
      using assms by (simp add: cache_inv_def)
    show ?thesis using st [of "word_of_nat x"] stateOf_iff [OF dj, of "word_of_nat x"] w
      by (auto simp: Or held_def)
  next
    case False
    then have "x \<notin> mem ?p" using mem_bound [of ?p] by auto
    then show ?thesis using False sized_blocks(2) [OF sz] by (simp add: held_def)
  qed
qed

lemma DiffMetadata_open:
  assumes "cache_inv R mem c"
  shows "Cache_DiffMetadata R c = Inr \<lparr>dm_Dirty = t_dirty (c_tracker c),
    dm_Empty = bm_Or R (t_zero (c_tracker c)) (t_removed (c_tracker c)), dm_BlockSize = c_blockSize c\<rparr>"
  using assms by (auto simp: Cache_DiffMetadata_def cache_inv_def isClosed_def Export_def NewDiffMetadata_def)

lemma FillMissingFrom_ok:
  assumes "cache_inv R mem old" "cache_inv R mem c" "same_shape old c"
  shows "\<exists>c'. FillMissingFrom R (Some old) c = Some (Inr c') \<and> cache_inv R mem c' \<and> same_shape c c' \<and>
    held R c' = held R old ++ held R c"
proof -
  let ?t = "c_tracker old"
  let ?p = "bm_Or R (t_dirty ?t) (bm_Or R (t_zero ?t) (t_removed ?t))"
  have runs: "ascending 0 (bm_Ranges R ?p)" "in_ranges (bm_Ranges R ?p) x \<longleftrightarrow> x \<in> mem ?p" for x
    using Ranges [of ?p] by (auto simp: is_runs_def)
  note p = present_held [OF assms(1)]
  have B: "sint (c_blockSize c) \<ge> 0" "nat (sint (c_blockSize c)) = bs_of c"
    using assms(2) by (simp_all add: cache_inv_def sized_def bs_of_def sint_small_u64)
  have "\<exists>c'. fill_ranges R old (BitsetRanges R ?p (c_blockSize c)) (replicate (bs_of c) 0) c = Some (Inr c') \<and>
      cache_inv R mem c' \<and> same_shape c c' \<and> held R c' = filled (held R old) {x. in_ranges (bm_Ranges R ?p) x} (held R c)"
    unfolding BitsetRanges_def
    by (rule fill_ranges_ok [OF assms]) (use runs p in auto)
  moreover have "filled (held R old) {x. in_ranges (bm_Ranges R ?p) x} (held R c) = held R old ++ held R c"
    by (auto simp: filled_def runs(2) p map_add_def fun_eq_iff split: option.splits)
  ultimately show ?thesis using B DiffMetadata_open [OF assms(1)] by (simp add: FillMissingFrom_def Let_def)
qed

end

section \<open>Properties of the cache\<close>

context roaring
begin

lemma wrote_held:
  assumes "wrote R mem b o' 0 n c c'"
  shows "cache_inv R mem c'" "bs_of c' = bs_of c" "blocks_of c' = blocks_of c"
    "held R c' k = (if o' \<le> k \<and> k < o' + n then Some (blk b (bs_of c) (k - o')) else held R c k)"
  using assms by (simp_all add: wrote_def bs_of_def blocks_of_def)

lemma WriteAt_reads:
  assumes "cache_inv R mem c" and "0 < n" and "o' + n \<le> blocks_of c"
    and "unat off = o' * bs_of c" and "length b = n * bs_of c"
  shows "\<exists>c'. Cache_WriteAt R b off c = Inr (c', word_of_nat (length b)) \<and> cache_inv R mem c' \<and>
    (\<forall>k < blocks_of c. \<forall>p buf. unat p = k * bs_of c \<and> length buf = bs_of c \<longrightarrow>
       Cache_ReadAt R c' buf p =
         (if o' \<le> k \<and> k < o' + n then Inr (take (bs_of c) (drop ((k - o') * bs_of c) b), bs_of c)
          else Cache_ReadAt R c buf p))"
proof -
  obtain c' where c': "WriteAtWithoutLock R b off c = Inr (c', word_of_nat (length b))" "wrote R mem b o' 0 n c c'"
    using WriteAt_wrote [OF assms] by blast
  note w = wrote_held [OF c'(2)]
  have "Cache_ReadAt R c' buf p =
      (if o' \<le> k \<and> k < o' + n then Inr (take (bs_of c) (drop ((k - o') * bs_of c) b), bs_of c)
       else Cache_ReadAt R c buf p)" if "k < blocks_of c" "unat p = k * bs_of c" "length buf = bs_of c" for k p buf
    using ReadAt_block [OF w(1), of k p buf] ReadAt_block [OF assms(1) that] that w by (simp add: blk_def split: option.split)
  then show ?thesis using c'(1) w(1) Cache_WriteAt_eq(1) [OF assms(1)] by auto
qed

end

text \<open>A fresh cache of two blocks, for the examples.\<close>

definition sample_cache :: "u32 set Cache" where
  "sample_cache = \<lparr>c_filePath = ''cache'', c_size = 8192, c_blockSize = 4096, c_mmap = Some (replicate 8192 0),
     c_tracker = NewTracker set_roaring, c_dirtyFile = False, c_closed = False\<rparr>"

lemma sample_cache_facts:
  "cache_inv set_roaring (\<lambda>b. unat ` b) sample_cache" "bs_of sample_cache = 4096" "blocks_of sample_cache = 2"
  "held set_roaring sample_cache k = None"
  by (simp_all add: sample_cache_def cache_inv_def sized_def mapped_bytes_def blocks_of_def bs_of_def held_def sets.new_ok)

text \<open>
  C11. Read after write: on a cache that satisfies the invariant, an aligned write inside the
  device succeeds in full, the invariant holds again, every block it covers then reads back the
  bytes written, zero runs included, and every other block reads as before, available or not.
\<close>

theorem WriteAt_reads_back:
  assumes "roaring R mem" and "cache_inv R mem c" and "0 < n" and "o' + n \<le> blocks_of c"
    and "unat off = o' * bs_of c" and "length b = n * bs_of c"
  shows "\<exists>c'. Cache_WriteAt R b off c = Inr (c', word_of_nat (length b)) \<and> cache_inv R mem c' \<and>
    (\<forall>k < blocks_of c. \<forall>p buf. unat p = k * bs_of c \<and> length buf = bs_of c \<longrightarrow>
       Cache_ReadAt R c' buf p =
         (if o' \<le> k \<and> k < o' + n then Inr (take (bs_of c) (drop ((k - o') * bs_of c) b), bs_of c)
          else Cache_ReadAt R c buf p))"
  by (rule roaring.WriteAt_reads [OF assms])

theorem WriteAt_reads_back_witness:
  "\<exists>c'. Cache_WriteAt set_roaring (replicate 4096 7) 4096 sample_cache = Inr (c', 4096) \<and>
     Cache_ReadAt set_roaring c' (replicate 4096 0) 4096 = Inr (replicate 4096 7, 4096)"
proof -
  define b :: "byte list" where "b = replicate 4096 7"
  have b: "length b = 1 * bs_of sample_cache" "unat (4096 :: i64) = 1 * bs_of sample_cache"
    by (simp_all add: b_def sample_cache_facts)
  obtain c' where c': "Cache_WriteAt set_roaring b 4096 sample_cache = Inr (c', word_of_nat (length b))"
    "\<forall>k < blocks_of sample_cache. \<forall>p buf. unat p = k * bs_of sample_cache \<and> length buf = bs_of sample_cache \<longrightarrow>
       Cache_ReadAt set_roaring c' buf p =
         (if 1 \<le> k \<and> k < 1 + 1 then Inr (take (bs_of sample_cache) (drop ((k - 1) * bs_of sample_cache) b), bs_of sample_cache)
          else Cache_ReadAt set_roaring sample_cache buf p)"
    using WriteAt_reads_back [OF sets.roaring_axioms sample_cache_facts(1) _ _ b(2,1)] by (auto simp: sample_cache_facts)
  have "Cache_ReadAt set_roaring c' (replicate 4096 0) 4096 = Inr (b, 4096)"
    using c'(2) [rule_format, of 1 4096 "replicate 4096 0"] b by (simp add: sample_cache_facts)
  moreover have "(word_of_nat (length b) :: i64) = 4096" using b by (simp add: sample_cache_facts)
  ultimately show ?thesis using c'(1) unfolding b_def by auto
qed

text \<open>
  C12. Folding an older cache: \<open>FillMissingFrom\<close> returns without error, keeps the invariant, and afterwards the
  cache holds its own block wherever it had one, the older cache's block elsewhere, and nothing else.
\<close>

theorem FillMissingFrom_joins:
  assumes "roaring R mem" and "cache_inv R mem old" and "cache_inv R mem c"
    and "c_size c = c_size old" and "c_blockSize c = c_blockSize old"
  shows "\<exists>c'. FillMissingFrom R (Some old) c = Some (Inr c') \<and> cache_inv R mem c' \<and>
    held R c' = held R old ++ held R c"
  using roaring.FillMissingFrom_ok [OF assms(1-3)] assms(4,5) by (auto simp: same_shape_def)

theorem FillMissingFrom_joins_witness:
  "\<exists>c'. FillMissingFrom set_roaring (Some sample_cache) sample_cache = Some (Inr c') \<and> held set_roaring c' 1 = None"
  using FillMissingFrom_joins [OF sets.roaring_axioms sample_cache_facts(1) sample_cache_facts(1)]
  by (auto simp: sample_cache_facts map_add_def)

end
