(* ===== verification/Block_Overlay.thy ===== *)
theory Block_Overlay
  imports Block_Cache
begin

text \<open>
  The copy-on-write overlay of \<open>packages/orchestrator/pkg/sandbox/block/overlay.go\<close>: a read-only base device
  under a writable cache, with a third, frozen cache in between while a snapshot is sealed. The
  contract is a flat disk: whatever swaps and folds happen, the overlay reads as the base with the
  guest's writes applied in order.
\<close>

section \<open>The overlay\<close>

text \<open>The base is any \<open>ReadonlyDevice\<close>; of it the overlay uses \<open>ReadAt\<close>, which returns the buffer as
  it is afterwards.\<close>

type_synonym device = "byte list \<Rightarrow> i64 \<Rightarrow> cache_error + byte list \<times> nat"

datatype overlay_error =
    CacheEjected | StillSealing | CacheAlreadyEjected | NotImplemented | CacheError cache_error

record 'bm Overlay =
  o_device :: device
  o_cache :: "'bm Cache"
  o_sealing :: "'bm Cache option"
  o_cacheEjected :: bool
  o_blockSize :: i64

definition NewOverlay :: "device \<Rightarrow> i64 \<Rightarrow> 'bm Cache \<Rightarrow> 'bm Overlay" where
  "NewOverlay device deviceBlockSize cache =
     \<lparr>o_device = device, o_cache = cache, o_sealing = None, o_cacheEjected = False, o_blockSize = deviceBlockSize\<rparr>"

fun isCacheClosed :: "cache_error \<Rightarrow> bool" where
  "isCacheClosed (CacheClosedError _) = True"
| "isCacheClosed _ = False"

text \<open>The body of the loop of \<open>ReadAt\<close>. The two cache pointers are loaded once, but the caches behind them can
  change while the read runs: \<open>cache\<close> and \<open>cache2\<close> are the writable cache at the first read and at
  the re-read.\<close>

definition read_base :: "device \<Rightarrow> byte list \<Rightarrow> i64 \<Rightarrow> cache_error + byte list" where
  "read_base device buf off = map_sum id fst (device buf off)"

definition read_block ::
  "'bm roaring_ops \<Rightarrow> device \<Rightarrow> 'bm Cache \<Rightarrow> 'bm Cache option \<Rightarrow> 'bm Cache \<Rightarrow> byte list \<Rightarrow> i64 \<Rightarrow> cache_error + byte list" where
  "read_block R device cache sealing cache2 buf off =
     (case Cache_ReadAt R cache buf off of
        Inr (buf', _) \<Rightarrow> Inr buf'
      | Inl e \<Rightarrow>
          if e \<noteq> BytesNotAvailableError then Inl e
          else case sealing of
              None \<Rightarrow> read_base device buf off
            | Some s \<Rightarrow>
                (case Cache_ReadAt R s buf off of
                   Inr (buf', _) \<Rightarrow> Inr buf'
                 | Inl e \<Rightarrow>
                     if isCacheClosed e then
                       (case Cache_ReadAt R cache2 buf off of
                          Inr (buf', _) \<Rightarrow> Inr buf'
                        | Inl e \<Rightarrow> if e \<noteq> BytesNotAvailableError then Inl e else read_base device buf off)
                     else if e \<noteq> BytesNotAvailableError then Inl e
                     else read_base device buf off))"

fun read_blocks :: "'bm roaring_ops \<Rightarrow> 'bm Overlay \<Rightarrow> i64 \<Rightarrow> i64 list \<Rightarrow> byte list \<Rightarrow> cache_error + byte list" where
  "read_blocks R v off [] p = Inr p"
| "read_blocks R v off (blockOff # rest) p =
     (case go_slice p blockOff (blockOff + o_blockSize v) of
        None \<Rightarrow> Inl CachePanic
      | Some buf \<Rightarrow>
          (case read_block R (o_device v) (o_cache v) (o_sealing v) (o_cache v) buf (off + blockOff) of
             Inl e \<Rightarrow> Inl e
           | Inr buf' \<Rightarrow> read_blocks R v off rest (overwrite p (nat (sint blockOff)) buf')))"

definition Overlay_ReadAt ::
  "'bm roaring_ops \<Rightarrow> 'bm Overlay \<Rightarrow> byte list \<Rightarrow> i64 \<Rightarrow> cache_error + byte list \<times> nat" where
  "Overlay_ReadAt R v p off =
     (if o_blockSize v = 0 then Inl CachePanic
      else case BlocksOffsets (word_of_nat (length p)) (o_blockSize v) of
          None \<Rightarrow> Inl CachePanic
        | Some blocks \<Rightarrow> map_sum id (\<lambda>p'. (p', length p)) (read_blocks R v off blocks p))"

definition SwapCache :: "'bm Cache \<Rightarrow> 'bm Overlay \<Rightarrow> overlay_error + 'bm Cache \<times> 'bm Overlay" where
  "SwapCache newCache v =
     (if o_cacheEjected v then Inl CacheEjected
      else if o_sealing v \<noteq> None then Inl StillSealing
      else Inr (o_cache v, v\<lparr>o_sealing := Some (o_cache v), o_cache := newCache\<rparr>))"

definition ReleaseSealing :: "'bm Overlay \<Rightarrow> 'bm Cache option \<times> 'bm Overlay" where
  "ReleaseSealing v = (o_sealing v, v\<lparr>o_sealing := None\<rparr>)"

text \<open>\<open>None\<close> when \<open>FillMissingFrom\<close> does not return.\<close>

definition FoldSealing :: "'bm roaring_ops \<Rightarrow> 'bm Overlay \<Rightarrow> (overlay_error + 'bm Cache option \<times> 'bm Overlay) option" where
  "FoldSealing R v =
     (case o_sealing v of
        None \<Rightarrow> Some (Inr (None, v))
      | Some sealing \<Rightarrow>
          (case FillMissingFrom R (Some sealing) (o_cache v) of
             None \<Rightarrow> None
           | Some (Inl e) \<Rightarrow> Some (Inl (CacheError e))
           | Some (Inr c) \<Rightarrow> Some (Inr (ReleaseSealing (v\<lparr>o_cache := c\<rparr>)))))"

definition EjectCache :: "'bm Overlay \<Rightarrow> overlay_error + 'bm Cache \<times> 'bm Overlay" where
  "EjectCache v =
     (if o_cacheEjected v then Inl CacheAlreadyEjected
      else Inr (o_cache v, v\<lparr>o_cacheEjected := True\<rparr>))"

definition Overlay_Slice :: "'bm Overlay \<Rightarrow> i64 \<Rightarrow> i64 \<Rightarrow> overlay_error + byte list" where
  "Overlay_Slice v off len = Inl NotImplemented"

definition on_cache :: "('bm Cache \<Rightarrow> cache_error + 'bm Cache \<times> i64) \<Rightarrow> 'bm Overlay \<Rightarrow> cache_error + 'bm Overlay \<times> i64" where
  "on_cache f v = map_sum id (\<lambda>(c, n). (v\<lparr>o_cache := c\<rparr>, n)) (f (o_cache v))"

definition Overlay_WriteAt :: "'bm roaring_ops \<Rightarrow> byte list \<Rightarrow> i64 \<Rightarrow> 'bm Overlay \<Rightarrow> cache_error + 'bm Overlay \<times> i64" where
  "Overlay_WriteAt R p off v = on_cache (Cache_WriteAt R p off) v"

definition Overlay_WriteZeroesAt :: "'bm roaring_ops \<Rightarrow> i64 \<Rightarrow> i64 \<Rightarrow> 'bm Overlay \<Rightarrow> cache_error + 'bm Overlay \<times> i64" where
  "Overlay_WriteZeroesAt R off len v = on_cache (Cache_WriteZeroesAt R off len) v"

definition Overlay_Size :: "'bm Overlay \<Rightarrow> cache_error + i64" where
  "Overlay_Size v = Cache_Size (o_cache v)"

text \<open>\<open>Close\<close> with the system's answers for the two caches; the result is the list of joined errors.\<close>

definition Overlay_Close ::
  "string option \<times> string option \<Rightarrow> string option \<times> string option \<Rightarrow> 'bm Overlay \<Rightarrow> 'bm Overlay \<times> cache_error list" where
  "Overlay_Close sealingSys cacheSys v =
     (let (sealing, v1) = ReleaseSealing v;
          errs1 = (case sealing of None \<Rightarrow> [] | Some s \<Rightarrow> snd (Cache_Close (fst sealingSys) (snd sealingSys) s))
      in if \<not> o_cacheEjected v1 then
           let (c, errs2) = Cache_Close (fst cacheSys) (snd cacheSys) (o_cache v1)
           in (v1\<lparr>o_cache := c\<rparr>, errs1 @ errs2)
         else (v1, errs1))"

section \<open>The flat disk\<close>

text \<open>The base device holds the blocks \<open>base\<close>; a layered overlay shows the youngest layer that holds a
  block.\<close>

definition device_ok :: "device \<Rightarrow> (nat \<Rightarrow> byte list) \<Rightarrow> nat \<Rightarrow> nat \<Rightarrow> bool" where
  "device_ok device base B N \<longleftrightarrow>
     (\<forall>k < N. length (base k) = B \<and>
        (\<forall>buf off. length buf = B \<longrightarrow> unat off = k * B \<longrightarrow> device buf off = Inr (base k, B)))"

definition sealing_held :: "'bm roaring_ops \<Rightarrow> 'bm Overlay \<Rightarrow> nat \<Rightarrow> byte list option" where
  "sealing_held R v = (case o_sealing v of None \<Rightarrow> Map.empty | Some s \<Rightarrow> held R s)"

definition layers :: "'bm roaring_ops \<Rightarrow> 'bm Overlay \<Rightarrow> nat \<Rightarrow> byte list option" where
  "layers R v = sealing_held R v ++ held R (o_cache v)"

definition shows_disk :: "'bm roaring_ops \<Rightarrow> (nat \<Rightarrow> byte list) \<Rightarrow> 'bm Overlay \<Rightarrow> nat \<Rightarrow> byte list" where
  "shows_disk R base v k = (case layers R v k of None \<Rightarrow> base k | Some x \<Rightarrow> x)"

definition overlay_inv ::
  "'bm roaring_ops \<Rightarrow> ('bm \<Rightarrow> nat set) \<Rightarrow> (nat \<Rightarrow> byte list) \<Rightarrow> 'bm Overlay \<Rightarrow> bool" where
  "overlay_inv R mem base v \<longleftrightarrow> cache_inv R mem (o_cache v) \<and> o_blockSize v = c_blockSize (o_cache v) \<and>
     device_ok (o_device v) base (bs_of (o_cache v)) (blocks_of (o_cache v)) \<and>
     (case o_sealing v of None \<Rightarrow> True | Some s \<Rightarrow> cache_inv R mem s \<and> same_shape s (o_cache v))"

abbreviation vbs :: "'bm Overlay \<Rightarrow> nat" where "vbs v \<equiv> bs_of (o_cache v)"
abbreviation vblocks :: "'bm Overlay \<Rightarrow> nat" where "vblocks v \<equiv> blocks_of (o_cache v)"

context roaring
begin

lemma read_block_ok:
  assumes inv: "overlay_inv R mem base v" and k: "k < vblocks v" "unat off = k * vbs v" "length buf = vbs v"
  shows "read_block R (o_device v) (o_cache v) (o_sealing v) c2 buf off = Inr (shows_disk R base v k)"
proof -
  have c: "cache_inv R mem (o_cache v)" using inv by (simp add: overlay_inv_def)
  have dev: "o_device v buf off = Inr (base k, vbs v)" using inv k by (simp add: overlay_inv_def device_ok_def)
  have s: "Cache_ReadAt R s buf off = (case held R s k of None \<Rightarrow> Inl BytesNotAvailableError | Some x \<Rightarrow> Inr (x, bs_of s))"
    if "o_sealing v = Some s" for s
  proof -
    have i: "cache_inv R mem s" "same_shape s (o_cache v)" using inv that by (simp_all add: overlay_inv_def)
    show ?thesis using k same_shapeD [OF i(2)] by (intro ReadAt_block [OF i(1)]) simp_all
  qed
  show ?thesis
    using ReadAt_block [OF c k] dev s
    by (auto simp: read_block_def shows_disk_def layers_def sealing_held_def read_base_def map_add_def split: option.splits)
qed

lemma shows_disk_length:
  assumes "overlay_inv R mem base v" "k < vblocks v"
  shows "length (shows_disk R base v k) = vbs v"
proof -
  have "length x = vbs v" if l: "layers R v k = Some x" for x
  proof (cases "held R (o_cache v) k")
    case None
    then obtain s where s: "o_sealing v = Some s" "held R s k = Some x"
      using l by (auto simp: layers_def sealing_held_def map_add_def split: option.splits)
    then have "cache_inv R mem s" "same_shape s (o_cache v)" using assms(1) by (simp_all add: overlay_inv_def)
    then show ?thesis using held_length(1) s(2) same_shapeD by metis
  next
    case (Some y)
    then have "x = y" using l by (simp add: layers_def)
    then show ?thesis using held_length(1) Some assms(1) by (auto simp: overlay_inv_def)
  qed
  then show ?thesis
    using assms by (auto simp: shows_disk_def overlay_inv_def device_ok_def split: option.splits)
qed

end

section \<open>Reading several blocks\<close>

lemma BlocksOffsets_exact:
  assumes "unat bs = B" "0 < B" "B < 2 ^ 44" "n * B < 2 ^ 44"
  shows "BlocksOffsets (word_of_nat (n * B)) bs = Some (map (\<lambda>i. word_of_nat i * bs) [0..<n])"
proof -
  have l: "unat (word_of_nat (n * B) :: i64) = n * B" using assms(4) by (intro unat_word_of_nat_u64) simp
  then have "unat (word_of_nat (n * B) + bs) = n * B + B" using assms by (simp add: unat_add_u64 del: of_nat_mult)
  then have "unat (word_of_nat (n * B) + bs - 1) = n * B + (B - 1)"
    using assms(2) by (subst unat_sub) (simp_all add: word_le_nat_alt del: of_nat_mult)
  moreover have "n * B + (B - 1) < 2 ^ 63" using assms by simp
  ultimately have "unat (TotalBlocks (word_of_nat (n * B)) bs) = (n * B + (B - 1)) div B"
    using assms by (simp add: TotalBlocks_def i64_div_nonneg del: of_nat_mult)
  also have "\<dots> = n" using assms(2) by (intro div_nat_eqI) (simp_all add: mult.commute)
  finally have t: "unat (TotalBlocks (word_of_nat (n * B)) bs) = n" .
  have "n \<le> n * B" using assms(2) by simp
  then have "n < 2 ^ 44" using assms(4) by linarith
  then have "sint (TotalBlocks (word_of_nat (n * B)) bs) = int n"
    using t by (subst sint_small_u64) (simp_all del: of_nat_mult)
  then show ?thesis by (simp add: BlocksOffsets_def BlockOffset_def Let_def del: of_nat_mult)
qed

context roaring
begin

lemma read_blocks_ok:
  assumes inv: "overlay_inv R mem base v" and n: "o' + n \<le> vblocks v" and off: "unat off = o' * vbs v"
    and "j \<le> n" "length p = n * vbs v"
  shows "read_blocks R v off (map (\<lambda>i. word_of_nat i * o_blockSize v) [j..<n]) p =
    Inr (take (j * vbs v) p @ concat (map (shows_disk R base v) [o' + j..<o' + n]))"
  using assms(4,5)
proof (induction "n - j" arbitrary: j p)
  case 0
  then show ?case by simp
next
  case (Suc d)
  let ?B = "vbs v"
  have jn: "j < n" using Suc.hyps(2) by simp
  have sz: "sized (o_cache v)" and bs: "unat (o_blockSize v) = ?B"
    using inv by (simp_all add: overlay_inv_def cache_inv_def bs_of_def)
  have "n * ?B \<le> vblocks v * ?B" using n by (intro mult_le_mono1) simp
  then have nB: "n * ?B < 2 ^ 44" using sized_blocks(1) [OF sz] sz by (simp add: sized_def)
  have jB: "j * ?B + ?B \<le> n * ?B" using mult_le_mono1 [of "Suc j" n ?B] jn by simp
  let ?bo = "word_of_nat j * o_blockSize v"
  have "j \<le> j * ?B" using sized_blocks(3) [OF sz] by simp
  then have "j < 2 ^ 44" using jB nB by linarith
  then have "unat (word_of_nat j :: i64) = j" by (intro unat_word_of_nat_u64) simp
  then have bo: "unat ?bo = j * ?B" using bs jB nB by (simp add: unat_word_ariths)
  then have boe: "unat (?bo + o_blockSize v) = j * ?B + ?B" using bs jB nB by (simp add: unat_add_u64)
  have sl: "go_slice p ?bo (?bo + o_blockSize v) = Some (take ?B (drop (j * ?B) p))"
    using bo boe jB nB Suc.prems(2) by (subst go_slice_nat) simp_all
  have "unat (off + ?bo) = (o' + j) * ?B"
    using sized_end(1) [OF sz _ off bo] n jn by simp
  then have rb: "read_block R (o_device v) (o_cache v) (o_sealing v) (o_cache v) (take ?B (drop (j * ?B) p)) (off + ?bo) =
      Inr (shows_disk R base v (o' + j))"
    using n jn jB Suc.prems(2) by (intro read_block_ok [OF inv]) simp_all
  have ld: "length (shows_disk R base v (o' + j)) = ?B" using n jn by (intro shows_disk_length [OF inv]) simp
  let ?p = "overwrite p (j * ?B) (shows_disk R base v (o' + j))"
  have "nat (sint ?bo) = j * ?B" using bo jB nB by (simp add: sint_small_u64 del: of_nat_mult)
  moreover have "read_blocks R v off (map (\<lambda>i. word_of_nat i * o_blockSize v) [Suc j..<n]) ?p =
      Inr (take (Suc j * ?B) ?p @ concat (map (shows_disk R base v) [o' + Suc j..<o' + n]))"
    using Suc.hyps(2) jn ld jB Suc.prems(2) by (intro Suc.hyps(1)) simp_all
  moreover have "take (Suc j * ?B) ?p = take (j * ?B) p @ shows_disk R base v (o' + j)"
    using ld jn Suc.prems(2) by (simp add: overwrite_def add.commute)
  ultimately show ?case
    using sl rb jn by (simp add: upt_conv_Cons)
qed

lemma Overlay_ReadAt_ok:
  assumes inv: "overlay_inv R mem base v" and n: "o' + n \<le> vblocks v" and off: "unat off = o' * vbs v"
    and p: "length p = n * vbs v"
  shows "Overlay_ReadAt R v p off = Inr (concat (map (shows_disk R base v) [o'..<o' + n]), length p)"
proof -
  have sz: "sized (o_cache v)" and bs: "unat (o_blockSize v) = vbs v"
    using inv by (simp_all add: overlay_inv_def cache_inv_def bs_of_def)
  have B: "0 < vbs v" "vbs v < 2 ^ 44" using sized_blocks(3) [OF sz] sz by (simp_all add: sized_def)
  have "n * vbs v \<le> vblocks v * vbs v" using n by (intro mult_le_mono1) simp
  then have "n * vbs v < 2 ^ 44" using sized_blocks(1) [OF sz] sz by (simp add: sized_def)
  from BlocksOffsets_exact [OF bs B this] read_blocks_ok [OF inv n off _ p, of 0] p
  show ?thesis using B bs by (auto simp: Overlay_ReadAt_def simp del: of_nat_mult)
qed

end

section \<open>Histories of an overlay\<close>

text \<open>The guest's writes in order, each a block number and whole blocks of data, on the blocks of a disk.\<close>

type_synonym disk = "nat \<Rightarrow> byte list"

definition write_disk :: "nat \<Rightarrow> nat \<times> byte list \<Rightarrow> disk \<Rightarrow> disk" where
  "write_disk B w d k = (let (o', b) = w in if o' \<le> k \<and> k < o' + length b div B then blk b B (k - o') else d k)"

definition fresh_cache :: "'bm roaring_ops \<Rightarrow> ('bm \<Rightarrow> nat set) \<Rightarrow> 'bm Cache \<Rightarrow> bool" where
  "fresh_cache R mem c \<longleftrightarrow> cache_inv R mem c \<and> (\<forall>k. held R c k = None)"

text \<open>Steps of an overlay: an aligned write or zeroing of the guest, a snapshot's swap to a fresh cache, the
  fold of the sealed cache, each as the code performs it when it reports no error.\<close>

inductive overlay_reaches ::
  "'bm roaring_ops \<Rightarrow> ('bm \<Rightarrow> nat set) \<Rightarrow> disk \<Rightarrow> (nat \<times> byte list) list \<Rightarrow> 'bm Overlay \<Rightarrow> bool"
  for R :: "'bm roaring_ops" and mem :: "'bm \<Rightarrow> nat set" and base :: disk where
  new: "fresh_cache R mem c \<Longrightarrow> device_ok device base (bs_of c) (blocks_of c) \<Longrightarrow>
    overlay_reaches R mem base [] (NewOverlay device (c_blockSize c) c)"
| guest_write: "overlay_reaches R mem base ws v \<Longrightarrow> 0 < n \<Longrightarrow> o' + n \<le> vblocks v \<Longrightarrow> unat off = o' * vbs v \<Longrightarrow>
    length b = n * vbs v \<Longrightarrow> Overlay_WriteAt R b off v = Inr (v', m) \<Longrightarrow>
    overlay_reaches R mem base (ws @ [(o', b)]) v'"
| guest_zero: "overlay_reaches R mem base ws v \<Longrightarrow> 0 < n \<Longrightarrow> o' + n \<le> vblocks v \<Longrightarrow> unat off = o' * vbs v \<Longrightarrow>
    unat len = n * vbs v \<Longrightarrow> Overlay_WriteZeroesAt R off len v = Inr (v', m) \<Longrightarrow>
    overlay_reaches R mem base (ws @ [(o', replicate (n * vbs v) 0)]) v'"
| swap: "overlay_reaches R mem base ws v \<Longrightarrow> fresh_cache R mem c \<Longrightarrow> same_shape (o_cache v) c \<Longrightarrow>
    SwapCache c v = Inr (old, v') \<Longrightarrow> overlay_reaches R mem base ws v'"
| fold: "overlay_reaches R mem base ws v \<Longrightarrow> FoldSealing R v = Some (Inr (old, v')) \<Longrightarrow>
    overlay_reaches R mem base ws v'"

context roaring
begin

lemma overlay_wrote:
  assumes inv: "overlay_inv R mem base v" and w: "wrote R mem b o' 0 n (o_cache v) c'" and l: "length b = n * vbs v"
  shows "overlay_inv R mem base (v\<lparr>o_cache := c'\<rparr>)" "bs_of c' = vbs v" "blocks_of c' = vblocks v"
    "shows_disk R base (v\<lparr>o_cache := c'\<rparr>) = write_disk (vbs v) (o', b) (shows_disk R base v)"
proof -
  note h = wrote_held [OF w]
  show "bs_of c' = vbs v" "blocks_of c' = vblocks v" using h by simp_all
  show "overlay_inv R mem base (v\<lparr>o_cache := c'\<rparr>)"
    using inv w h by (auto simp: overlay_inv_def same_shape_def wrote_def split: option.splits)
  have "0 < vbs v" using inv sized_blocks(3) by (auto simp: overlay_inv_def cache_inv_def)
  then have "length b div vbs v = n" using l by simp
  then show "shows_disk R base (v\<lparr>o_cache := c'\<rparr>) = write_disk (vbs v) (o', b) (shows_disk R base v)"
    using h(4) by (auto simp: fun_eq_iff shows_disk_def layers_def sealing_held_def write_disk_def map_add_def split: option.splits)
qed

lemma FoldSealing_ok:
  assumes inv: "overlay_inv R mem base v"
  shows "\<exists>old v'. FoldSealing R v = Some (Inr (old, v')) \<and> old = o_sealing v \<and> o_sealing v' = None \<and>
    o_cacheEjected v' = o_cacheEjected v \<and> overlay_inv R mem base v' \<and> same_shape (o_cache v) (o_cache v') \<and>
    held R (o_cache v') = layers R v"
proof (cases "o_sealing v")
  case None
  then show ?thesis using inv by (auto simp: FoldSealing_def layers_def sealing_held_def same_shape_def)
next
  case (Some s)
  then have "cache_inv R mem s" "same_shape s (o_cache v)" "cache_inv R mem (o_cache v)"
    using inv by (simp_all add: overlay_inv_def)
  then obtain c' where c': "FillMissingFrom R (Some s) (o_cache v) = Some (Inr c')" "cache_inv R mem c'"
    "same_shape (o_cache v) c'" "held R c' = held R s ++ held R (o_cache v)"
    using FillMissingFrom_ok by blast
  then show ?thesis
    using Some inv same_shapeD [OF c'(3)]
    by (auto simp: FoldSealing_def ReleaseSealing_def overlay_inv_def layers_def sealing_held_def same_shape_def)
qed

lemma fold_shows:
  assumes "overlay_inv R mem base v" "FoldSealing R v = Some (Inr (old, v'))"
  shows "overlay_inv R mem base v'" "same_shape (o_cache v) (o_cache v')" "shows_disk R base v' = shows_disk R base v"
  using FoldSealing_ok [OF assms(1)] assms(2)
  by (auto simp: shows_disk_def [abs_def] layers_def [of R v'] sealing_held_def [of R v'])

lemma reaches_ok:
  assumes "overlay_reaches R mem base ws v"
  shows "overlay_inv R mem base v \<and> shows_disk R base v = fold (write_disk (vbs v)) ws base"
  using assms
proof induction
  case (new c device)
  then show ?case
    by (auto simp: fresh_cache_def overlay_inv_def NewOverlay_def shows_disk_def layers_def sealing_held_def fun_eq_iff map_add_def)
next
  case (guest_write ws v n o' off b v' m)
  then have inv: "overlay_inv R mem base v" by simp
  then have c: "cache_inv R mem (o_cache v)" by (simp add: overlay_inv_def)
  obtain c' where c': "WriteAtWithoutLock R b off (o_cache v) = Inr (c', word_of_nat (length b))" "wrote R mem b o' 0 n (o_cache v) c'"
    using WriteAt_wrote [OF c guest_write.hyps(2-5)] by blast
  then have "v' = v\<lparr>o_cache := c'\<rparr>"
    using guest_write.hyps(6) by (simp add: Overlay_WriteAt_def on_cache_def Cache_WriteAt_eq [OF c])
  then show ?case using overlay_wrote [OF inv c'(2) guest_write.hyps(5)] guest_write.IH by simp
next
  case (guest_zero ws v n o' off len v' m)
  then have inv: "overlay_inv R mem base v" by simp
  then have c: "cache_inv R mem (o_cache v)" by (simp add: overlay_inv_def)
  obtain c' where c': "Cache_WriteZeroesAt R off len (o_cache v) = Inr (c', len)"
    "wrote R mem (replicate (n * vbs v) 0) o' 0 n (o_cache v) c'"
    using WriteZeroes_wrote [OF c guest_zero.hyps(2-5)] by blast
  then have "v' = v\<lparr>o_cache := c'\<rparr>" using guest_zero.hyps(6) by (simp add: Overlay_WriteZeroesAt_def on_cache_def)
  then show ?case using overlay_wrote [OF inv c'(2)] guest_zero.IH by simp
next
  case (swap ws v c old v')
  then have v': "v' = v\<lparr>o_sealing := Some (o_cache v), o_cache := c\<rparr>" "o_sealing v = None"
    by (auto simp: SwapCache_def split: if_splits)
  have "shows_disk R base v' = shows_disk R base v"
    using v' swap.hyps(2)
    by (auto simp: fun_eq_iff shows_disk_def layers_def sealing_held_def fresh_cache_def map_add_def split: option.splits)
  then show ?case
    using swap v' same_shapeD [OF swap.hyps(3)] by (auto simp: overlay_inv_def fresh_cache_def same_shape_def)
next
  case (fold ws v old v')
  then show ?case using fold_shows [of base v old v'] same_shapeD [of "o_cache v" "o_cache v'"] by simp
qed

end

context roaring
begin

lemma reaches_read:
  assumes "overlay_reaches R mem base ws v" and "o' + n \<le> vblocks v" and "unat off = o' * vbs v" and "length p = n * vbs v"
  shows "Overlay_ReadAt R v p off = Inr (concat (map (fold (write_disk (vbs v)) ws base) [o'..<o' + n]), length p)"
  using Overlay_ReadAt_ok [OF _ assms(2-)] reaches_ok [OF assms(1)] by auto

lemma fold_then_swap:
  assumes "overlay_reaches R mem base ws v" and "\<not> o_cacheEjected v"
  shows "\<exists>old v'. FoldSealing R v = Some (Inr (old, v')) \<and> old = o_sealing v \<and>
    (\<exists>v''. SwapCache c v' = Inr (o_cache v', v''))"
  using FoldSealing_ok [of base v] reaches_ok [OF assms(1)] assms(2) by (fastforce simp: SwapCache_def)

end

section \<open>Properties of the overlay\<close>

definition zero_device :: device where
  "zero_device buf off = Inr (replicate (length buf) 0, length buf)"

definition sample_overlay :: "u32 set Overlay" where
  "sample_overlay = NewOverlay zero_device 4096 sample_cache"

lemma sample_overlay_reaches:
  "overlay_reaches set_roaring (\<lambda>b. unat ` b) (\<lambda>_. replicate 4096 0) [] sample_overlay"
proof -
  have "overlay_reaches set_roaring (\<lambda>b. unat ` b) (\<lambda>_. replicate 4096 0) []
      (NewOverlay zero_device (c_blockSize sample_cache) sample_cache)"
    by (rule overlay_reaches.new)
      (simp_all add: fresh_cache_def sample_cache_facts device_ok_def zero_device_def)
  then show ?thesis by (simp add: sample_overlay_def sample_cache_def)
qed

lemma sample_overlay_fields:
  "o_cache sample_overlay = sample_cache" "o_cacheEjected sample_overlay = False" "o_sealing sample_overlay = None"
  "o_device sample_overlay = zero_device" "o_blockSize sample_overlay = 4096"
  by (simp_all add: sample_overlay_def NewOverlay_def)

text \<open>
  C4. The overlay is a flat disk: after any history of aligned guest writes and zeroings, snapshot
  swaps and folds, a block-aligned read of any length inside the device succeeds and returns the base device's
  blocks with exactly the guest's writes applied in their order.
\<close>

theorem overlay_reads_writes:
  assumes "roaring R mem" and "overlay_reaches R mem base ws v"
    and "o' + n \<le> blocks_of (o_cache v)" and "unat off = o' * bs_of (o_cache v)" and "length p = n * bs_of (o_cache v)"
  shows "Overlay_ReadAt R v p off =
    Inr (concat (map (fold (write_disk (bs_of (o_cache v))) ws base) [o'..<o' + n]), length p)"
  by (rule roaring.reaches_read [OF assms])

theorem overlay_reads_writes_witness:
  "Overlay_ReadAt set_roaring sample_overlay (replicate 8192 5) 0 = Inr (concat [replicate 4096 0, replicate 4096 0], 8192)"
proof -
  have upt: "[0..<0 + 2] = [0 :: nat, 1]" by (simp add: upt_rec)
  show ?thesis
    using overlay_reads_writes [OF sets.roaring_axioms sample_overlay_reaches, of 0 2 0 "replicate 8192 5"]
    unfolding upt by (simp add: sample_overlay_fields sample_cache_facts)
qed

text \<open>
  C15. Checkpointing never gets stuck: in every reachable overlay whose cache is not ejected the
  fold returns without error with the sealed cache, and the next swap succeeds.
\<close>

theorem fold_enables_swap:
  assumes "roaring R mem" and "overlay_reaches R mem base ws v" and "\<not> o_cacheEjected v"
  shows "\<exists>old v'. FoldSealing R v = Some (Inr (old, v')) \<and> old = o_sealing v \<and>
    (\<exists>v''. SwapCache c v' = Inr (o_cache v', v''))"
  by (rule roaring.fold_then_swap [OF assms])

theorem fold_enables_swap_witness:
  "\<exists>old v'. FoldSealing set_roaring sample_overlay = Some (Inr (old, v')) \<and> old = None \<and>
     (\<exists>v''. SwapCache sample_cache v' = Inr (o_cache v', v''))"
  using fold_enables_swap [OF sets.roaring_axioms sample_overlay_reaches, of sample_cache]
  by (simp add: sample_overlay_fields)

end
