(* ===== verification/Fold_Race.thy ===== *)
theory Fold_Race
  imports Block_Overlay
begin

text \<open>
  Reads of the overlay that race with the fold of the sealed cache (\<open>FoldSealing\<close> and \<open>ReadAt\<close> of \<open>overlay.go\<close>, \<open>FillMissingFrom\<close> of
  \<open>cache.go\<close>). The loop of the fill is taken apart into its single accesses to the two caches; between any two of them the guest writes to
  the writable cache, and when the fill is over the sealed cache is closed. Every access holds the lock \<open>mu\<close> of its cache
  (\<open>ReadAt\<close> shared; \<open>WriteAt\<close>, \<open>WriteZeroesAt\<close>, \<open>writeAtIfAbsent\<close> and \<open>Close\<close> exclusive), so an access is one step.
\<close>

section \<open>The fill, one access at a time\<close>

text \<open>\<open>rc_todo\<close> is what is left of the two loops, as pairs of the current offset and the end of a range; \<open>rc_loaded\<close> says that the block at the
  offset is in the buffer and \<open>writeAtIfAbsent\<close> is next. \<open>rc_sealed\<close> is the older cache, behind the pointer that a reader loaded before the fold,
  and \<open>rc_writes\<close> records the guest's writes.\<close>

record 'bm racing =
  rc_cache :: "'bm Cache"
  rc_sealed :: "'bm Cache"
  rc_todo :: "(i64 \<times> i64) list"
  rc_loaded :: bool
  rc_buf :: "byte list"
  rc_writes :: "(nat \<times> byte list) list"

definition fill_begin :: "'bm roaring_ops \<Rightarrow> 'bm Cache \<Rightarrow> 'bm Cache \<Rightarrow> cache_error + 'bm racing" where
  "fill_begin R older c =
     (case Cache_DiffMetadata R older of
        Inl e \<Rightarrow> Inl e
      | Inr meta \<Rightarrow>
          if sint (c_blockSize c) < 0 then Inl CachePanic
          else Inr \<lparr>rc_cache = c, rc_sealed = older,
            rc_todo = map (\<lambda>(start, sz). (start, start + sz)) (BitsetRanges R (bm_Or R (dm_Dirty meta) (dm_Empty meta)) (c_blockSize c)),
            rc_loaded = False, rc_buf = replicate (nat (sint (c_blockSize c))) 0, rc_writes = []\<rparr>)"

definition fill_step :: "'bm roaring_ops \<Rightarrow> 'bm racing \<Rightarrow> (cache_error + 'bm racing) option" where
  "fill_step R x =
     (case rc_todo x of
        [] \<Rightarrow> None
      | (off, end) # rest \<Rightarrow>
          if \<not> sint off < sint end then Some (Inr (x\<lparr>rc_todo := rest\<rparr>))
          else if \<not> rc_loaded x then
            (case Cache_ReadAt R (rc_sealed x) (rc_buf x) off of
               Inl e \<Rightarrow> Some (Inl e)
             | Inr (buf, _) \<Rightarrow> Some (Inr (x\<lparr>rc_buf := buf, rc_loaded := True\<rparr>)))
          else
            (case writeAtIfAbsent R (rc_buf x) off (rc_cache x) of
               Inl e \<Rightarrow> Some (Inl e)
             | Inr c \<Rightarrow> Some (Inr (x\<lparr>rc_cache := c, rc_loaded := False, rc_todo := (off + c_blockSize (rc_cache x), end) # rest\<rparr>))))"

inductive race_step :: "'bm roaring_ops \<Rightarrow> 'bm racing \<Rightarrow> 'bm racing \<Rightarrow> bool" for R where
  fill: "fill_step R x = Some (Inr x') \<Longrightarrow> race_step R x x'"
| guest_write: "0 < n \<Longrightarrow> o' + n \<le> blocks_of (rc_cache x) \<Longrightarrow> unat off = o' * bs_of (rc_cache x) \<Longrightarrow> length b = n * bs_of (rc_cache x) \<Longrightarrow>
    Cache_WriteAt R b off (rc_cache x) = Inr (c, m) \<Longrightarrow> race_step R x (x\<lparr>rc_cache := c, rc_writes := rc_writes x @ [(o', b)]\<rparr>)"
| guest_zero: "0 < n \<Longrightarrow> o' + n \<le> blocks_of (rc_cache x) \<Longrightarrow> unat off = o' * bs_of (rc_cache x) \<Longrightarrow> unat len = n * bs_of (rc_cache x) \<Longrightarrow>
    Cache_WriteZeroesAt R off len (rc_cache x) = Inr (c, m) \<Longrightarrow>
    race_step R x (x\<lparr>rc_cache := c, rc_writes := rc_writes x @ [(o', replicate (n * bs_of (rc_cache x)) 0)]\<rparr>)"
| sealed_close: "rc_todo x = [] \<Longrightarrow> race_step R x (x\<lparr>rc_sealed := fst (Cache_Close e1 e2 (rc_sealed x))\<rparr>)"

inductive race_reaches :: "'bm roaring_ops \<Rightarrow> 'bm racing \<Rightarrow> 'bm racing \<Rightarrow> bool" for R x where
  here: "race_reaches R x x"
| further: "race_reaches R x y \<Longrightarrow> race_step R y z \<Longrightarrow> race_reaches R x z"

lemma race_reaches_trans:
  assumes "race_reaches R x y" "race_reaches R y z"
  shows "race_reaches R x z"
  using assms(2,1) by induction (auto intro: race_reaches.further)

section \<open>The steps are the loop\<close>

text \<open>Without the guest the steps of the fill are exactly what \<open>FillMissingFrom\<close> does.\<close>

abbreviation filling :: "'bm Cache \<Rightarrow> (i64 \<times> i64) list \<Rightarrow> byte list \<Rightarrow> (nat \<times> byte list) list \<Rightarrow> 'bm Cache \<Rightarrow> 'bm racing" where
  "filling older todo buf ws c \<equiv>
     \<lparr>rc_cache = c, rc_sealed = older, rc_todo = todo, rc_loaded = False, rc_buf = buf, rc_writes = ws\<rparr>"

lemma fill_range_steps:
  assumes "fill_range R older buf off e c = Some (Inr (buf', c'))"
  shows "race_reaches R (filling older ((off, e) # rest) buf ws c) (filling older rest buf' ws c')"
proof -
  have "\<forall>buf' c'. r = Inr (buf', c') \<longrightarrow>
      race_reaches R (filling older ((off, e) # rest) buf ws c) (filling older rest buf' ws c')"
    if "fill_range R older buf off e c = Some r" for r
  proof (rule fill_range.raw_induct [where P = "\<lambda>R older buf off e c r. \<forall>buf' c'. r = Inr (buf', c') \<longrightarrow>
      race_reaches R (filling older ((off, e) # rest) buf ws c) (filling older rest buf' ws c')", OF _ that], goal_cases)
    case (1 f R older buf off e c r)
    show ?case
    proof (cases "sint off < sint e")
      case False
      then have "fill_step R (filling older ((off, e) # rest) buf ws c) = Some (Inr (filling older rest buf ws c))"
        by (simp add: fill_step_def)
      then show ?thesis using 1(2) False
        by (auto intro!: race_reaches.further [OF race_reaches.here] race_step.fill)
    next
      case True
      then obtain buf1 m c1 where rd: "Cache_ReadAt R older buf off = Inr (buf1, m)" and wr: "writeAtIfAbsent R buf1 off c = Inr c1"
        and f: "f R older buf1 (off + c_blockSize c) e c1 = Some r" if "\<exists>buf' c'. r = Inr (buf', c')"
        using 1(2) by (auto split: sum.splits)
      let ?x = "\<lparr>rc_cache = c, rc_sealed = older, rc_todo = (off, e) # rest, rc_loaded = True, rc_buf = buf1, rc_writes = ws\<rparr>"
      have "race_reaches R (filling older ((off, e) # rest) buf ws c) (filling older ((off + c_blockSize c, e) # rest) buf1 ws c1)"
        if "\<exists>buf' c'. r = Inr (buf', c')"
        using True rd [OF that] wr [OF that]
        by (intro race_reaches.further [OF race_reaches.further [OF race_reaches.here], of _ _ ?x] race_step.fill)
          (simp_all add: fill_step_def)
      then show ?thesis using 1(1) [OF f] race_reaches_trans by blast
    qed
  qed
  then show ?thesis using assms by blast
qed

lemma fill_ranges_steps:
  assumes "fill_ranges R older rs buf c = Some (Inr c')"
  shows "\<exists>buf'. race_reaches R (filling older (map (\<lambda>(start, sz). (start, start + sz)) rs) buf ws c) (filling older [] buf' ws c')"
  using assms
proof (induction R older rs buf c rule: fill_ranges.induct)
  case (1 R older buf c)
  then show ?case by (auto intro: race_reaches.here)
next
  case (2 R older start sz rs buf c)
  then obtain buf1 c1 where r: "fill_range R older buf start (start + sz) c = Some (Inr (buf1, c1))"
    "fill_ranges R older rs buf1 c1 = Some (Inr c')"
    by (auto split: option.splits sum.splits)
  then show ?case using 2(1) [of "Inr (buf1, c1)" "(buf1, c1)" buf1 c1] fill_range_steps [OF r(1)] race_reaches_trans by fastforce
qed

lemma FillMissingFrom_steps:
  assumes "FillMissingFrom R (Some older) c = Some (Inr c')"
  shows "\<exists>x buf. fill_begin R older c = Inr x \<and> race_reaches R x (filling older [] buf [] c')"
  using assms fill_ranges_steps [of R older _ _ c c' "[]"]
  by (auto simp: FillMissingFrom_def fill_begin_def Let_def split: sum.splits if_splits)

section \<open>What every moment of the race satisfies\<close>

text \<open>A range still to be folded is a run of blocks of the device that the sealed cache holds; \<open>covers\<close> says that a block lies in it.\<close>

definition foldable :: "'bm roaring_ops \<Rightarrow> 'bm Cache \<Rightarrow> i64 \<times> i64 \<Rightarrow> bool" where
  "foldable R s r \<longleftrightarrow> (\<exists>k m. k \<le> m \<and> m \<le> blocks_of s \<and> unat (fst r) = k * bs_of s \<and> unat (snd r) = m * bs_of s \<and>
     (\<forall>j. k \<le> j \<longrightarrow> j < m \<longrightarrow> held R s j \<noteq> None))"

definition covers :: "nat \<Rightarrow> i64 \<times> i64 \<Rightarrow> nat \<Rightarrow> bool" where
  "covers B r k \<longleftrightarrow> unat (fst r) \<le> k * B \<and> k * B < unat (snd r)"

abbreviation racing_overlay :: "'bm Overlay \<Rightarrow> 'bm racing \<Rightarrow> 'bm Overlay" where
  "racing_overlay v x \<equiv> v\<lparr>o_cache := rc_cache x\<rparr>"

definition fold_inv ::
  "'bm roaring_ops \<Rightarrow> ('bm \<Rightarrow> nat set) \<Rightarrow> disk \<Rightarrow> (nat \<times> byte list) list \<Rightarrow> 'bm Overlay \<Rightarrow> 'bm Cache \<Rightarrow> 'bm racing \<Rightarrow> bool" where
  "fold_inv R mem base ws v s x \<longleftrightarrow>
     overlay_inv R mem base (racing_overlay v x) \<and> o_sealing v = Some s \<and> same_shape s (rc_cache x) \<and>
     shows_disk R base (racing_overlay v x) = fold (write_disk (bs_of s)) (ws @ rc_writes x) base \<and>
     length (rc_buf x) = bs_of s \<and>
     (rc_sealed x = s \<or> rc_todo x = [] \<and> rc_sealed x = s\<lparr>c_closed := True\<rparr>) \<and>
     (\<forall>r \<in> set (rc_todo x). foldable R s r) \<and>
     (rc_loaded x \<longrightarrow> (\<exists>r rest k. rc_todo x = r # rest \<and> covers (bs_of s) r k \<and> unat (fst r) = k * bs_of s \<and> held R s k = Some (rc_buf x))) \<and>
     (\<forall>k. held R s k \<noteq> None \<longrightarrow> held R (rc_cache x) k \<noteq> None \<or> (\<exists>r \<in> set (rc_todo x). covers (bs_of s) r k))"

lemma foldable_offsets:
  assumes "sized s" "foldable R s (off, e)"
  shows "\<exists>k m. k \<le> m \<and> m \<le> blocks_of s \<and> unat off = k * bs_of s \<and> unat e = m * bs_of s \<and> (sint off < sint e \<longleftrightarrow> k < m) \<and>
    (\<forall>j. k \<le> j \<longrightarrow> j < m \<longrightarrow> held R s j \<noteq> None) \<and> (\<forall>j. covers (bs_of s) (off, e) j \<longleftrightarrow> k \<le> j \<and> j < m)"
proof -
  obtain k m where km: "k \<le> m" "m \<le> blocks_of s" "unat off = k * bs_of s" "unat e = m * bs_of s"
    "\<forall>j. k \<le> j \<longrightarrow> j < m \<longrightarrow> held R s j \<noteq> None"
    using assms(2) by (auto simp: foldable_def)
  have B: "0 < bs_of s" by (rule sized_blocks(3) [OF assms(1)])
  have "unat off < 2 ^ 44" "unat e < 2 ^ 44" using sized_offset(1) [OF assms(1)] km by (auto intro: le_trans)
  then have "sint off < sint e \<longleftrightarrow> k < m" using B km by (simp add: sint_small_u64 del: of_nat_mult)
  then show ?thesis using km B by (intro exI [of _ k] exI [of _ m]) (simp add: covers_def)
qed

lemma ascending_run: "ascending k rs \<Longrightarrow> (a, e) \<in> set rs \<Longrightarrow> unat a < unat e"
  by (induction rs arbitrary: k) auto

lemma in_ranges_set: "in_ranges rs k \<longleftrightarrow> (\<exists>(a, e) \<in> set rs. unat a \<le> k \<and> k < unat e)"
  by (induction rs) auto

lemma fold_invD:
  assumes "fold_inv R mem base ws v s x"
  shows "cache_inv R mem s" "cache_inv R mem (rc_cache x)" "bs_of (rc_cache x) = bs_of s" "blocks_of (rc_cache x) = blocks_of s"
    "c_blockSize (rc_cache x) = c_blockSize s" "sized s" "o_sealing v = Some s"
  using assms same_shapeD [of s "rc_cache x"] by (auto simp: fold_inv_def overlay_inv_def same_shape_def cache_inv_def)

context roaring
begin

lemma fill_step_progress:
  assumes inv: "fold_inv R mem base ws v s x" and "rc_todo x \<noteq> []"
  shows "\<exists>x'. fill_step R x = Some (Inr x') \<and> fold_inv R mem base ws v s x'"
proof -
  note I = fold_invD [OF inv]
  obtain off e rest where todo: "rc_todo x = (off, e) # rest" using assms(2) by (cases "rc_todo x") auto
  then have s: "rc_sealed x = s" and r: "foldable R s (off, e)" using inv by (auto simp: fold_inv_def)
  obtain k m where km: "k \<le> m" "m \<le> blocks_of s" "unat off = k * bs_of s" "unat e = m * bs_of s"
    "sint off < sint e \<longleftrightarrow> k < m" "\<forall>j. k \<le> j \<longrightarrow> j < m \<longrightarrow> held R s j \<noteq> None" "\<forall>j. covers (bs_of s) (off, e) j \<longleftrightarrow> k \<le> j \<and> j < m"
    using foldable_offsets [OF I(6) r] by blast
  consider (over) "\<not> k < m" | (load) "k < m" "\<not> rc_loaded x" | (put) "k < m" "rc_loaded x" by blast
  then show ?thesis
  proof cases
    case over
    then have "fill_step R x = Some (Inr (x\<lparr>rc_todo := rest\<rparr>))" using km(5) todo by (simp add: fill_step_def)
    moreover have "fold_inv R mem base ws v s (x\<lparr>rc_todo := rest\<rparr>)"
      using inv todo s over km(7) by (auto simp: fold_inv_def)
    ultimately show ?thesis by blast
  next
    case load
    then obtain y where y: "held R s k = Some y" using km(6) by auto
    have "Cache_ReadAt R s (rc_buf x) off = Inr (y, bs_of s)"
      using ReadAt_block [OF I(1), of k off "rc_buf x"] y load km inv by (simp add: fold_inv_def)
    then have "fill_step R x = Some (Inr (x\<lparr>rc_buf := y, rc_loaded := True\<rparr>))"
      using load km(5) todo s by (simp add: fill_step_def)
    moreover have "fold_inv R mem base ws v s (x\<lparr>rc_buf := y, rc_loaded := True\<rparr>)"
      using inv todo s load km(3,7) y held_length(1) [OF I(1) y] by (auto simp: fold_inv_def)
    ultimately show ?thesis by blast
  next
    case put
    then obtain k' where k': "unat off = k' * bs_of s" "held R s k' = Some (rc_buf x)"
      using inv todo unfolding fold_inv_def by auto
    then have "k' = k" using km(3) sized_blocks(3) [OF I(6)] by simp
    then have y: "held R s k = Some (rc_buf x)" using k' by simp
    have l: "length (rc_buf x) = bs_of (rc_cache x)" and kb: "k < blocks_of (rc_cache x)"
      using held_length [OF I(1) y] I(3,4) by simp_all
    obtain c1 where c1: "writeAtIfAbsent R (rc_buf x) off (rc_cache x) = Inr c1" "cache_inv R mem c1" "same_shape (rc_cache x) c1"
      "held R c1 = (if held R (rc_cache x) k = None then (held R (rc_cache x))(k \<mapsto> rc_buf x) else held R (rc_cache x))"
      using writeAtIfAbsent_block [OF I(2) kb _ l, of off] km(3) I(3) by (auto simp: same_shape_def)
    let ?x = "x\<lparr>rc_cache := c1, rc_loaded := False, rc_todo := (off + c_blockSize s, e) # rest\<rparr>"
    have "fill_step R x = Some (Inr ?x)" using put km(5) todo c1(1) I(5) by (simp add: fill_step_def)
    moreover have "fold_inv R mem base ws v s ?x"
      unfolding fold_inv_def
    proof (intro conjI allI impI)
      show "overlay_inv R mem base (racing_overlay v ?x)" "same_shape s (rc_cache ?x)"
        using inv c1(2,3) same_shapeD [OF c1(3)] by (auto simp: fold_inv_def overlay_inv_def same_shape_def)
      have "layers R (racing_overlay v ?x) = layers R (racing_overlay v x)"
        using c1(4) y I(7) by (auto simp: layers_def sealing_held_def map_add_def fun_eq_iff)
      then show "shows_disk R base (racing_overlay v ?x) = fold (write_disk (bs_of s)) (ws @ rc_writes ?x) base"
        using inv by (simp add: fold_inv_def shows_disk_def [abs_def])
      have "unat (off + c_blockSize s) = Suc k * bs_of s"
        using sized_end(1) [OF I(6) _ km(3), of 1 "c_blockSize s"] put(1) km(2) by (simp add: bs_of_def)
      then have off1: "foldable R s (off + c_blockSize s, e)" "covers (bs_of s) (off + c_blockSize s, e) j \<longleftrightarrow> Suc k \<le> j \<and> j < m" for j
        using put(1) km(2,4,6) sized_blocks(3) [OF I(6)] by (auto simp: foldable_def covers_def simp del: mult_Suc intro!: exI [of _ "Suc k"] exI [of _ m])
      then show "\<forall>r\<in>set (rc_todo ?x). foldable R s r" using inv todo by (auto simp: fold_inv_def)
      show "held R (rc_cache ?x) j \<noteq> None \<or> (\<exists>r\<in>set (rc_todo ?x). covers (bs_of s) r j)" if "held R s j \<noteq> None" for j
        using inv that todo km(7) off1(2) c1(4) by (cases "j = k") (auto simp: fold_inv_def)
    qed (use inv s I(7) in \<open>auto simp: fold_inv_def\<close>)
    ultimately show ?thesis by blast
  qed
qed

text \<open>A write of the guest only adds blocks to the writable cache, so what the sealed cache holds stays reachable.\<close>

lemma fold_inv_wrote:
  assumes inv: "fold_inv R mem base ws v s x" and w: "wrote R mem b o' 0 n (rc_cache x) c" and l: "length b = n * bs_of (rc_cache x)"
  shows "fold_inv R mem base ws v s (x\<lparr>rc_cache := c, rc_writes := rc_writes x @ [(o', b)]\<rparr>)" (is "fold_inv _ _ _ _ _ _ ?x")
proof -
  note I = fold_invD [OF inv] and h = wrote_held [OF w]
  have ov: "overlay_inv R mem base (racing_overlay v x)" using inv by (simp add: fold_inv_def)
  have o: "overlay_inv R mem base (v\<lparr>o_cache := c\<rparr>)"
    "shows_disk R base (v\<lparr>o_cache := c\<rparr>) = write_disk (bs_of s) (o', b) (shows_disk R base (racing_overlay v x))"
    using overlay_wrote [OF ov, of b o' n c] w l I(3) by simp_all
  have "same_shape s c" using inv w by (auto simp: fold_inv_def same_shape_def wrote_def)
  moreover have "shows_disk R base (v\<lparr>o_cache := c\<rparr>) = fold (write_disk (bs_of s)) (ws @ rc_writes ?x) base"
    using o(2) inv by (simp add: fold_inv_def)
  moreover have "held R c k \<noteq> None" if "held R (rc_cache x) k \<noteq> None" for k using that h(4) [of k] by simp
  ultimately show ?thesis using inv o(1) unfolding fold_inv_def by auto
qed

lemma fold_inv_step:
  assumes "race_step R x x'" "fold_inv R mem base ws v s x"
  shows "fold_inv R mem base ws v s x'"
  using assms
proof cases
  case fill
  then have "rc_todo x \<noteq> []" by (auto simp: fill_step_def)
  then show ?thesis using fill fill_step_progress [OF assms(2)] by auto
next
  case (guest_write n o' off b c m)
  note c = fold_invD(2) [OF assms(2)]
  obtain c' where "WriteAtWithoutLock R b off (rc_cache x) = Inr (c', word_of_nat (length b))" "wrote R mem b o' 0 n (rc_cache x) c'"
    using WriteAt_wrote [OF c guest_write(2-5)] by blast
  then show ?thesis using guest_write Cache_WriteAt_eq(1) [OF c] fold_inv_wrote [OF assms(2)] by auto
next
  case (guest_zero n o' off len c m)
  note c = fold_invD(2) [OF assms(2)]
  obtain c' where "Cache_WriteZeroesAt R off len (rc_cache x) = Inr (c', len)"
    "wrote R mem (replicate (n * bs_of (rc_cache x)) 0) o' 0 n (rc_cache x) c'"
    using WriteZeroes_wrote [OF c guest_zero(2-5)] by blast
  then show ?thesis using guest_zero fold_inv_wrote [OF assms(2)] by auto
next
  case (sealed_close e1 e2)
  then have "fst (Cache_Close e1 e2 (rc_sealed x)) = s\<lparr>c_closed := True\<rparr>"
    using assms(2) fold_invD(1) [OF assms(2)] by (auto simp: fold_inv_def Cache_Close_def cache_inv_def Let_def)
  then show ?thesis using assms(2) sealed_close by (auto simp: fold_inv_def)
qed

lemma fold_inv_reaches:
  assumes "race_reaches R x x'" "fold_inv R mem base ws v s x"
  shows "fold_inv R mem base ws v s x'"
  using assms by induction (auto intro: fold_inv_step)

lemma closed_stays:
  assumes "race_reaches R x x'" "fold_inv R mem base ws v s x" "c_closed (rc_sealed x)"
  shows "rc_todo x' = []"
proof -
  have "c_closed (rc_sealed x') \<and> fold_inv R mem base ws v s x'"
    using assms
  proof induction
    case (further y z)
    then have "fold_inv R mem base ws v s z" using fold_inv_step by blast
    moreover have "c_closed (rc_sealed y)" using further by simp
    with further(2) have "c_closed (rc_sealed z)"
      by cases (auto simp: Cache_Close_def Let_def fill_step_def split: list.splits if_splits sum.splits)
    ultimately show ?case by simp
  qed simp
  then have cl: "c_closed (rc_sealed x')" and inv: "fold_inv R mem base ws v s x'" by simp_all
  have "\<not> c_closed s" using fold_invD(1) [OF inv] by (simp add: cache_inv_def)
  then show ?thesis using cl inv unfolding fold_inv_def by auto
qed

lemma run_foldable:
  fixes a :: u32 and e :: u64
  assumes inv: "cache_inv R mem s" and r: "unat a < unat e" "\<And>x. unat a \<le> x \<Longrightarrow> x < unat e \<Longrightarrow> held R s x \<noteq> None"
  defines "r \<equiv> (BlockOffset (ucast a) (c_blockSize s), BlockOffset (ucast a) (c_blockSize s) + BlockOffset (e - ucast a) (c_blockSize s))"
  shows "foldable R s r" "unat a \<le> k \<Longrightarrow> k < unat e \<Longrightarrow> covers (bs_of s) r k"
proof -
  have sz: "sized s" using inv by (simp add: cache_inv_def)
  have "unat a \<le> unat e - 1" "unat e - 1 < unat e" using r(1) by simp_all
  then have "held R s (unat e - 1) \<noteq> None" by (rule r(2))
  then have eb: "unat e \<le> blocks_of s" using held_length(2) [OF inv] r(1) by fastforce
  have "unat e * bs_of s \<le> blocks_of s * bs_of s" using eb by (rule mult_le_mono1)
  then have eB: "unat e * bs_of s < 2 ^ 44" using sized_blocks(1) [OF sz] sz by (simp add: sized_def)
  note off = run_offsets [OF r(1) eB [unfolded bs_of_def], folded bs_of_def]
  have "unat a * bs_of s + (unat e - unat a) * bs_of s = unat e * bs_of s"
    using r(1) by (simp flip: add_mult_distrib)
  then have e: "unat (snd r) = unat e * bs_of s" using off eB unfolding r_def snd_conv by (subst unat_add_u64) simp_all
  have a: "unat (fst r) = unat a * bs_of s" using off by (simp add: r_def)
  show "foldable R s r"
    unfolding foldable_def using a e eb r by (intro exI [of _ "unat a"] exI [of _ "unat e"]) simp
  show "covers (bs_of s) r k" if "unat a \<le> k" "k < unat e"
    using that a e sized_blocks(3) [OF sz] by (simp add: covers_def)
qed

lemma fold_inv_begin:
  assumes reach: "overlay_reaches R mem base ws v" and s: "o_sealing v = Some s" and b: "fill_begin R s (o_cache v) = Inr x"
  shows "fold_inv R mem base ws v s x"
proof -
  have inv: "overlay_inv R mem base v" and d: "shows_disk R base v = fold (write_disk (vbs v)) ws base"
    using reaches_ok [OF reach] by simp_all
  then have I: "cache_inv R mem s" "cache_inv R mem (o_cache v)" "same_shape s (o_cache v)" using s by (simp_all add: overlay_inv_def)
  have bs: "c_blockSize (o_cache v) = c_blockSize s" "bs_of (o_cache v) = bs_of s" using I(3) same_shapeD by (auto simp: same_shape_def)
  define p where "p = bm_Or R (t_dirty (c_tracker s)) (bm_Or R (t_zero (c_tracker s)) (t_removed (c_tracker s)))"
  have runs: "ascending 0 (bm_Ranges R p)" "in_ranges (bm_Ranges R p) k \<longleftrightarrow> held R s k \<noteq> None" for k
    using Ranges [of p] present_held [OF I(1), of k] by (auto simp: is_runs_def p_def)
  have "nat (sint (c_blockSize s)) = bs_of s"
    using I(1) by (simp add: cache_inv_def sized_def bs_of_def sint_small_u64)
  then have x: "x = filling s (map (\<lambda>(start, sz). (start, start + sz)) (BitsetRanges R p (c_blockSize s))) (replicate (bs_of s) 0) [] (o_cache v)"
    using b DiffMetadata_open [OF I(1)] bs by (simp add: fill_begin_def p_def split: if_splits)
  have run: "unat a < unat e \<and> (\<forall>k. unat a \<le> k \<longrightarrow> k < unat e \<longrightarrow> held R s k \<noteq> None)" if "(a, e) \<in> set (bm_Ranges R p)" for a e
    using ascending_run [OF runs(1) that] runs(2) that by (auto simp: in_ranges_set)
  have todo: "rc_todo x = map (\<lambda>(a, e). (BlockOffset (ucast a) (c_blockSize s),
      BlockOffset (ucast a) (c_blockSize s) + BlockOffset (e - ucast a) (c_blockSize s))) (bm_Ranges R p)"
    by (simp add: x BitsetRanges_def case_prod_unfold)
  have "\<exists>r \<in> set (rc_todo x). covers (bs_of s) r k" if k: "held R s k \<noteq> None" for k
  proof -
    obtain a e where "(a, e) \<in> set (bm_Ranges R p)" "unat a \<le> k" "k < unat e" using k runs(2) [of k] by (auto simp: in_ranges_set)
    then show ?thesis using run run_foldable(2) [OF I(1), of a e k] unfolding todo by fastforce
  qed
  moreover have "\<forall>r \<in> set (rc_todo x). foldable R s r" using run run_foldable(1) [OF I(1)] unfolding todo by fastforce
  ultimately show ?thesis using inv d s I(3) bs by (simp add: fold_inv_def x)
qed

text \<open>The three accesses of a read of one block: the writable cache at \<open>x1\<close>, the sealed cache at \<open>x2\<close> and, when that is closed, the writable cache
  again at \<open>x3\<close>.\<close>

lemma racing_read:
  assumes inv: "fold_inv R mem base ws v s x1" and x2: "race_reaches R x1 x2" and x3: "race_reaches R x2 x3"
    and k: "k < blocks_of s" "unat off = k * bs_of s" "length buf = bs_of s"
  shows "\<exists>x \<in> {x1, x3}. read_block R (o_device v) (rc_cache x1) (Some (rc_sealed x2)) (rc_cache x3) buf off =
    Inr (fold (write_disk (bs_of s)) (ws @ rc_writes x) base k)"
proof -
  note inv2 = fold_inv_reaches [OF x2 inv] and inv3 = fold_inv_reaches [OF x3 fold_inv_reaches [OF x2 inv]]
  note I1 = fold_invD [OF inv] and I3 = fold_invD [OF inv3]
  have r: "Cache_ReadAt R c buf off = (case held R c k of None \<Rightarrow> Inl BytesNotAvailableError | Some y \<Rightarrow> Inr (y, bs_of c))"
    if "cache_inv R mem c" "blocks_of c = blocks_of s" "bs_of c = bs_of s" for c
    using that k by (intro ReadAt_block) simp_all
  have d: "fold (write_disk (bs_of s)) (ws @ rc_writes x) base k =
      (case (held R s ++ held R (rc_cache x)) k of None \<Rightarrow> base k | Some y \<Rightarrow> y)" if "fold_inv R mem base ws v s x" for x
  proof -
    have "shows_disk R base (racing_overlay v x) = fold (write_disk (bs_of s)) (ws @ rc_writes x) base"
      using that unfolding fold_inv_def by blast
    then have "fold (write_disk (bs_of s)) (ws @ rc_writes x) base k = shows_disk R base (racing_overlay v x) k" by metis
    then show ?thesis using fold_invD(7) [OF that] by (simp add: shows_disk_def layers_def sealing_held_def)
  qed
  have dev: "o_device v buf off = Inr (base k, bs_of s)"
    using inv k I1(3,4) by (simp add: fold_inv_def overlay_inv_def device_ok_def)
  show ?thesis
  proof (cases "rc_sealed x2 = s")
    case True
    have "read_block R (o_device v) (rc_cache x1) (Some (rc_sealed x2)) (rc_cache x3) buf off =
        Inr (fold (write_disk (bs_of s)) (ws @ rc_writes x1) base k)"
      using r [OF I1(1)] r [OF I1(2)] I1(3,4) dev True unfolding d [OF inv]
      by (auto simp: read_block_def read_base_def map_add_def split: option.splits)
    then show ?thesis by blast
  next
    case False
    then have cl: "rc_sealed x2 = s\<lparr>c_closed := True\<rparr>" using inv2 by (simp add: fold_inv_def)
    have "rc_todo x3 = []" by (rule closed_stays [OF x3 inv2]) (simp add: cl)
    then have h3: "held R s k \<noteq> None \<Longrightarrow> held R (rc_cache x3) k \<noteq> None" using inv3 by (simp add: fold_inv_def)
    have "Cache_ReadAt R (rc_sealed x2) buf off = Inl (CacheClosedError (c_filePath s))"
      using I1(1) by (simp add: cl Cache_ReadAt_def isClosed_def cache_inv_def)
    then show ?thesis
      using r [OF I1(2)] r [OF I3(2)] I1(3,4) I3(3,4) dev h3 unfolding bex_simps d [OF inv] d [OF inv3]
      by (auto simp: read_block_def read_base_def map_add_def split: option.splits)
  qed
qed

end

section \<open>Reads during the fold\<close>

text \<open>
  C9. Reads that race with the fold are linearizable: from any reachable overlay with a sealed cache, let the fold run access by access, in any
  interleaving with the guest's writes, and let the sealed cache be closed when the fold is over. A read of a block consults the writable cache at one moment,
  the sealed cache at a later one and, if it finds it closed, the writable cache again at a third. It succeeds, and returns the block as the guest's writes
  had left it at the first or at the third moment: never the base's block under a folded write, never a folded block over a newer write. Nor do the guest's writes make an access of the fold fail.
\<close>

theorem read_races_fold:
  assumes "roaring R mem" and "overlay_reaches R mem base ws v" and "o_sealing v = Some s" and "fill_begin R s (o_cache v) = Inr x0"
    and "race_reaches R x0 x1" and "race_reaches R x1 x2" and "race_reaches R x2 x3"
    and "k < blocks_of (o_cache v)" and "unat off = k * bs_of (o_cache v)" and "length buf = bs_of (o_cache v)"
  shows "(\<exists>x \<in> {x1, x3}. read_block R (o_device v) (rc_cache x1) (Some (rc_sealed x2)) (rc_cache x3) buf off =
      Inr (fold (write_disk (bs_of (o_cache v))) (ws @ rc_writes x) base k)) \<and>
    (rc_todo x1 \<noteq> [] \<longrightarrow> (\<exists>x'. fill_step R x1 = Some (Inr x')))"
proof -
  note inv0 = roaring.fold_inv_begin [OF assms(1-4)]
  note inv1 = roaring.fold_inv_reaches [OF assms(1,5) inv0]
  have "bs_of (o_cache v) = bs_of s" "blocks_of (o_cache v) = blocks_of s"
    using roaring.reaches_ok [OF assms(1,2)] assms(3) same_shapeD [of s "o_cache v"] by (simp_all add: overlay_inv_def)
  then show ?thesis
    using roaring.racing_read [OF assms(1) inv1 assms(6,7)] roaring.fill_step_progress [OF assms(1) inv1] assms(8-) by metis
qed

text \<open>The guest writes block 1, a snapshot swaps the caches, the fold runs to its end and the sealed cache is closed, all between the
  first access of a read and its second.\<close>

lemma sample_fold:
  "\<exists>v s x0 x1. overlay_reaches set_roaring (\<lambda>b. unat ` b) (\<lambda>_. replicate 4096 0) [(1, replicate 4096 7)] v \<and>
     o_sealing v = Some s \<and> o_cache v = sample_cache \<and> o_device v = zero_device \<and> held set_roaring s 1 = Some (replicate 4096 7) \<and>
     fill_begin set_roaring s (o_cache v) = Inr x0 \<and> race_reaches set_roaring x0 x1 \<and> c_closed (rc_sealed x1) \<and>
     rc_writes x0 = [] \<and> rc_writes x1 = []"
proof -
  let ?b = "replicate 4096 7 :: byte list"
  obtain s where s: "WriteAtWithoutLock set_roaring ?b 4096 sample_cache = Inr (s, word_of_nat (length ?b))"
    "wrote set_roaring (\<lambda>b. unat ` b) ?b 1 0 1 sample_cache s"
    using sets.WriteAt_wrote [OF sample_cache_facts(1), of 1 1 4096 ?b] by (auto simp: sample_cache_facts)
  note h = sets.wrote_held [OF s(2)]
  let ?v = "sample_overlay\<lparr>o_cache := s\<rparr>"
  have w: "overlay_reaches set_roaring (\<lambda>b. unat ` b) (\<lambda>_. replicate 4096 0) ([] @ [(1, ?b)]) ?v"
    by (rule overlay_reaches.guest_write [OF sample_overlay_reaches, of 1 1 4096])
      (simp_all add: sample_overlay_fields sample_cache_facts Overlay_WriteAt_def on_cache_def
        sets.Cache_WriteAt_eq(1) [OF sample_cache_facts(1)] s(1))
  have sh: "same_shape s sample_cache" using s(2) by (simp add: wrote_def same_shape_def)
  have v: "overlay_reaches set_roaring (\<lambda>b. unat ` b) (\<lambda>_. replicate 4096 0) ([] @ [(1, ?b)])
      (?v\<lparr>o_sealing := Some s, o_cache := sample_cache\<rparr>)"
    by (rule overlay_reaches.swap [OF w, of sample_cache s]) (simp_all add: sh fresh_cache_def sample_cache_facts SwapCache_def sample_overlay_fields)
  obtain c' where "FillMissingFrom set_roaring (Some s) sample_cache = Some (Inr c')"
    using sets.FillMissingFrom_ok [OF h(1) sample_cache_facts(1) sh] by blast
  then obtain x buf where x: "fill_begin set_roaring s sample_cache = Inr x" "race_reaches set_roaring x (filling s [] buf [] c')"
    using FillMissingFrom_steps by blast
  let ?x = "(filling s [] buf [] c')\<lparr>rc_sealed := fst (Cache_Close None None s)\<rparr>"
  have "race_step set_roaring (filling s [] buf [] c') ?x"
    using race_step.sealed_close [of "filling s [] buf [] c'" set_roaring None None] by simp
  then have "race_reaches set_roaring x ?x" using race_reaches.further [OF x(2)] by blast
  moreover have "c_closed (rc_sealed ?x)" using h(1) by (simp add: Cache_Close_def cache_inv_def Let_def)
  moreover have "rc_writes x = []" using x(1) by (auto simp: fill_begin_def split: sum.splits if_splits)
  moreover have "held set_roaring s 1 = Some ?b" using h(4) [of 1] by (simp add: sample_cache_facts blk_def)
  ultimately show ?thesis using v x(1)
    by (intro exI [of _ "?v\<lparr>o_sealing := Some s, o_cache := sample_cache\<rparr>"] exI [of _ s] exI [of _ x] exI [of _ ?x])
      (simp add: sample_overlay_fields)
qed

theorem read_races_fold_witness:
  "\<exists>s x0 x1. held set_roaring s 1 = Some (replicate 4096 7) \<and> fill_begin set_roaring s sample_cache = Inr x0 \<and>
     race_reaches set_roaring x0 x1 \<and> c_closed (rc_sealed x1) \<and>
     read_block set_roaring zero_device sample_cache (Some (rc_sealed x1)) (rc_cache x1) (replicate 4096 0) 4096 = Inr (replicate 4096 7)"
proof -
  obtain v s x0 x1 where v: "overlay_reaches set_roaring (\<lambda>b. unat ` b) (\<lambda>_. replicate 4096 0) [(1, replicate 4096 7)] v"
    "o_sealing v = Some s" "o_cache v = sample_cache" "o_device v = zero_device" "held set_roaring s 1 = Some (replicate 4096 7)"
    "fill_begin set_roaring s (o_cache v) = Inr x0" "race_reaches set_roaring x0 x1" "c_closed (rc_sealed x1)" "rc_writes x0 = []" "rc_writes x1 = []"
    using sample_fold by blast
  have x0: "rc_cache x0 = sample_cache" using v(3,6) by (auto simp: fill_begin_def split: sum.splits if_splits)
  have "write_disk 4096 (1, replicate 4096 7) (\<lambda>_. replicate 4096 0) 1 = replicate 4096 7" by (simp add: write_disk_def blk_def)
  then have "read_block set_roaring zero_device sample_cache (Some (rc_sealed x1)) (rc_cache x1) (replicate 4096 0) 4096 = Inr (replicate 4096 7)"
    using read_races_fold [OF sets.roaring_axioms v(1,2,6) race_reaches.here v(7) race_reaches.here, of 1 4096 "replicate 4096 0"] v(3,4,9,10) x0
    by (simp add: sample_cache_facts)
  then show ?thesis using v by metis
qed

end
