(* ===== verification/Dedup_Windows.thy ===== *)
theory Dedup_Windows
  imports Prelude "HOL-Library.Product_Lexorder" "HOL-Library.Multiset" "HOL-Library.Sublist"
begin

text \<open>
  The fetch-window cap of the snapshot deduplication (\<open>fetchWindower\<close> and \<open>parentKeyGroups\<close> of
  \<open>packages/orchestrator/pkg/sandbox/block/dedup.go\<close>): a block whose pages would be fetched through too many
  windows gets whole groups of its parent pages promoted into the diff. The counts are bounded by the pages of a
  block and of a diff, far below \<open>2\<^sup>6\<^sup>3\<close>, and are natural numbers here; \<open>windowPages\<close> is
  positive in every call.
\<close>

section \<open>Pages and keys\<close>

datatype dedupPageKind = dedupPageEmpty | dedupPageParent | dedupPageCurrent

record dedupFetchKey =
  fk_buildID :: uuid
  fk_window :: i64

record dedupPageInfo =
  kind :: dedupPageKind
  key :: dedupFetchKey

record fetchWindower =
  windowPages :: nat
  currentStart :: nat

section \<open>compact\<close>

text \<open>Go ranges over the map in an unspecified order and sorts; here the groups are collected key by key
  and sorted by the same order. \<open>groups_any_order\<close> below shows that the order does not
  matter.\<close>

definition parent_indices :: "dedupPageInfo list \<Rightarrow> nat list" where
  "parent_indices pages = filter (\<lambda>i. kind (pages ! i) = dedupPageParent) [0..<length pages]"

definition idxByKey :: "dedupPageInfo list \<Rightarrow> dedupFetchKey \<Rightarrow> nat list" where
  "idxByKey pages k = filter (\<lambda>i. key (pages ! i) = k) (parent_indices pages)"

definition parent_keys :: "dedupPageInfo list \<Rightarrow> dedupFetchKey list" where
  "parent_keys pages = remdups (map (\<lambda>i. key (pages ! i)) (parent_indices pages))"

definition group_order :: "nat list \<Rightarrow> nat \<times> nat" where
  "group_order g = (length g, hd g)"

definition parentKeyGroups :: "dedupPageInfo list \<Rightarrow> nat list list" where
  "parentKeyGroups pages = sort_key group_order (map (idxByKey pages) (parent_keys pages))"

definition currentWindows :: "fetchWindower \<Rightarrow> nat \<Rightarrow> nat" where
  "currentWindows w n =
     (if n = 0 then 0
      else (currentStart w + n - 1) div windowPages w - currentStart w div windowPages w + 1)"

text \<open>The prefix scan: \<open>g\<close> groups and \<open>n\<close> pages passed so far, of \<open>G\<close> groups.\<close>

fun choose_prefix ::
  "fetchWindower \<Rightarrow> nat \<Rightarrow> nat \<Rightarrow> nat \<Rightarrow> nat \<Rightarrow> nat \<Rightarrow> nat \<Rightarrow> nat \<times> nat \<times> nat \<Rightarrow> nat list list \<Rightarrow> nat \<times> nat \<times> nat" where
  "choose_prefix w G nCur maxWindows maxPromoted g n (best, chosen, promoted) [] = (best, chosen, promoted)"
| "choose_prefix w G nCur maxWindows maxPromoted g n (best, chosen, promoted) (grp # rest) =
     (let n = n + length grp in
      if n > maxPromoted then (best, chosen, promoted)
      else
        let c = G - (g + 1) + currentWindows w (nCur + n);
            acc = (if c < best then (c, g + 1, n) else (best, chosen, promoted))
        in if fst acc \<le> maxWindows then acc
           else choose_prefix w G nCur maxWindows maxPromoted (g + 1) n acc rest)"

definition promote_pages :: "nat list \<Rightarrow> dedupPageInfo list \<Rightarrow> dedupPageInfo list" where
  "promote_pages is pages = fold (\<lambda>i ps. ps[i := (ps ! i)\<lparr>kind := dedupPageCurrent\<rparr>]) is pages"

definition current_count :: "dedupPageInfo list \<Rightarrow> nat" where
  "current_count pages = length (filter (\<lambda>p. kind p = dedupPageCurrent) pages)"

definition compact :: "fetchWindower \<Rightarrow> dedupPageInfo list \<Rightarrow> int \<Rightarrow> int \<Rightarrow> dedupPageInfo list \<times> nat" where
  "compact w pages maxWindows maxPromoted =
     (if maxWindows \<le> 0 \<or> maxPromoted \<le> 0 then (pages, 0)
      else
        let nCur = current_count pages;
            groups = parentKeyGroups pages;
            best = length groups + currentWindows w nCur
        in if int best \<le> maxWindows then (pages, 0)
           else
             let (best, chosen, promoted) =
                   choose_prefix w (length groups) nCur (nat maxWindows) (nat maxPromoted) 0 0 (best, 0, 0) groups
             in (promote_pages (concat (take chosen groups)) pages, promoted))"

section \<open>The groups\<close>

definition page_total :: "nat list list \<Rightarrow> nat" where
  "page_total gs = sum_list (map length gs)"

lemma total_simps [simp]: "page_total [] = 0" "page_total (g # gs) = length g + page_total gs" "page_total (gs @ hs) = page_total gs + page_total hs"
  by (simp_all add: page_total_def)

lemma length_concat_total: "length (concat gs) = page_total gs"
  by (simp add: page_total_def length_concat)

lemma set_parent_indices: "i \<in> set (parent_indices pages) \<longleftrightarrow> i < length pages \<and> kind (pages ! i) = dedupPageParent"
  by (auto simp: parent_indices_def)

lemma groups_mset: "mset (parentKeyGroups pages) = mset (map (idxByKey pages) (parent_keys pages))"
  by (simp add: parentKeyGroups_def)

lemma idxByKey_nonempty:
  assumes "k \<in> set (parent_keys pages)"
  shows "idxByKey pages k \<noteq> []"
  using assms by (auto simp: parent_keys_def idxByKey_def filter_empty_conv)

lemma hd_idxByKey:
  assumes "k \<in> set (parent_keys pages)"
  shows "key (pages ! hd (idxByKey pages k)) = k"
  using hd_in_set [OF idxByKey_nonempty [OF assms]] by (auto simp: idxByKey_def)

lemma group_order_inj: "inj_on (group_order \<circ> idxByKey pages) (set (parent_keys pages))"
  by (rule inj_onI) (metis comp_apply group_order_def hd_idxByKey prod.inject)

text \<open>In whatever order the map yields its groups, sorting gives the same list.\<close>

lemma groups_any_order:
  assumes "mset gs = mset (map (idxByKey pages) (parent_keys pages))"
  shows "sort_key group_order gs = parentKeyGroups pages"
proof (rule sort_key_inj_key_eq)
  show "mset gs = mset (parentKeyGroups pages)" using assms by (simp add: groups_mset)
  have "set gs = idxByKey pages ` set (parent_keys pages)" using assms by (metis list.set_map set_mset_mset)
  then show "inj_on group_order (set gs)" using inj_on_imageI [OF group_order_inj] by simp
  show "sorted (map group_order (parentKeyGroups pages))" by (simp add: parentKeyGroups_def)
qed

lemma groups_sorted: "sorted (map length (parentKeyGroups pages))"
proof -
  have "sorted (map group_order (parentKeyGroups pages))" by (simp add: parentKeyGroups_def)
  then show ?thesis
    unfolding sorted_wrt_map by (rule sorted_wrt_mono_rel [rotated]) (auto simp: group_order_def less_eq_prod_def)
qed

lemma groups_disjoint: "distinct (concat (parentKeyGroups pages))"
proof -
  have "distinct (concat (map (idxByKey pages) ks))" if "distinct ks" for ks
    using that
  proof (induction ks)
    case (Cons k ks)
    then show ?case by (auto simp: idxByKey_def parent_indices_def)
  qed simp
  moreover have "mset (concat (parentKeyGroups pages)) = mset (concat (map (idxByKey pages) (parent_keys pages)))"
    by (metis groups_mset mset_concat mset_map sum_mset_sum_list)
  ultimately show ?thesis by (metis distinct_remdups mset_eq_imp_distinct_iff parent_keys_def)
qed

lemma set_concat_groups: "set (concat (parentKeyGroups pages)) = set (parent_indices pages)"
proof -
  have "set (parentKeyGroups pages) = idxByKey pages ` set (parent_keys pages)"
    by (simp add: parentKeyGroups_def)
  then show ?thesis by (auto simp: idxByKey_def parent_keys_def)
qed

section \<open>What a promotion costs\<close>

text \<open>The number of fetch windows of a block: one for every key of its parent pages, and those that its packed
  current pages cover.\<close>

definition fetch_windows :: "fetchWindower \<Rightarrow> dedupPageInfo list \<Rightarrow> nat" where
  "fetch_windows w pages = length (parent_keys pages) + currentWindows w (current_count pages)"

lemma length_groups: "length (parentKeyGroups pages) = length (parent_keys pages)"
  by (simp add: parentKeyGroups_def)

lemma promote_Cons: "promote_pages (i # is) ps = promote_pages is (ps[i := (ps ! i)\<lparr>kind := dedupPageCurrent\<rparr>])"
  by (simp add: promote_pages_def)

lemma promote_nth_all:
  assumes "\<forall>i \<in> set is. i < length pages"
  shows "length (promote_pages is pages) = length pages \<and>
    (\<forall>j < length pages. promote_pages is pages ! j =
      (if j \<in> set is then (pages ! j)\<lparr>kind := dedupPageCurrent\<rparr> else pages ! j))"
  using assms
proof (induction "is" arbitrary: pages)
  case (Cons i "is")
  then show ?case using Cons.IH [of "pages[i := (pages ! i)\<lparr>kind := dedupPageCurrent\<rparr>]"]
    by (auto simp: promote_Cons nth_list_update)
qed (simp add: promote_pages_def)

lemma image_diff_iff: "(\<And>i. i \<in> P \<Longrightarrow> i \<in> A \<longleftrightarrow> f i \<in> K) \<Longrightarrow> f ` (P - A) = f ` P - K"
  by blast

lemma parent_keys_set: "set (parent_keys pages) = (\<lambda>i. key (pages ! i)) ` set (parent_indices pages)"
  by (simp add: parent_keys_def)

lemma length_parent_keys: "length (parent_keys pages) = card ((\<lambda>i. key (pages ! i)) ` set (parent_indices pages))"
  by (metis distinct_card distinct_remdups parent_keys_def parent_keys_set)

lemma group_mem:
  assumes "g \<in> set (parentKeyGroups pages)"
  shows "\<exists>k \<in> set (parent_keys pages). g = idxByKey pages k"
  using assms by (auto simp: parentKeyGroups_def)

lemma current_count_card: "current_count pages = card {i. i < length pages \<and> kind (pages ! i) = dedupPageCurrent}"
  by (simp add: current_count_def length_filter_conv_card)

text \<open>A selection of whole groups.\<close>

definition selection :: "dedupPageInfo list \<Rightarrow> nat list list \<Rightarrow> bool" where
  "selection pages S \<longleftrightarrow> set S \<subseteq> set (parentKeyGroups pages) \<and> distinct S"

lemma S_parents:
  assumes "selection pages S"
  shows "set (concat S) \<subseteq> set (parent_indices pages)"
proof -
  have "set (concat S) \<subseteq> set (concat (parentKeyGroups pages))" using assms by (auto simp: selection_def)
  then show ?thesis by (simp only: set_concat_groups)
qed

lemma S_nth: "selection pages S \<Longrightarrow> \<forall>i \<in> set (concat S). i < length pages"
  using S_parents set_parent_indices by blast

lemma S_distinct:
  assumes S: "selection pages S"
  shows "distinct (concat S)"
proof -
  have "distinct (concat (map (idxByKey pages) ks))" if "distinct ks" for ks
    using that by (induction ks) (auto simp: idxByKey_def parent_indices_def)
  moreover obtain ks where ks: "S = map (idxByKey pages) ks" "set ks \<subseteq> set (parent_keys pages)"
  proof -
    have "\<forall>g \<in> set S. \<exists>k \<in> set (parent_keys pages). g = idxByKey pages k" using S group_mem by (auto simp: selection_def)
    then obtain f where "\<forall>g \<in> set S. f g \<in> set (parent_keys pages) \<and> g = idxByKey pages (f g)" by metis
    then show ?thesis by (intro that [of "map f S"]) (auto simp: map_idI)
  qed
  ultimately show ?thesis using S by (auto simp: distinct_map selection_def)
qed

lemma promoted_nth:
  assumes "selection pages S"
  shows "length (promote_pages (concat S) pages) = length pages"
    and "j < length pages \<Longrightarrow> key (promote_pages (concat S) pages ! j) = key (pages ! j)"
    and "j < length pages \<Longrightarrow> kind (promote_pages (concat S) pages ! j) =
      (if j \<in> set (concat S) then dedupPageCurrent else kind (pages ! j))"
  using promote_nth_all [OF S_nth [OF assms]] by simp_all

lemma promoted_parents:
  assumes "selection pages S"
  shows "set (parent_indices (promote_pages (concat S) pages)) = set (parent_indices pages) - set (concat S)"
  using promoted_nth [OF assms]
  by (intro set_eqI) (simp only: set_parent_indices Diff_iff, metis dedupPageKind.distinct(5))

lemma promoted_count:
  assumes S: "selection pages S"
  shows "current_count (promote_pages (concat S) pages) = current_count pages + page_total S"
proof -
  let ?C = "{i. i < length pages \<and> kind (pages ! i) = dedupPageCurrent}"
  have "{i. i < length (promote_pages (concat S) pages) \<and> kind (promote_pages (concat S) pages ! i) = dedupPageCurrent} =
      ?C \<union> set (concat S)"
    unfolding promoted_nth(1) [OF S] using promoted_nth(3) [OF S] S_nth [OF S] by (intro set_eqI) (simp only: Un_iff mem_Collect_eq, metis)
  moreover have "?C \<inter> set (concat S) = {}" using S_parents [OF S] by (auto simp: set_parent_indices)
  moreover have "card (set (concat S)) = page_total S" using S_distinct [OF S] by (simp only: distinct_card length_concat_total)
  ultimately show ?thesis by (simp add: current_count_card card_Un_disjoint del: set_concat)
qed

lemma promoted_keys:
  assumes S: "selection pages S"
  shows "length (parent_keys (promote_pages (concat S) pages)) = length (parent_keys pages) - length S"
proof -
  let ?P = "set (parent_indices pages)" and ?f = "\<lambda>i. key (pages ! i)"
  have gk: "g = idxByKey pages (?f (hd g))" "?f (hd g) \<in> ?f ` ?P" if "g \<in> set S" for g
  proof -
    obtain k where k: "k \<in> set (parent_keys pages)" "g = idxByKey pages k" using group_mem S \<open>g \<in> set S\<close> by (auto simp: selection_def)
    then have "?f (hd g) = k" using hd_idxByKey by simp
    then show "g = idxByKey pages (?f (hd g))" "?f (hd g) \<in> ?f ` ?P" using k parent_keys_set by simp_all
  qed
  let ?K = "(\<lambda>g. ?f (hd g)) ` set S"
  have "inj_on (\<lambda>g. ?f (hd g)) (set S)" by (rule inj_onI) (metis gk(1))
  then have cK: "card ?K = length S" using S by (simp add: card_image distinct_card selection_def)
  have "?f ` (?P - set (concat S)) = ?f ` ?P - ?K"
  proof -
    have "i \<in> set (concat S) \<longleftrightarrow> ?f i \<in> ?K" if "i \<in> ?P" for i
    proof
      assume "i \<in> set (concat S)"
      then obtain g where g: "g \<in> set S" "i \<in> set g" by auto
      then have "i \<in> set (idxByKey pages (?f (hd g)))" using gk(1) [OF g(1)] by simp
      then show "?f i \<in> ?K" using g by (auto simp: idxByKey_def)
    next
      assume "?f i \<in> ?K"
      then obtain g where "g \<in> set S" "?f i = ?f (hd g)" by auto
      moreover from this have "i \<in> set (idxByKey pages (?f (hd g)))" using that by (simp add: idxByKey_def)
      ultimately have "g \<in> set S" "i \<in> set g" using gk(1) [of g] by simp_all
      then show "i \<in> set (concat S)" by auto
    qed
    then show ?thesis by (rule image_diff_iff)
  qed
  moreover have "(\<lambda>i. key (promote_pages (concat S) pages ! i)) ` (?P - set (concat S)) = ?f ` (?P - set (concat S))"
    using promoted_nth(2) [OF S] by (intro image_cong) (auto simp: set_parent_indices)
  moreover have "?K \<subseteq> ?f ` ?P" using gk(2) by blast
  ultimately show ?thesis
    using cK by (simp add: length_parent_keys promoted_parents [OF S] card_Diff_subset del: set_concat)
qed

lemma promoted_windows:
  "selection pages S \<Longrightarrow> fetch_windows w (promote_pages (concat S) pages) =
     length (parent_keys pages) - length S + currentWindows w (current_count pages + page_total S)"
  by (simp add: fetch_windows_def promoted_keys promoted_count)

section \<open>The prefix scan\<close>

definition prefix_cost :: "fetchWindower \<Rightarrow> nat \<Rightarrow> nat list list \<Rightarrow> nat \<Rightarrow> nat" where
  "prefix_cost w nCur gs j = length gs - j + currentWindows w (nCur + page_total (take j gs))"

text \<open>What the scan keeps: \<open>best\<close> is the cost of the chosen prefix, which is affordable, improves on promoting
  nothing when it is not empty, and is the best of the prefixes seen.\<close>

definition scan_ok :: "fetchWindower \<Rightarrow> nat \<Rightarrow> nat \<Rightarrow> nat list list \<Rightarrow> nat \<Rightarrow> nat \<times> nat \<times> nat \<Rightarrow> bool" where
  "scan_ok w nCur maxPromoted gs g acc \<longleftrightarrow> (case acc of (best, chosen, promoted) \<Rightarrow>
     chosen \<le> length gs \<and> promoted = page_total (take chosen gs) \<and> promoted \<le> maxPromoted \<and>
     best = prefix_cost w nCur gs chosen \<and> (chosen > 0 \<longrightarrow> best < prefix_cost w nCur gs 0) \<and>
     (\<forall>j \<le> g. best \<le> prefix_cost w nCur gs j))"

lemma total_take_mono: "i \<le> j \<Longrightarrow> page_total (take i gs) \<le> page_total (take j gs)"
  by (metis le_add1 le_add_diff_inverse take_add total_simps(3))

lemma choose_prefix_ok:
  assumes "gs = done @ rest" "g = length done" "n = page_total done" "scan_ok w nCur maxPromoted gs g acc"
    and "choose_prefix w (length gs) nCur maxWindows maxPromoted g n acc rest = (best, chosen, promoted)"
  shows "\<exists>g' \<ge> g. scan_ok w nCur maxPromoted gs g' (best, chosen, promoted) \<and>
    (best \<le> maxWindows \<or> (\<forall>j > g'. j \<le> length gs \<longrightarrow> maxPromoted < page_total (take j gs)))"
  using assms
proof (induction rest arbitrary: "done" g n acc)
  case Nil
  then show ?case by (intro exI [of _ g]) (cases acc, auto)
next
  case (Cons grp rest)
  obtain b c p where acc: "acc = (b, c, p)" by (cases acc)
  have gl: "Suc g \<le> length gs" and n': "n + length grp = page_total (take (Suc g) gs)"
    using Cons.prems(1-3) by simp_all
  show ?case
  proof (cases "maxPromoted < n + length grp")
    case True
    have "maxPromoted < page_total (take j gs)" if "j > g" for j
      using total_take_mono [of "Suc g" j gs] that True n' by simp
    moreover have "(best, chosen, promoted) = acc" using Cons.prems(5) True acc by simp
    ultimately show ?thesis using Cons.prems(4) by (intro exI [of _ g]) auto
  next
    case False
    let ?c = "prefix_cost w nCur gs (Suc g)"
    let ?acc = "if ?c < b then (?c, Suc g, n + length grp) else (b, c, p)"
    have cost: "length gs - (g + 1) + currentWindows w (nCur + (n + length grp)) = ?c" by (simp add: prefix_cost_def n')
    have ok: "scan_ok w nCur maxPromoted gs (Suc g) ?acc"
      using Cons.prems(4) False n' gl by (auto simp: scan_ok_def acc le_Suc_eq)
    have unf: "choose_prefix w (length gs) nCur maxWindows maxPromoted g n acc (grp # rest) =
        (if fst ?acc \<le> maxWindows then ?acc
         else choose_prefix w (length gs) nCur maxWindows maxPromoted (Suc g) (n + length grp) ?acc rest)"
      using False unfolding acc choose_prefix.simps Let_def cost by simp
    show ?thesis
    proof (cases "fst ?acc \<le> maxWindows")
      case True
      then have eq: "?acc = (best, chosen, promoted)" using Cons.prems(5) unf by simp
      have "scan_ok w nCur maxPromoted gs (Suc g) (best, chosen, promoted)" using ok unfolding eq .
      moreover have "best \<le> maxWindows" using True unfolding eq by simp
      ultimately show ?thesis using le_SucI by blast
    next
      case nle: False
      have "\<exists>g' \<ge> Suc g. scan_ok w nCur maxPromoted gs g' (best, chosen, promoted) \<and>
          (best \<le> maxWindows \<or> (\<forall>j > g'. j \<le> length gs \<longrightarrow> maxPromoted < page_total (take j gs)))"
      proof (rule Cons.IH [OF _ _ _ ok])
        show "gs = (done @ [grp]) @ rest" using Cons.prems(1) by simp
        show "choose_prefix w (length gs) nCur maxWindows maxPromoted (Suc g) (n + length grp) ?acc rest = (best, chosen, promoted)"
          using Cons.prems(5) unf nle by simp
      qed (use Cons.prems(2,3) in simp_all)
      then show ?thesis using Suc_leD by blast
    qed
  qed
qed

section \<open>The cheapest groups are the best choice\<close>

lemma subseq_sorted_take:
  assumes "subseq S gs" "sorted (map length gs)"
  shows "page_total (take (length S) gs) \<le> page_total S"
  using assms
proof (induction S gs rule: list_emb.induct)
  case (list_emb_Cons xs ys y)
  then show ?case
  proof (cases xs)
    case (Cons x zs)
    have "length y \<le> length z" if "z \<in> set ys" for z using list_emb_Cons.prems that by auto
    moreover have ne: "ys \<noteq> []" using list_emb_Cons.hyps Cons by auto
    moreover have le: "length xs \<le> length ys" using list_emb_Cons.hyps list_emb_length by blast
    ultimately have "length y + page_total (take (length zs) ys) \<le> page_total (take (Suc (length zs)) ys)"
      using Cons by (simp add: take_Suc_conv_app_nth)
    then show ?thesis using list_emb_Cons Cons by simp
  qed simp
qed simp_all

lemma distinct_groups: "distinct (parentKeyGroups pages)"
proof -
  have "distinct (map (idxByKey pages) (parent_keys pages))"
    using inj_on_imageI2 [OF group_order_inj] by (simp add: distinct_map parent_keys_def)
  then show ?thesis using mset_eq_imp_distinct_iff [OF groups_mset] by simp
qed

lemma selection_take:
  assumes "selection pages S"
  shows "page_total (take (length S) (parentKeyGroups pages)) \<le> page_total S" "length S \<le> length (parentKeyGroups pages)"
proof -
  let ?gs = "parentKeyGroups pages"
  let ?F = "filter (\<lambda>g. g \<in> set S) ?gs"
  have dg: "distinct ?gs" by (rule distinct_groups)
  have "mset ?F = mset S"
    using assms dg by (intro set_eq_iff_mset_eq_distinct [THEN iffD1]) (auto simp: selection_def)
  then have "page_total ?F = page_total S" "length ?F = length S"
    by (metis mset_map sum_mset_sum_list page_total_def) (metis \<open>mset ?F = mset S\<close> size_mset)
  then show "page_total (take (length S) ?gs) \<le> page_total S" "length S \<le> length ?gs"
    using subseq_sorted_take [OF subseq_filter_left groups_sorted, of "\<lambda>g. g \<in> set S" pages] length_filter_le by metis+
qed

lemma currentWindows_mono: "m \<le> n \<Longrightarrow> currentWindows w m \<le> currentWindows w n"
  by (auto simp: currentWindows_def intro!: diff_le_mono div_le_mono)

lemma take_selection: "selection pages (take j (parentKeyGroups pages))"
  by (auto simp: selection_def distinct_groups dest: in_set_takeD)

lemma compact_cases:
  assumes "compact w pages maxWindows maxPromoted = (pages', promoted)" "0 < maxWindows" "0 < maxPromoted"
  obtains chosen g' where "pages' = promote_pages (concat (take chosen (parentKeyGroups pages))) pages"
    and "scan_ok w (current_count pages) (nat maxPromoted) (parentKeyGroups pages) g' (fetch_windows w pages', chosen, promoted)"
    and "int (fetch_windows w pages') \<le> maxWindows \<or>
      (\<forall>j > g'. j \<le> length (parentKeyGroups pages) \<longrightarrow> nat maxPromoted < page_total (take j (parentKeyGroups pages)))"
proof -
  let ?gs = "parentKeyGroups pages" and ?n = "current_count pages"
  let ?best = "length ?gs + currentWindows w ?n"
  have best: "?best = fetch_windows w pages" "?best = prefix_cost w ?n ?gs 0"
    by (simp_all add: fetch_windows_def length_groups prefix_cost_def)
  have start: "scan_ok w ?n (nat maxPromoted) ?gs 0 (?best, 0, 0)" by (simp add: scan_ok_def best(2))
  show thesis
  proof (cases "int ?best \<le> maxWindows")
    case True
    then have "pages' = pages" "promoted = 0" using assms by (auto simp: compact_def)
    then show thesis using True start best by (intro that [of 0 0]) (auto simp: promote_pages_def)
  next
    case False
    obtain b c p where r: "choose_prefix w (length ?gs) ?n (nat maxWindows) (nat maxPromoted) 0 0 (?best, 0, 0) ?gs = (b, c, p)"
      by (cases "choose_prefix w (length ?gs) ?n (nat maxWindows) (nat maxPromoted) 0 0 (?best, 0, 0) ?gs")
    then have c: "pages' = promote_pages (concat (take c ?gs)) pages" "promoted = p"
      using assms False by (auto simp: compact_def Let_def)
    obtain g' where g': "scan_ok w ?n (nat maxPromoted) ?gs g' (b, c, p)"
      "b \<le> nat maxWindows \<or> (\<forall>j > g'. j \<le> length ?gs \<longrightarrow> nat maxPromoted < page_total (take j ?gs))"
      using choose_prefix_ok [OF _ _ _ start r, of "[]"] by auto
    have "fetch_windows w pages' = b"
      using g'(1) promoted_windows [OF take_selection, of w c pages]
      by (auto simp: c(1) scan_ok_def prefix_cost_def length_groups min_def)
    then show thesis using c g' assms(2) by (intro that [of c g']) auto
  qed
qed

lemma selection_cost:
  assumes "selection pages S"
  shows "prefix_cost w (current_count pages) (parentKeyGroups pages) (length S) \<le> fetch_windows w (promote_pages (concat S) pages)"
  using selection_take(1) [OF assms] currentWindows_mono
  by (simp add: promoted_windows [OF assms] prefix_cost_def length_groups)

lemma compact_kinds:
  assumes "compact w pages maxWindows maxPromoted = (pages', promoted)"
  shows "length pages' = length pages"
    and "i < length pages \<Longrightarrow> kind (pages ! i) = dedupPageEmpty \<Longrightarrow> kind (pages' ! i) = dedupPageEmpty"
proof -
  have "pages' = pages \<or> (\<exists>chosen. pages' = promote_pages (concat (take chosen (parentKeyGroups pages))) pages)"
    using assms by (auto simp: compact_def Let_def split: if_splits prod.splits)
  moreover note n = promoted_nth [OF take_selection [where pages = pages]] and sub = S_parents [OF take_selection [where pages = pages]]
  ultimately show "length pages' = length pages" by auto
  show "kind (pages' ! i) = dedupPageEmpty" if i: "i < length pages" and e: "kind (pages ! i) = dedupPageEmpty"
  proof (cases "pages' = pages")
    case False
    with \<open>pages' = pages \<or> _\<close> obtain c where c: "pages' = promote_pages (concat (take c (parentKeyGroups pages))) pages" by blast
    have "i \<notin> set (concat (take c (parentKeyGroups pages)))"
    proof
      assume "i \<in> set (concat (take c (parentKeyGroups pages)))"
      then have "i \<in> set (parent_indices pages)" using sub by blast
      then show False using e by (simp add: set_parent_indices)
    qed
    then show ?thesis using n(3) [OF i] e c by simp
  qed (use e in simp)
qed

section \<open>Properties\<close>

text \<open>
  C17. The window cap is optimal: when it is active, compacting a block never increases its number of fetch windows,
  stays within the promotion budget and reports the number of pages it promoted, and either the block fits
  the cap or no selection of whole fetch-key groups within the budget needs fewer windows.
\<close>

theorem compact_optimal:
  assumes "compact w pages maxWindows maxPromoted = (pages', promoted)" and "0 < maxWindows" "0 < maxPromoted"
  shows "fetch_windows w pages' \<le> fetch_windows w pages \<and> int promoted \<le> maxPromoted \<and>
    current_count pages' = current_count pages + promoted \<and>
    (int (fetch_windows w pages') \<le> maxWindows \<or>
     (\<forall>S. selection pages S \<and> int (page_total S) \<le> maxPromoted \<longrightarrow>
        fetch_windows w pages' \<le> fetch_windows w (promote_pages (concat S) pages)))"
proof -
  let ?gs = "parentKeyGroups pages" and ?n = "current_count pages"
  obtain chosen g' where c: "pages' = promote_pages (concat (take chosen ?gs)) pages"
    and ok: "scan_ok w ?n (nat maxPromoted) ?gs g' (fetch_windows w pages', chosen, promoted)"
    and stop: "int (fetch_windows w pages') \<le> maxWindows \<or>
      (\<forall>j > g'. j \<le> length ?gs \<longrightarrow> nat maxPromoted < page_total (take j ?gs))"
    by (rule compact_cases [OF assms])
  have "fetch_windows w pages' \<le> prefix_cost w ?n ?gs 0" using ok unfolding scan_ok_def by auto
  then have "fetch_windows w pages' \<le> fetch_windows w pages"
    by (simp add: prefix_cost_def fetch_windows_def [of w pages] length_groups)
  moreover have "int promoted \<le> maxPromoted" using ok assms(3) by (auto simp: scan_ok_def)
  moreover have "current_count pages' = ?n + promoted"
    using ok promoted_count [OF take_selection] by (simp add: c scan_ok_def)
  moreover have "fetch_windows w pages' \<le> fetch_windows w (promote_pages (concat S) pages)"
    if "\<not> int (fetch_windows w pages') \<le> maxWindows" "selection pages S" "int (page_total S) \<le> maxPromoted" for S
  proof -
    have "page_total (take (length S) ?gs) \<le> nat maxPromoted" using selection_take(1) [OF that(2)] that(3) by linarith
    then have "length S \<le> g'" using stop that(1) selection_take(2) [OF that(2)] by (meson not_le)
    then have "fetch_windows w pages' \<le> prefix_cost w ?n ?gs (length S)" using ok unfolding scan_ok_def by auto
    then show ?thesis using selection_cost [OF that(2)] order.trans by blast
  qed
  ultimately show ?thesis by blast
qed

definition sample_pages :: "dedupPageInfo list" where
  "sample_pages = [\<lparr>kind = dedupPageCurrent, key = \<lparr>fk_buildID = 0, fk_window = 0\<rparr>\<rparr>,
     \<lparr>kind = dedupPageParent, key = \<lparr>fk_buildID = 5, fk_window = 0\<rparr>\<rparr>,
     \<lparr>kind = dedupPageParent, key = \<lparr>fk_buildID = 6, fk_window = 3\<rparr>\<rparr>,
     \<lparr>kind = dedupPageParent, key = \<lparr>fk_buildID = 6, fk_window = 3\<rparr>\<rparr>]"

theorem compact_optimal_witness:
  "fetch_windows \<lparr>windowPages = 8, currentStart = 0\<rparr> (fst (compact \<lparr>windowPages = 8, currentStart = 0\<rparr> sample_pages 2 2))
     \<le> fetch_windows \<lparr>windowPages = 8, currentStart = 0\<rparr> sample_pages"
proof -
  obtain pages' promoted where
    c: "compact \<lparr>windowPages = 8, currentStart = 0\<rparr> sample_pages 2 2 = (pages', promoted)" by fastforce
  from compact_optimal [OF this] c show ?thesis by simp
qed

text \<open>
  C19. Map iteration order does not matter: however the groups of parent pages are collected before they are sorted, the
  sorted list is the same, so that a snapshot's layout is deterministic.
\<close>

theorem parentKeyGroups_deterministic:
  assumes "mset gs = mset (map (idxByKey pages) (parent_keys pages))"
  shows "sort_key group_order gs = parentKeyGroups pages"
  by (rule groups_any_order [OF assms])

theorem parentKeyGroups_deterministic_witness:
  "sort_key group_order [[2, 3], [1]] = parentKeyGroups sample_pages"
  by (rule parentKeyGroups_deterministic) code_simp

end
