(* ===== verification/Dedup.thy ===== *)
theory Dedup
  imports Complex_Main Block_Cache Dedup_Windows
begin

text \<open>
  The deduplication of a memory snapshot against its parent
  (\<open>packages/orchestrator/pkg/sandbox/block/dedup.go\<close>): every dirty page is classified as empty, stored or
  served by the parent, then two budget passes move parent pages into the diff. The properties say that the
  window walks end and that no pass ever changes the restored image.
\<close>

section \<open>Data\<close>

record DedupBudget =
  MaxFetchWindowsPerBlock :: i64
  MaxPromotedParentPagesPerBlock :: i64
  MaxPagesPerPromotedFrame :: i64
  BlockFaultPct :: i64
  FetchRunWindowPages :: i64

record 'bm dedupPlan =
  pageDirty :: 'bm
  pageEmpty :: 'bm
  exportedSize :: i64
  promotedBlocks :: nat
  promotedPages :: nat
  parentFrames :: nat
  promotedFrames :: nat
  promotedFramePages :: nat

definition DefaultCompressFrameSize :: i64 where
  "DefaultCompressFrameSize = 2 * 1024 * 1024"

text \<open>Of the base device (a \<open>ReadonlyDevice\<close>) the code uses its header, its \<open>Slice\<close> and, where it has one,
  its \<open>IsCached\<close>.\<close>

record 'e base_device =
  bd_Header :: "Header option"
  bd_IsCached :: "(i64 \<Rightarrow> i64 \<Rightarrow> bool) option"
  bd_Slice :: "i64 \<Rightarrow> i64 \<Rightarrow> 'e + byte list"

datatype 'e dedup_error = DedupCtx 'e | DedupSrc 'e | DedupBase 'e | DedupPanic

type_synonym 'bm parent_map = "(dedupFetchKey \<times> 'bm) list"

section \<open>Fetch keys\<close>

definition fetchKeyAndEnd :: "FrameTable option \<Rightarrow> uuid \<Rightarrow> i64 \<Rightarrow> i64 \<Rightarrow> dedupFetchKey \<times> i64" where
  "fetchKeyAndEnd ft buildID off windowBytes =
     (let bucket = (\<lparr>fk_buildID = buildID, fk_window = i64_div off windowBytes\<rparr>,
                    (i64_div off windowBytes + 1) * windowBytes)
      in if IsCompressed ft then
           (case LocateUncompressed ft off of
              Inl _ \<Rightarrow> bucket
            | Inr u \<Rightarrow>
                if sint (rg_Offset u + rg_Length u) > sint off
                then (\<lparr>fk_buildID = buildID, fk_window = i64_div (rg_Offset u) PageSize\<rparr>, rg_Offset u + rg_Length u)
                else bucket)
         else bucket)"

definition parentFetchKey :: "Header option \<Rightarrow> BuildMap option \<Rightarrow> i64 \<Rightarrow> i64 \<Rightarrow> dedupFetchKey" where
  "parentFetchKey baseHeader mapped pageOff windowBytes =
     (case mapped of
        None \<Rightarrow> \<lparr>fk_buildID = uuid_Nil, fk_window = i64_div pageOff windowBytes\<rparr>
      | Some m \<Rightarrow>
          let ft = (case baseHeader of None \<Rightarrow> None | Some h \<Rightarrow> GetBuildFrameData h (BuildId m))
          in fst (fetchKeyAndEnd ft (BuildId m) (Offset m) windowBytes))"

text \<open>\<open>mapped, hasMapping\<close> of a page: \<open>Some None\<close> without a mapping, \<open>None\<close> when the lookup panics.\<close>

definition page_mapping :: "Header option \<Rightarrow> i64 \<Rightarrow> BuildMap option option" where
  "page_mapping baseHeader pageOff =
     (case baseHeader of
        None \<Rightarrow> Some None
      | Some h \<Rightarrow>
          (case GetShiftedMapping h pageOff of
             Inr m \<Rightarrow> Some (Some m)
           | Inl e \<Rightarrow> if e = HPanic then None else Some None))"

section \<open>Classification\<close>

fun add_to_key :: "'bm roaring_ops \<Rightarrow> dedupFetchKey \<Rightarrow> u32 \<Rightarrow> 'bm parent_map \<Rightarrow> 'bm parent_map" where
  "add_to_key R k idx [] = [(k, bm_Add R idx (bm_New R))]"
| "add_to_key R k idx ((k', bm) # rest) =
     (if k' = k then (k', bm_Add R idx bm) # rest else (k', bm) # add_to_key R k idx rest)"

text \<open>The body of the innermost loop of \<open>dedupCompare\<close>.\<close>

definition dedup_page ::
  "'bm roaring_ops \<Rightarrow> 'e base_device \<Rightarrow> bool \<Rightarrow> i64 \<Rightarrow> i64 \<Rightarrow> byte list \<Rightarrow> i64 \<Rightarrow> 'bm dedupPlan \<times> 'bm parent_map \<Rightarrow>
   'e dedup_error + 'bm dedupPlan \<times> 'bm parent_map" where
  "dedup_page R base bestEffort windowBytes absOff srcBuf i st =
     (case go_slice srcBuf i (i + PageSize) of
        None \<Rightarrow> Inl DedupPanic
      | Some srcPage \<Rightarrow>
          let (plan, parentByKey) = st;
              pageOff = absOff + i;
              pageIdx = ucast (i64_div pageOff PageSize);
              store = Inr (plan\<lparr>pageDirty := bm_Add R pageIdx (pageDirty plan)\<rparr>, parentByKey)
          in if IsZero srcPage then Inr (plan\<lparr>pageEmpty := bm_Add R pageIdx (pageEmpty plan)\<rparr>, parentByKey)
             else case page_mapping (bd_Header base) pageOff of
                 None \<Rightarrow> Inl DedupPanic
               | Some mapped \<Rightarrow>
                   if (case mapped of None \<Rightarrow> False
                       | Some m \<Rightarrow> BuildId m = uuid_Nil \<and> sint (Length m) \<ge> sint PageSize) then store
                   else if bestEffort \<and> (case bd_IsCached base of None \<Rightarrow> False | Some c \<Rightarrow> \<not> c pageOff PageSize) then store
                   else case bd_Slice base pageOff PageSize of
                       Inl e \<Rightarrow> Inl (DedupBase e)
                     | Inr basePage \<Rightarrow>
                         if srcPage \<noteq> basePage then store
                         else Inr (plan, add_to_key R (parentFetchKey (bd_Header base) mapped pageOff windowBytes) pageIdx parentByKey))"

text \<open>The byte offsets of the dirty blocks, in the order of the two outer loops.\<close>

fun range_offsets :: "i64 \<Rightarrow> (i64 \<times> i64) list \<Rightarrow> i64 list option" where
  "range_offsets blkSize [] = Some []"
| "range_offsets blkSize ((start, sz) # rs) =
     (case i64_steps 0 sz blkSize of
        None \<Rightarrow> None
      | Some cs \<Rightarrow> map_option ((@) (map ((+) start) cs)) (range_offsets blkSize rs))"

definition dedup_block ::
  "'bm roaring_ops \<Rightarrow> (i64 \<Rightarrow> 'e option) \<Rightarrow> (i64 \<Rightarrow> 'e + byte list) \<Rightarrow> 'e base_device \<Rightarrow> bool \<Rightarrow> i64 \<Rightarrow> i64 list \<Rightarrow> i64 \<Rightarrow>
   'bm dedupPlan \<times> 'bm parent_map \<Rightarrow> 'e dedup_error + 'bm dedupPlan \<times> 'bm parent_map" where
  "dedup_block R ctxErr src base bestEffort windowBytes pageOffs absOff st =
     (case ctxErr absOff of
        Some e \<Rightarrow> Inl (DedupCtx e)
      | None \<Rightarrow>
          (case src absOff of
             Inl e \<Rightarrow> Inl (DedupSrc e)
           | Inr srcBuf \<Rightarrow> fold_res (dedup_page R base bestEffort windowBytes absOff srcBuf) pageOffs st))"

section \<open>Promotion of cheap frames\<close>

text \<open>One window walk, the walk over the blocks of an entry, and over the entries. Both inner loops follow
  computed bounds: not returning is \<open>None\<close>.\<close>

type_synonym ext_counts = "(dedupFetchKey \<Rightarrow> nat) \<times> (dedupFetchKey \<Rightarrow> i64)"

definition count_window :: "(dedupFetchKey \<Rightarrow> bool) \<Rightarrow> i64 \<Rightarrow> dedupFetchKey \<Rightarrow> ext_counts \<Rightarrow> ext_counts" where
  "count_window candidate block k st =
     (let (counts, lastBlock) = st in
      if candidate k \<and> lastBlock k \<noteq> block + 1 then (counts(k := counts k + 1), lastBlock(k := block + 1)) else st)"

partial_function (option) window_walk ::
  "FrameTable option \<Rightarrow> uuid \<Rightarrow> i64 \<Rightarrow> (dedupFetchKey \<Rightarrow> bool) \<Rightarrow> i64 \<Rightarrow> i64 \<Rightarrow> i64 \<Rightarrow> ext_counts \<Rightarrow> ext_counts option" where
  "window_walk ft buildID windowBytes candidate block off hi st =
     (if sint off < sint hi then
        window_walk ft buildID windowBytes candidate block (snd (fetchKeyAndEnd ft buildID off windowBytes)) hi
          (count_window candidate block (fst (fetchKeyAndEnd ft buildID off windowBytes)) st)
      else Some st)"

partial_function (option) block_walk ::
  "'bm roaring_ops \<Rightarrow> 'bm \<Rightarrow> FrameTable option \<Rightarrow> BuildMap \<Rightarrow> i64 \<Rightarrow> i64 \<Rightarrow> (dedupFetchKey \<Rightarrow> bool) \<Rightarrow> i64 \<Rightarrow> ext_counts \<Rightarrow>
   ext_counts option" where
  "block_walk R dirty ft m blkSize windowBytes candidate block st =
     (if sint (block * blkSize) < sint (Offset m + Length m) then
        if bm_Contains R dirty (ucast block) then block_walk R dirty ft m blkSize windowBytes candidate (block + 1) st
        else
          Option.bind
            (window_walk ft (BuildId m) windowBytes candidate block
               (i64_max (block * blkSize) (Offset m) - Offset m + BuildStorageOffset m)
               (i64_min ((block + 1) * blkSize) (Offset m + Length m) - Offset m + BuildStorageOffset m) st)
            (block_walk R dirty ft m blkSize windowBytes candidate (block + 1))
      else Some st)"

fun entry_walks ::
  "'bm roaring_ops \<Rightarrow> 'bm \<Rightarrow> Header \<Rightarrow> i64 \<Rightarrow> i64 \<Rightarrow> (dedupFetchKey \<Rightarrow> bool) \<Rightarrow> BuildMap list \<Rightarrow> ext_counts \<Rightarrow> ext_counts option" where
  "entry_walks R dirty h blkSize windowBytes candidate [] st = Some st"
| "entry_walks R dirty h blkSize windowBytes candidate (m # ms) st =
     (if BuildId m = uuid_Nil then entry_walks R dirty h blkSize windowBytes candidate ms st
      else
        case block_walk R dirty (GetBuildFrameData h (BuildId m)) m blkSize windowBytes candidate (i64_div (Offset m) blkSize) st of
          None \<Rightarrow> None
        | Some st' \<Rightarrow> entry_walks R dirty h blkSize windowBytes candidate ms st')"

text \<open>\<open>Mapping.All()\<close> panics on a malformed mapping, as \<open>Slice\<close> does.\<close>

definition countExternalBlocks ::
  "'bm roaring_ops \<Rightarrow> 'bm parent_map \<Rightarrow> Header option \<Rightarrow> 'bm \<Rightarrow> i64 \<Rightarrow> i64 \<Rightarrow> ('e dedup_error + (dedupFetchKey \<Rightarrow> nat)) option" where
  "countExternalBlocks R candidates baseHeader dirty blkSize windowBytes =
     (case baseHeader of
        None \<Rightarrow> Some (Inr (\<lambda>_. 0))
      | Some h \<Rightarrow>
          if candidates = [] then Some (Inr (\<lambda>_. 0))
          else case Slice (h_Mapping h) of
              None \<Rightarrow> Some (Inl DedupPanic)
            | Some ms \<Rightarrow>
                map_option (\<lambda>st. Inr (fst st))
                  (entry_walks R dirty h blkSize windowBytes (\<lambda>k. k \<in> fst ` set candidates) ms ((\<lambda>_. 0), (\<lambda>_. 0))))"

fun distinct_loop :: "nat \<Rightarrow> nat \<Rightarrow> int \<Rightarrow> u32 list \<Rightarrow> nat" where
  "distinct_loop pagesPerBlock n lastB [] = n"
| "distinct_loop pagesPerBlock n lastB (p # ps) =
     (let b = int (unat p div pagesPerBlock) in
      if b \<noteq> lastB then distinct_loop pagesPerBlock (n + 1) b ps else distinct_loop pagesPerBlock n lastB ps)"

definition distinctBlocks :: "'bm roaring_ops \<Rightarrow> 'bm \<Rightarrow> nat \<Rightarrow> nat" where
  "distinctBlocks R pages pagesPerBlock = distinct_loop pagesPerBlock 0 (- 1) (bm_ToArray R pages)"

text \<open>\<open>float64\<close> arithmetic is exact rational arithmetic here; \<open>math.Pow\<close> has a natural exponent.\<close>

definition frame_value :: "i64 \<Rightarrow> nat \<Rightarrow> nat \<Rightarrow> rat" where
  "frame_value faultPct ext inside =
     (let pFault = (if 0 < sint faultPct \<and> sint faultPct < 100 then of_int (sint faultPct) / 100 else 1)
      in (1 - pFault) ^ ext * (1 - (1 - pFault) ^ inside))"

fun promoteCheapFrames ::
  "'bm roaring_ops \<Rightarrow> (dedupFetchKey \<Rightarrow> nat) \<Rightarrow> nat \<Rightarrow> DedupBudget \<Rightarrow> 'bm parent_map \<Rightarrow> 'bm dedupPlan \<Rightarrow> 'bm dedupPlan" where
  "promoteCheapFrames R extBlocks pagesPerBlock budget [] plan = plan"
| "promoteCheapFrames R extBlocks pagesPerBlock budget ((k, bm) # rest) plan =
     (let maxPages = min (sint (MaxPagesPerPromotedFrame budget)) (sint (FetchRunWindowPages budget - 1));
          value = frame_value (BlockFaultPct budget) (extBlocks k) (distinctBlocks R bm pagesPerBlock);
          n = unat (bm_GetCardinality R bm)
      in promoteCheapFrames R extBlocks pagesPerBlock budget rest
           (if n > 0 \<and> of_nat n \<le> of_int maxPages * value
            then plan\<lparr>pageDirty := bm_Or R (pageDirty plan) bm, promotedFrames := promotedFrames plan + 1,
                      promotedFramePages := promotedFramePages plan + n\<rparr>
            else plan))"

section \<open>The window cap of every block\<close>

definition page_info ::
  "'bm roaring_ops \<Rightarrow> 'bm dedupPlan \<Rightarrow> Header option \<Rightarrow> i64 \<Rightarrow> i64 \<Rightarrow> u32 \<Rightarrow> nat \<Rightarrow> dedupPageInfo option" where
  "page_info R plan baseHeader windowBytes absOff firstPage p =
     (let none = \<lparr>fk_buildID = uuid_Nil, fk_window = 0\<rparr>; pageIdx = firstPage + word_of_nat p in
      if bm_Contains R (pageDirty plan) pageIdx then Some \<lparr>kind = dedupPageCurrent, key = none\<rparr>
      else if bm_Contains R (pageEmpty plan) pageIdx then Some \<lparr>kind = dedupPageEmpty, key = none\<rparr>
      else
        let pageOff = absOff + word_of_nat p * PageSize in
        map_option (\<lambda>mapped. \<lparr>kind = dedupPageParent, key = parentFetchKey baseHeader mapped pageOff windowBytes\<rparr>)
          (page_mapping baseHeader pageOff))"

definition store_current :: "'bm roaring_ops \<Rightarrow> u32 \<Rightarrow> dedupPageInfo list \<Rightarrow> 'bm \<Rightarrow> 'bm" where
  "store_current R firstPage pages bm =
     fold (\<lambda>p b. if kind (pages ! p) = dedupPageCurrent then bm_Add R (firstPage + word_of_nat p) b else b)
       [0..<length pages] bm"

definition compact_block ::
  "'bm roaring_ops \<Rightarrow> (i64 \<Rightarrow> 'e option) \<Rightarrow> Header option \<Rightarrow> i64 \<Rightarrow> DedupBudget \<Rightarrow> nat \<Rightarrow> i64 \<Rightarrow> 'bm dedupPlan \<times> nat \<Rightarrow>
   'e dedup_error + 'bm dedupPlan \<times> nat" where
  "compact_block R ctxErr baseHeader windowBytes budget n absOff st =
     (case ctxErr absOff of
        Some e \<Rightarrow> Inl (DedupCtx e)
      | None \<Rightarrow>
          let (plan, currentStoredPages) = st;
              firstPage = ucast (i64_div absOff PageSize)
          in case List.those (map (page_info R plan baseHeader windowBytes absOff firstPage) [0..<n]) of
              None \<Rightarrow> Inl DedupPanic
            | Some pages \<Rightarrow>
                let w = \<lparr>windowPages = nat (sint (FetchRunWindowPages budget)), currentStart = currentStoredPages\<rparr>;
                    (pages', promoted) = compact w pages (sint (MaxFetchWindowsPerBlock budget))
                      (sint (MaxPromotedParentPagesPerBlock budget));
                    plan' = (if promoted > 0 then plan\<lparr>promotedBlocks := promotedBlocks plan + 1,
                               promotedPages := promotedPages plan + promoted\<rparr> else plan)
                in Inr (plan'\<lparr>pageDirty := store_current R firstPage pages' (pageDirty plan')\<rparr>,
                        currentStoredPages + current_count pages'))"

definition compactBlockWindows ::
  "'bm roaring_ops \<Rightarrow> (i64 \<Rightarrow> 'e option) \<Rightarrow> 'bm dedupPlan \<Rightarrow> Header option \<Rightarrow> i64 list \<Rightarrow> i64 \<Rightarrow> i64 \<Rightarrow> DedupBudget \<Rightarrow>
   'e dedup_error + 'bm dedupPlan" where
  "compactBlockWindows R ctxErr plan baseHeader absOffs blkSize windowBytes budget =
     (if sint (MaxFetchWindowsPerBlock budget) \<le> 0 \<or> sint (MaxPromotedParentPagesPerBlock budget) \<le> 0 then Inr plan
      else if sint (i64_div blkSize PageSize) < 0 then Inl DedupPanic
      else map_sum id fst
        (fold_res (compact_block R ctxErr baseHeader windowBytes budget (nat (sint (i64_div blkSize PageSize)))) absOffs (plan, 0)))"

section \<open>dedupCompare\<close>

definition GetSize :: "(i64 \<times> i64) list \<Rightarrow> i64" where
  "GetSize rs = fold (\<lambda>(_, sz) acc. acc + sz) rs 0"

text \<open>\<open>ctxErr\<close> answers the polls of the context in the first pass, \<open>ctxErr2\<close> in the last one.\<close>

definition dedupCompare ::
  "'bm roaring_ops \<Rightarrow> (i64 \<Rightarrow> 'e option) \<Rightarrow> (i64 \<Rightarrow> 'e option) \<Rightarrow> (i64 \<Rightarrow> 'e + byte list) \<Rightarrow> 'e base_device \<Rightarrow> 'bm \<Rightarrow> i64 \<Rightarrow> bool \<Rightarrow>
   DedupBudget \<Rightarrow> ('e dedup_error + 'bm dedupPlan) option" where
  "dedupCompare R ctxErr ctxErr2 src base dirty blkSize bestEffort budget =
     (let budget = (if sint (FetchRunWindowPages budget) \<le> 0
            then budget\<lparr>FetchRunWindowPages := i64_div DefaultCompressFrameSize PageSize\<rparr> else budget);
          windowBytes = FetchRunWindowPages budget * PageSize;
          rs = BitsetRanges R dirty blkSize;
          plan0 = \<lparr>pageDirty = bm_New R, pageEmpty = bm_New R, exportedSize = GetSize rs, promotedBlocks = 0,
                   promotedPages = 0, parentFrames = 0, promotedFrames = 0, promotedFramePages = 0\<rparr>
      in case (range_offsets blkSize rs, i64_steps 0 blkSize PageSize) of
          (Some absOffs, Some pageOffs) \<Rightarrow>
            (case fold_res (dedup_block R ctxErr src base bestEffort windowBytes pageOffs) absOffs (plan0, []) of
               Inl e \<Rightarrow> Some (Inl e)
             | Inr (plan, parentByKey) \<Rightarrow>
                 let plan = plan\<lparr>parentFrames := length parentByKey\<rparr>;
                     promoted =
                       (if sint (MaxPagesPerPromotedFrame budget) > 0 then
                          map_option (map_sum id (\<lambda>ext. promoteCheapFrames R ext (nat (sint (i64_div blkSize PageSize))) budget parentByKey plan))
                            (countExternalBlocks R parentByKey (bd_Header base) dirty blkSize windowBytes)
                        else Some (Inr plan))
                 in map_option (\<lambda>r. bind_res r (\<lambda>plan.
                      compactBlockWindows R ctxErr2 plan (bd_Header base) absOffs blkSize windowBytes budget)) promoted)
        | _ \<Rightarrow> None)"

section \<open>The window walks end\<close>

lemma bucket_end:
  assumes "unat off < 2 ^ 44" "0 < unat wb" "unat wb < 2 ^ 44"
  shows "sint off < sint ((i64_div off wb + 1) * wb)"
proof -
  have d: "unat (i64_div off wb) = unat off div unat wb" using assms by (intro i64_div_nonneg) simp_all
  have "unat off div unat wb \<le> unat off" by (rule div_le_dividend)
  then have "unat off div unat wb < 2 ^ 44" using assms(1) by linarith
  then have d1: "unat (i64_div off wb + 1) = unat off div unat wb + 1" using d by (subst unat_add_u64) simp_all
  have "(unat off div unat wb) * unat wb \<le> unat off" by (rule div_times_less_eq_dividend)
  then have "(unat off div unat wb + 1) * unat wb \<le> unat off + unat wb" by simp
  also have "\<dots> < 2 ^ 45" using assms by simp
  finally have e: "(unat off div unat wb + 1) * unat wb < 2 ^ 45" .
  then have "unat ((i64_div off wb + 1) * wb) = (unat off div unat wb + 1) * unat wb"
    using d1 by (simp add: unat_word_ariths)
  moreover have "unat off < (unat off div unat wb + 1) * unat wb"
    using assms(2) dividend_less_times_div [of "unat wb" "unat off"] by (simp add: mult.commute)
  ultimately show ?thesis using e assms(1) by (simp add: sint_small_u64 del: of_nat_mult of_nat_add)
qed

lemma fetch_end_past:
  assumes "unat off < 2 ^ 44" "0 < unat wb" "unat wb < 2 ^ 44"
  shows "sint off < sint (snd (fetchKeyAndEnd ft bid off wb))"
  using bucket_end [OF assms] by (simp add: fetchKeyAndEnd_def Let_def split: sum.split)

lemma sint_nonneg_unat: "0 \<le> sint (off :: i64) \<Longrightarrow> sint off < 2 ^ 44 \<Longrightarrow> unat off < 2 ^ 44"
proof -
  assume a: "0 \<le> sint off" "sint off < 2 ^ 44"
  then have "unat off < 2 ^ 63" using sint_neg_u64 [of off] by linarith
  then show ?thesis using a by (simp add: sint_small_u64)
qed

lemma window_walk_ends:
  assumes "0 \<le> sint off" "unat hi < 2 ^ 44" "0 < unat wb" "unat wb < 2 ^ 44"
  shows "\<exists>st'. window_walk ft bid wb cand block off hi st = Some st'"
  using assms(1)
proof (induction "nat (sint hi - sint off)" arbitrary: off st rule: less_induct)
  case less
  show ?case
  proof (cases "sint off < sint hi")
    case True
    have "sint hi < 2 ^ 44" using assms(2) by (simp add: sint_small_u64)
    then have "unat off < 2 ^ 44" using less.prems True by (intro sint_nonneg_unat) simp_all
    then have p: "sint off < sint (snd (fetchKeyAndEnd ft bid off wb))" by (rule fetch_end_past [OF _ assms(3,4)])
    have "\<exists>st'. window_walk ft bid wb cand block (snd (fetchKeyAndEnd ft bid off wb)) hi
        (count_window cand block (fst (fetchKeyAndEnd ft bid off wb)) st) = Some st'"
      using p True less.prems by (intro less.hyps) auto
    then show ?thesis using True by (subst window_walk.simps) simp
  qed (simp add: window_walk.simps)
qed

lemma i64_max_nat: "unat a < 2 ^ 63 \<Longrightarrow> unat b < 2 ^ 63 \<Longrightarrow> unat (i64_max a b) = max (unat a) (unat b)"
  by (simp add: i64_max_def sint_small_u64 max_def)

lemma block_walk_ends:
  assumes m: "unat (Offset m) + unat (Length m) < 2 ^ 44" "unat (BuildStorageOffset m) + unat (Length m) < 2 ^ 44"
    and bs: "0 < unat bs" "unat bs < 2 ^ 44" and wb: "0 < unat wb" "unat wb < 2 ^ 44"
    and k: "unat block * unat bs < unat (Offset m) + unat (Length m) + unat bs"
      "unat (Offset m) < Suc (unat block) * unat bs"
  shows "\<exists>st'. block_walk R dirty ft m bs wb cand block st = Some st'"
  using k
proof (induction "unat (Offset m) + unat (Length m) + unat bs - unat block * unat bs" arbitrary: block st rule: less_induct)
  case less
  let ?e = "unat (Offset m) + unat (Length m)"
  have e: "unat (Offset m + Length m) = ?e" using m(1) by (simp add: unat_add_u64)
  have kb: "unat block * unat bs < 2 ^ 45" using less.prems(1) m(1) bs(2) by simp
  then have b: "unat (block * bs) = unat block * unat bs" by (simp add: unat_word_ariths)
  show ?case
  proof (cases "sint (block * bs) < sint (Offset m + Length m)")
    case True
    then have lt: "unat block * unat bs < ?e" using b e kb m(1) by (simp add: sint_small_u64 del: of_nat_mult of_nat_add)
    have "unat block \<le> unat block * unat bs" using bs(1) by simp
    then have "unat block < 2 ^ 45" using kb by linarith
    then have b1: "unat (block + 1) = Suc (unat block)" by (subst unat_add_u64) simp_all
    have kb1: "Suc (unat block) * unat bs < 2 ^ 45" using lt m(1) bs(2) by simp
    then have b1s: "unat ((block + 1) * bs) = Suc (unat block) * unat bs" using b1 by (simp add: unat_word_ariths)
    have IH: "\<exists>st'. block_walk R dirty ft m bs wb cand (block + 1) st = Some st'" for st
      using lt b1 bs(1) less.prems(2) by (intro less.hyps) simp_all
    let ?lo = "i64_max (block * bs) (Offset m)" and ?hi = "i64_min ((block + 1) * bs) (Offset m + Length m)"
    have lo: "unat ?lo = max (unat block * unat bs) (unat (Offset m))" and hi: "unat ?hi = min (Suc (unat block) * unat bs) ?e"
      using b e b1s kb kb1 m(1) by (simp_all add: i64_max_nat i64_min_nat)
    have lo1: "unat (?lo - Offset m) = unat ?lo - unat (Offset m)" and hi1: "unat (?hi - Offset m) = unat ?hi - unat (Offset m)"
      using lo hi less.prems(2) by (simp_all add: unat_sub word_le_nat_alt)
    have "unat (?lo - Offset m) \<le> unat (Length m)" "unat (?hi - Offset m) \<le> unat (Length m)"
      using lo hi lo1 hi1 lt by linarith+
    then have "unat (?lo - Offset m + BuildStorageOffset m) < 2 ^ 44" "unat (?hi - Offset m + BuildStorageOffset m) < 2 ^ 44"
      using m(2) by (subst unat_add_u64; simp)+
    then have "\<exists>st'. window_walk ft (BuildId m) wb cand block (?lo - Offset m + BuildStorageOffset m) (?hi - Offset m + BuildStorageOffset m) st = Some st'"
      using wb by (intro window_walk_ends) (simp_all add: sint_small_u64)
    then obtain st1 where "window_walk ft (BuildId m) wb cand block (?lo - Offset m + BuildStorageOffset m) (?hi - Offset m + BuildStorageOffset m) st = Some st1"
      by blast
    then show ?thesis using True IH [of st] IH [of st1] by (subst block_walk.simps) simp
  qed (simp add: block_walk.simps)
qed

lemma entry_walks_end:
  assumes "\<forall>m \<in> set ms. entry_in UNIV N m" "N < 2 ^ 44" "0 < unat bs" "unat bs < 2 ^ 44" "0 < unat wb" "unat wb < 2 ^ 44"
  shows "\<exists>st'. entry_walks R dirty h bs wb cand ms st = Some st'"
  using assms(1)
proof (induction ms arbitrary: st)
  case (Cons m ms)
  show ?case
  proof (cases "BuildId m = uuid_Nil")
    case False
    then have m: "unat (Offset m) + unat (Length m) < 2 ^ 44" "unat (BuildStorageOffset m) + unat (Length m) < 2 ^ 44"
      using Cons.prems assms(2) by (auto simp: entry_in_def mend_def)
    have d: "unat (i64_div (Offset m) bs) = unat (Offset m) div unat bs" using m assms(4) by (intro i64_div_nonneg) simp_all
    have "\<exists>st'. block_walk R dirty (GetBuildFrameData h (BuildId m)) m bs wb cand (i64_div (Offset m) bs) st = Some st'"
      using assms(3-) m d dividend_less_div_times [of "unat bs" "unat (Offset m)"]
      by (intro block_walk_ends) (simp_all add: le_add1 order.strict_trans1 [OF div_times_less_eq_dividend])
    then show ?thesis using False Cons by auto
  qed (use Cons in simp)
qed simp

lemma countExternalBlocks_ends:
  assumes "case h of None \<Rightarrow> True | Some h \<Rightarrow> header_inv h" "0 < unat bs" "unat bs < 2 ^ 44" "0 < unat wb" "unat wb < 2 ^ 44"
  shows "\<exists>counts. (countExternalBlocks R cands h dirty bs wb :: ('e dedup_error + _) option) = Some (Inr counts)"
proof (cases h)
  case (Some h')
  then have i: "header_inv h'" using assms(1) by simp
  then have "mapping_wf (h_Mapping h')" by (simp add: header_inv_def header_wf_def)
  moreover obtain st where "entry_walks R dirty h' bs wb (\<lambda>k. k \<in> fst ` set cands) (entries (h_Mapping h')) ((\<lambda>_. 0), (\<lambda>_. 0)) = Some st"
    using entry_walks_end [OF _ _ assms(2-), of "entries (h_Mapping h')" "unat (md_Size (h_Metadata h'))"] i
    unfolding header_inv_def by metis
  ultimately show ?thesis using Some by (simp add: countExternalBlocks_def Slice_wf)
qed (simp add: countExternalBlocks_def)

section \<open>The offsets of the dirty blocks\<close>

lemma range_offsets_ok:
  assumes "0 < unat bs" "unat bs < 2 ^ 44" "N < 2 ^ 44"
    and "ascending k rs" "\<And>x. in_ranges rs x \<Longrightarrow> Suc x * unat bs \<le> N"
  shows "\<exists>offs. range_offsets bs (map (\<lambda>(s, e). (BlockOffset (ucast s) bs, BlockOffset (e - ucast s) bs)) rs) = Some offs \<and>
    unat ` set offs = (\<lambda>x. x * unat bs) ` {x. in_ranges rs x}"
  using assms(4,5)
proof (induction rs arbitrary: k)
  case (Cons r rs)
  obtain s e where r: "r = (s, e)" by (cases r)
  let ?B = "unat bs"
  have se: "unat s < unat e" "ascending (unat e) rs" using Cons.prems(1) r by auto
  have "in_ranges (r # rs) (unat e - 1)" using se(1) r by auto
  then have "Suc (unat e - 1) * ?B \<le> N" by (rule Cons.prems(2))
  then have eB: "unat e * ?B < 2 ^ 44" using se(1) assms(3) by simp
  note run = run_offsets [OF se(1) eB]
  obtain offs where offs: "range_offsets bs (map (\<lambda>(s, e). (BlockOffset (ucast s) bs, BlockOffset (e - ucast s) bs)) rs) = Some offs"
    "unat ` set offs = (\<lambda>x. x * ?B) ` {x. in_ranges rs x}"
    using Cons.IH [OF se(2)] Cons.prems(2) r by auto
  let ?c = "\<lambda>k. word_of_nat k * bs"
  have le: "(unat e - unat s) * ?B \<le> unat e * ?B" by simp
  have "(unat e - unat s) * ?B + ?B < 2 ^ 44 + 2 ^ 44" using le eB assms(2) by linarith
  then have small: "(unat e - unat s) * ?B + ?B < 2 ^ 63" by simp
  have steps: "i64_steps 0 (BlockOffset (e - ucast s) bs) bs = Some (map (\<lambda>k. 0 + ?c k) [0..<unat e - unat s])"
    by (rule i64_steps_ok [OF refl assms(1)]) (use run(2) small in simp_all)
  have u: "unat (BlockOffset (ucast s) bs + ?c k) = (unat s + k) * ?B" if "k < unat e - unat s" for k
  proof -
    have "(unat s + k) * ?B \<le> unat e * ?B" using that by (intro mult_le_mono1) simp
    then have kB: "(unat s + k) * ?B < 2 ^ 44" using eB by linarith
    have "k \<le> k * ?B" using assms(1) by simp
    also have "\<dots> \<le> (unat s + k) * ?B" by (simp add: add_mult_distrib)
    finally have "k < 2 ^ 44" using kB by linarith
    then have "unat (?c k) = k * ?B" using kB by (simp add: unat_word_ariths unat_word_of_nat_u64 add_mult_distrib)
    then show ?thesis using run(1) kB by (subst unat_add_u64) (simp_all add: add_mult_distrib)
  qed
  have "unat ` (\<lambda>k. BlockOffset (ucast s) bs + ?c k) ` {0..<unat e - unat s} = (\<lambda>x. x * ?B) ` {unat s..<unat e}"
  proof -
    have "unat ` (\<lambda>k. BlockOffset (ucast s) bs + ?c k) ` {0..<unat e - unat s} = (\<lambda>k. (unat s + k) * ?B) ` {0..<unat e - unat s}"
      unfolding image_image by (intro image_cong) (use u in auto)
    also have "\<dots> = (\<lambda>x. x * ?B) ` ((+) (unat s) ` {0..<unat e - unat s})" by (simp only: image_image)
    also have "(+) (unat s) ` {0..<unat e - unat s} = {unat s..<unat e}" using se(1) by (simp add: image_add_atLeastLessThan)
    finally show ?thesis .
  qed
  moreover have "{x. in_ranges (r # rs) x} = {unat s..<unat e} \<union> {x. in_ranges rs x}" using r by auto
  ultimately show ?case using offs steps r by (auto simp: image_Un)
qed simp

section \<open>No pass changes the image\<close>

text \<open>\<open>Q\<close> are the pages handled so far, \<open>spage\<close> and \<open>bpage\<close> the contents of a page in the snapshot and in the
  parent.\<close>

definition plan_inv ::
  "('bm \<Rightarrow> nat set) \<Rightarrow> (nat \<Rightarrow> byte list) \<Rightarrow> (nat \<Rightarrow> byte list) \<Rightarrow> nat set \<Rightarrow> 'bm dedupPlan \<Rightarrow> bool" where
  "plan_inv mem spage bpage Q plan \<longleftrightarrow> mem (pageEmpty plan) = {g \<in> Q. IsZero (spage g)} \<and>
     mem (pageDirty plan) \<subseteq> {g \<in> Q. \<not> IsZero (spage g)} \<and>
     (\<forall>g \<in> Q. \<not> IsZero (spage g) \<and> g \<notin> mem (pageDirty plan) \<longrightarrow> spage g = bpage g)"

definition parents_inv :: "('bm \<Rightarrow> nat set) \<Rightarrow> (nat \<Rightarrow> byte list) \<Rightarrow> nat set \<Rightarrow> 'bm parent_map \<Rightarrow> bool" where
  "parents_inv mem spage Q pk \<longleftrightarrow> (\<forall>(k, bm) \<in> set pk. mem bm \<subseteq> {g \<in> Q. \<not> IsZero (spage g)})"

lemma plan_inv_more:
  assumes "plan_inv mem spage bpage Q plan" "pageEmpty plan' = pageEmpty plan"
    and "mem (pageDirty plan) \<subseteq> mem (pageDirty plan')" "mem (pageDirty plan') \<subseteq> {g \<in> Q. \<not> IsZero (spage g)}"
  shows "plan_inv mem spage bpage Q plan'"
  using assms unfolding plan_inv_def by auto

context roaring
begin

lemma add_to_key_inv:
  assumes "parents_inv mem spage Q pk" "Q \<subseteq> Q'" "unat idx \<in> Q'" "\<not> IsZero (spage (unat idx))"
  shows "parents_inv mem spage Q' (add_to_key R k idx pk)"
  using assms
proof (induction pk)
  case Nil
  then show ?case by (simp add: parents_inv_def Add New)
next
  case (Cons x pk)
  obtain k' bm where x: "x = (k', bm)" by (cases x)
  have bm: "mem bm \<subseteq> {g \<in> Q. \<not> IsZero (spage g)}" and pk: "parents_inv mem spage Q pk"
    using Cons.prems(1) x by (auto simp: parents_inv_def)
  have "parents_inv mem spage Q' (add_to_key R k idx pk)" by (rule Cons.IH [OF pk Cons.prems(2-)])
  moreover have "parents_inv mem spage Q' pk" using pk Cons.prems(2) by (fastforce simp: parents_inv_def)
  ultimately show ?case using bm Cons.prems(2-) x by (auto simp: parents_inv_def Add)
qed

lemma dedup_page_ok:
  assumes inv: "plan_inv mem spage bpage Q plan" "parents_inv mem spage Q pk"
    and sl: "go_slice srcBuf i (i + PageSize) = Some (spage g)"
    and idx: "unat (ucast (i64_div (absOff + i) PageSize) :: u32) = g"
    and map: "page_mapping (bd_Header base) (absOff + i) \<noteq> None"
    and bs: "bd_Slice base (absOff + i) PageSize = Inr (bpage g)"
  shows "\<exists>plan' pk'. dedup_page R base be wb absOff srcBuf i (plan, pk) = Inr (plan', pk') \<and>
    plan_inv mem spage bpage (insert g Q) plan' \<and> parents_inv mem spage (insert g Q) pk'"
proof -
  let ?idx = "ucast (i64_div (absOff + i) PageSize) :: u32"
  obtain mapped where m: "page_mapping (bd_Header base) (absOff + i) = Some mapped" using map by auto
  have pk: "parents_inv mem spage (insert g Q) pk" using inv(2) by (fastforce simp: parents_inv_def)
  have empty: "plan_inv mem spage bpage (insert g Q) (plan\<lparr>pageEmpty := bm_Add R ?idx (pageEmpty plan)\<rparr>)" if "IsZero (spage g)"
    using inv(1) that idx by (auto simp: plan_inv_def Add)
  have store: "plan_inv mem spage bpage (insert g Q) (plan\<lparr>pageDirty := bm_Add R ?idx (pageDirty plan)\<rparr>)" if "\<not> IsZero (spage g)"
    using inv(1) that idx by (auto simp: plan_inv_def Add)
  have parent: "plan_inv mem spage bpage (insert g Q) plan" if "\<not> IsZero (spage g)" "spage g = bpage g"
    using inv(1) that by (auto simp: plan_inv_def)
  have key: "parents_inv mem spage (insert g Q) (add_to_key R k ?idx pk)" if "\<not> IsZero (spage g)" for k
    using that idx by (intro add_to_key_inv [OF inv(2)]) auto
  show ?thesis
    using sl m bs pk empty store parent key by (simp add: dedup_page_def Let_def)
qed

end

text \<open>What the comparison is given: blocks of whole pages inside a device of \<open>N\<close> bytes, a source for every dirty
  block, a parent that can be read, no cancellation, and, where the parent has a header, one that satisfies the
  header invariant and covers the device.\<close>

definition dedup_input ::
  "nat set \<Rightarrow> i64 \<Rightarrow> nat \<Rightarrow> (i64 \<Rightarrow> 'e option) \<Rightarrow> (i64 \<Rightarrow> 'e + byte list) \<Rightarrow> 'e base_device \<Rightarrow> (nat \<Rightarrow> byte list) \<Rightarrow>
   (nat \<Rightarrow> byte list) \<Rightarrow> bool" where
  "dedup_input D bs N ctxErr src base sblock bpage \<longleftrightarrow>
     4096 dvd unat bs \<and> 0 < unat bs \<and> unat bs < 2 ^ 44 \<and> N < 2 ^ 44 \<and> (\<forall>off. ctxErr off = None) \<and>
     (\<forall>x \<in> D. Suc x * unat bs \<le> N \<and> length (sblock x) = unat bs \<and>
        (\<forall>off. unat off = x * unat bs \<longrightarrow> src off = Inr (sblock x))) \<and>
     (\<forall>g off. unat off = g * 4096 \<and> Suc g * 4096 \<le> N \<longrightarrow> bd_Slice base off 4096 = Inr (bpage g)) \<and>
     (case bd_Header base of None \<Rightarrow> True | Some h \<Rightarrow> header_inv h \<and> N \<le> unat (md_Size (h_Metadata h)))"

definition page_of :: "nat \<Rightarrow> (nat \<Rightarrow> byte list) \<Rightarrow> nat \<Rightarrow> byte list" where
  "page_of P sblock g = blk (sblock (g div P)) 4096 (g mod P)"

lemma block_pages:
  assumes "0 < P"
  shows "(\<lambda>k. x * P + k) ` set [0..<P] = {g. g div P = x}"
proof (intro set_eqI iffI)
  fix g assume "g \<in> {g. g div P = x}"
  then have "g = x * P + g mod P" using div_mult_mod_eq [of g P] by simp
  moreover have "g mod P \<in> set [0..<P]" using assms by simp
  ultimately show "g \<in> (\<lambda>k. x * P + k) ` set [0..<P]" by (rule image_eqI)
next
  fix g assume "g \<in> (\<lambda>k. x * P + k) ` set [0..<P]"
  then obtain k where "g = x * P + k" "k < P" by (elim imageE) simp
  then show "g \<in> {g. g div P = x}" by simp
qed

lemma page_mapping_total:
  assumes "case h of None \<Rightarrow> True | Some h \<Rightarrow> header_inv h \<and> N \<le> unat (md_Size (h_Metadata h))" "unat off < N" "4096 dvd unat off"
  shows "page_mapping h off \<noteq> None"
proof (cases h)
  case (Some h')
  then have "header_wf h'" "unat off < unat (md_Size (h_Metadata h'))" using assms by (auto simp: header_inv_def)
  then show ?thesis using GetShiftedMapping_inside [of h' off] assms(3) Some by (auto simp: page_mapping_def)
qed (simp add: page_mapping_def)

text \<open>The \<open>k\<close>-th page of the dirty block at \<open>absOff\<close>.\<close>

lemma page_facts:
  assumes i: "dedup_input D bs N ctxErr src base sblock bpage" and x: "x \<in> D" "unat absOff = x * unat bs"
    and P: "P = unat bs div 4096" and k: "k < P"
  defines "off \<equiv> absOff + word_of_nat k * PageSize" and "g \<equiv> x * P + k"
  shows "go_slice (sblock x) (word_of_nat k * PageSize) (word_of_nat k * PageSize + PageSize) = Some (page_of P sblock g)"
    and "unat off = g * 4096" "Suc g * 4096 \<le> N" "unat (ucast (i64_div off PageSize) :: u32) = g"
    and "page_mapping (bd_Header base) off \<noteq> None" "bd_Slice base off PageSize = Inr (bpage g)"
proof -
  have B: "unat bs = P * 4096" "unat bs < 2 ^ 44" "N < 2 ^ 44" and len: "length (sblock x) = unat bs" and xN: "Suc x * unat bs \<le> N"
    using i x(1) P by (auto simp: dedup_input_def)
  have PS: "unat PageSize = 4096" by (simp add: PageSize_def)
  have kP: "Suc k * 4096 \<le> P * 4096" using k by (intro mult_le_mono1) simp
  have k44: "k * 4096 + 4096 < 2 ^ 44 + 1" using kP B by simp
  then have kw: "unat (word_of_nat k * PageSize) = k * 4096"
    using PS by (simp add: unat_word_ariths unat_word_of_nat_u64)
  then have kw1: "unat (word_of_nat k * PageSize + PageSize) = Suc k * 4096" using PS k44 by (subst unat_add_u64) simp_all
  have div: "g div P = x" "g mod P = k" using k by (simp_all add: g_def)
  show "go_slice (sblock x) (word_of_nat k * PageSize) (word_of_nat k * PageSize + PageSize) = Some (page_of P sblock g)"
    using kw kw1 k44 kP len B by (subst go_slice_nat) (simp_all add: page_of_def div blk_def)
  have "Suc g * 4096 \<le> Suc x * unat bs" using k B(1) by (simp add: g_def)
  then show gN: "Suc g * 4096 \<le> N" using xN by simp
  then show off: "unat off = g * 4096" unfolding off_def using kw x(2) B by (subst unat_add_u64) (simp_all add: g_def)
  have "unat (i64_div off PageSize) = g" using off PS gN B(3) by (subst i64_div_nonneg) simp_all
  then show "unat (ucast (i64_div off PageSize) :: u32) = g" using gN B(3) by (subst unat_ucast_u64_u32) simp_all
  show "page_mapping (bd_Header base) off \<noteq> None"
    using i off gN by (intro page_mapping_total [where N = N]) (auto simp: dedup_input_def split: option.splits)
  show "bd_Slice base off PageSize = Inr (bpage g)" using i off gN by (simp add: dedup_input_def PageSize_def)
qed

context roaring
begin

lemma dedup_pages_ok:
  assumes i: "dedup_input D bs N ctxErr src base sblock bpage" and x: "x \<in> D" "unat absOff = x * unat bs"
    and P: "P = unat bs div 4096" and "\<forall>k \<in> set ks. k < P"
    and "plan_inv mem (page_of P sblock) bpage Q plan" "parents_inv mem (page_of P sblock) Q pk"
  shows "\<exists>plan' pk'. fold_res (dedup_page R base be wb absOff (sblock x)) (map (\<lambda>k. word_of_nat k * PageSize) ks) (plan, pk) = Inr (plan', pk') \<and>
    plan_inv mem (page_of P sblock) bpage (Q \<union> (\<lambda>k. x * P + k) ` set ks) plan' \<and>
    parents_inv mem (page_of P sblock) (Q \<union> (\<lambda>k. x * P + k) ` set ks) pk'"
  using assms(5-)
proof (induction ks arbitrary: Q plan pk)
  case (Cons k ks)
  note f = page_facts [OF i x P, of k]
  obtain plan1 pk1 where s: "dedup_page R base be wb absOff (sblock x) (word_of_nat k * PageSize) (plan, pk) = Inr (plan1, pk1)"
    "plan_inv mem (page_of P sblock) bpage (insert (x * P + k) Q) plan1" "parents_inv mem (page_of P sblock) (insert (x * P + k) Q) pk1"
    using dedup_page_ok [OF Cons.prems(2,3) f(1) f(4) f(5) f(6), of be wb] Cons.prems(1) by auto
  from Cons.IH [OF _ s(2,3)] Cons.prems(1) s(1) show ?case by (simp add: insert_commute)
qed simp

lemma dedup_blocks_ok:
  assumes i: "dedup_input D bs N ctxErr src base sblock bpage" and P: "P = unat bs div 4096"
    and "\<forall>off \<in> set offs. \<exists>x \<in> D. unat off = x * unat bs"
    and "plan_inv mem (page_of P sblock) bpage Q plan" "parents_inv mem (page_of P sblock) Q pk"
  shows "\<exists>plan' pk'. fold_res (dedup_block R ctxErr src base be wb (map (\<lambda>k. word_of_nat k * PageSize) [0..<P])) offs (plan, pk) = Inr (plan', pk') \<and>
    plan_inv mem (page_of P sblock) bpage (Q \<union> {g. g div P * unat bs \<in> unat ` set offs}) plan' \<and>
    parents_inv mem (page_of P sblock) (Q \<union> {g. g div P * unat bs \<in> unat ` set offs}) pk'"
  using assms(3-)
proof (induction offs arbitrary: Q plan pk)
  case (Cons off offs)
  have B: "unat bs = P * 4096" "0 < P" using i P by (auto simp: dedup_input_def elim!: dvdE)
  obtain x where x: "x \<in> D" "unat off = x * unat bs" using Cons.prems(1) by auto
  have "ctxErr off = None" "src off = Inr (sblock x)" using i x by (auto simp: dedup_input_def)
  moreover have "(\<lambda>k. x * P + k) ` set [0..<P] = {g. g div P * unat bs = unat off}"
    unfolding block_pages [OF B(2)] using B x(2) by auto
  ultimately obtain plan1 pk1 where s:
    "dedup_block R ctxErr src base be wb (map (\<lambda>k. word_of_nat k * PageSize) [0..<P]) off (plan, pk) = Inr (plan1, pk1)"
    "plan_inv mem (page_of P sblock) bpage (Q \<union> {g. g div P * unat bs = unat off}) plan1"
    "parents_inv mem (page_of P sblock) (Q \<union> {g. g div P * unat bs = unat off}) pk1"
    using dedup_pages_ok [OF i x P, of "[0..<P]" Q plan pk be wb] Cons.prems(2,3) by (auto simp: dedup_block_def)
  have u: "Q \<union> {g. g div P * unat bs \<in> unat ` set (off # offs)} =
      Q \<union> {g. g div P * unat bs = unat off} \<union> {g. g div P * unat bs \<in> unat ` set offs}" by auto
  from Cons.IH [OF _ s(2,3)] Cons.prems(1) s(1) show ?case unfolding u by simp
qed simp

lemma promoteCheapFrames_ok:
  assumes "parents_inv mem spage Q pk" "plan_inv mem spage bpage Q plan"
  shows "plan_inv mem spage bpage Q (promoteCheapFrames R ext ppb budget pk plan)"
  using assms
proof (induction pk arbitrary: plan)
  case (Cons x pk)
  obtain k bm where x: "x = (k, bm)" by (cases x)
  have bm: "mem bm \<subseteq> {g \<in> Q. \<not> IsZero (spage g)}" and pk: "parents_inv mem spage Q pk"
    using Cons.prems(1) x by (auto simp: parents_inv_def)
  have "plan_inv mem spage bpage Q (plan\<lparr>pageDirty := bm_Or R (pageDirty plan) bm, promotedFrames := a, promotedFramePages := b\<rparr>)" for a b
    using bm Cons.prems(2) by (intro plan_inv_more [OF Cons.prems(2)]) (auto simp: Or plan_inv_def)
  then show ?case using Cons.IH [OF pk] Cons.prems(2) x by (simp add: Let_def)
qed simp

end

context roaring
begin

lemma store_current_mem:
  "mem (store_current R first pages b) =
     mem b \<union> {unat (first + word_of_nat p) | p. p < length pages \<and> kind (pages ! p) = dedupPageCurrent}"
proof -
  have "mem (fold (\<lambda>p b. if kind (pages ! p) = dedupPageCurrent then bm_Add R (first + word_of_nat p) b else b) ps b) =
      mem b \<union> {unat (first + word_of_nat p) | p. p \<in> set ps \<and> kind (pages ! p) = dedupPageCurrent}" for ps
    by (induction ps arbitrary: b) (auto simp: Add)
  then show ?thesis by (simp add: store_current_def)
qed

lemma compact_block_ok:
  assumes i: "dedup_input D bs N ctxErr src base sblock bpage" and x: "x \<in> D" "unat absOff = x * unat bs"
    and P: "P = unat bs div 4096" and Q: "{g. g div P = x} \<subseteq> Q"
    and inv: "plan_inv mem (page_of P sblock) bpage Q plan"
  shows "\<exists>plan' n'. (compact_block R ctxErr (bd_Header base) wb budget P absOff (plan, n) :: 'e dedup_error + _) = Inr (plan', n') \<and>
    plan_inv mem (page_of P sblock) bpage Q plan'"
proof -
  let ?first = "ucast (i64_div absOff PageSize) :: u32"
  let ?info = "page_info R plan (bd_Header base) wb absOff ?first"
  have B: "unat bs = P * 4096" "0 < P" "unat bs < 2 ^ 44" "N < 2 ^ 44" and ctx: "ctxErr absOff = None"
    using i P by (auto simp: dedup_input_def elim!: dvdE)
  note f = page_facts [OF i x P]
  have first: "unat ?first = x * P" using f(4) [OF B(2)] by simp
  have idx: "unat (?first + word_of_nat p) = x * P + p" if "p < P" for p
  proof -
    have "Suc (x * P + p) * 4096 \<le> N" by (rule f(3) [OF that])
    then have lt: "x * P + p < 2 ^ 32" using B(4) by simp
    then have "unat (word_of_nat p :: u32) = p" by (simp add: unat_of_nat take_bit_nat_eq_self)
    then show ?thesis using first lt by (simp add: unat_word_ariths)
  qed
  have in_Q: "x * P + p \<in> Q" if "p < P" for p using Q that by auto
  have "\<exists>y. ?info p = Some y" if "p < P" for p
    using f(5) [OF that] by (auto simp: page_info_def Let_def)
  then obtain g where g: "\<And>p. p < P \<Longrightarrow> ?info p = Some (g p)" by metis
  have pages: "List.those (map ?info [0..<P]) = Some (map g [0..<P])" using g by (intro those_Some) simp
  obtain pages' promoted where c: "compact \<lparr>windowPages = nat (sint (FetchRunWindowPages budget)), currentStart = n\<rparr>
      (map g [0..<P]) (sint (MaxFetchWindowsPerBlock budget)) (sint (MaxPromotedParentPagesPerBlock budget)) = (pages', promoted)"
    by fastforce
  note ck = compact_kinds [OF c]
  let ?plan1 = "if promoted > 0 then plan\<lparr>promotedBlocks := promotedBlocks plan + 1, promotedPages := promotedPages plan + promoted\<rparr> else plan"
  let ?plan2 = "?plan1\<lparr>pageDirty := store_current R ?first pages' (pageDirty ?plan1)\<rparr>"
  have "compact_block R ctxErr (bd_Header base) wb budget P absOff (plan, n) = Inr (?plan2, n + current_count pages')"
    using ctx pages c by (simp add: compact_block_def Let_def)
  moreover have "plan_inv mem (page_of P sblock) bpage Q ?plan2"
  proof (rule plan_inv_more [OF inv])
    have new: "x * P + p \<in> {g \<in> Q. \<not> IsZero (page_of P sblock g)}" if p: "p < P" "kind (pages' ! p) = dedupPageCurrent" for p
    proof -
      have ne: "kind (g p) \<noteq> dedupPageEmpty" using ck(2) [of p] p by auto
      have "x * P + p \<in> mem (pageDirty plan) \<or> x * P + p \<notin> mem (pageEmpty plan)"
      proof (rule ccontr)
        assume "\<not> ?thesis"
        then have "map_option kind (?info p) = Some dedupPageEmpty" using idx [OF p(1)] by (simp add: page_info_def Let_def Contains)
        then show False using g [OF p(1)] ne by simp
      qed
      then show ?thesis using inv in_Q [OF p(1)] by (auto simp: plan_inv_def)
    qed
    have "mem (pageDirty plan) \<subseteq> {g \<in> Q. \<not> IsZero (page_of P sblock g)}" using inv by (simp add: plan_inv_def)
    moreover have "{unat (?first + word_of_nat p) | p. p < length pages' \<and> kind (pages' ! p) = dedupPageCurrent}
        \<subseteq> {g \<in> Q. \<not> IsZero (page_of P sblock g)}"
      using new idx ck(1) by fastforce
    ultimately show "mem (pageDirty ?plan2) \<subseteq> {g \<in> Q. \<not> IsZero (page_of P sblock g)}"
      by (simp add: store_current_mem)
  qed (simp_all add: store_current_mem)
  ultimately show ?thesis by blast
qed

lemma compactBlockWindows_ok:
  assumes i: "dedup_input D bs N ctxErr src base sblock bpage" and P: "P = unat bs div 4096"
    and offs: "\<forall>off \<in> set offs. \<exists>x \<in> D. unat off = x * unat bs" and Q: "{g. g div P \<in> D} \<subseteq> Q"
    and inv: "plan_inv mem (page_of P sblock) bpage Q plan"
  shows "\<exists>plan'. (compactBlockWindows R ctxErr plan (bd_Header base) offs bs wb budget :: 'e dedup_error + _) = Inr plan' \<and>
    plan_inv mem (page_of P sblock) bpage Q plan'"
proof -
  have fold: "\<exists>plan' n'. (fold_res (compact_block R ctxErr (bd_Header base) wb budget P) offs (plan, n) :: 'e dedup_error + _) = Inr (plan', n') \<and>
      plan_inv mem (page_of P sblock) bpage Q plan'" for n
    using offs inv
  proof (induction offs arbitrary: plan n)
    case (Cons off offs)
    obtain x where x: "x \<in> D" "unat off = x * unat bs" using Cons.prems(1) by auto
    have "{g. g div P = x} \<subseteq> Q" using Q x(1) by auto
    then obtain plan1 n1 where "(compact_block R ctxErr (bd_Header base) wb budget P off (plan, n) :: 'e dedup_error + _) = Inr (plan1, n1)"
      "plan_inv mem (page_of P sblock) bpage Q plan1"
      using compact_block_ok [OF i x P _ Cons.prems(2)] by blast
    then show ?case using Cons.IH [of plan1 n1] Cons.prems(1) by simp
  qed simp
  have "sint (i64_div bs PageSize) = int P"
    using i P by (simp add: dedup_input_def sint_small_u64 i64_div_nonneg PageSize_def order.strict_trans1 [OF div_le_dividend])
  then show ?thesis using fold [of 0] inv by (auto simp: compactBlockWindows_def)
qed

end

section \<open>The restored image\<close>

text \<open>What a restore shows of a page of a dirty block: the stored page, zeros, or the parent's page.\<close>

definition restored_page :: "('bm \<Rightarrow> nat set) \<Rightarrow> 'bm dedupPlan \<Rightarrow> (nat \<Rightarrow> byte list) \<Rightarrow> (nat \<Rightarrow> byte list) \<Rightarrow> nat \<Rightarrow> byte list" where
  "restored_page mem plan spage bpage g =
     (if g \<in> mem (pageDirty plan) then spage g
      else if g \<in> mem (pageEmpty plan) then replicate 4096 0
      else bpage g)"

lemma restored_ok:
  assumes "plan_inv mem spage bpage Q plan" "g \<in> Q" "length (spage g) = 4096"
  shows "restored_page mem plan spage bpage g = spage g"
  using assms by (auto simp: plan_inv_def restored_page_def IsZero_iff)

lemma length_page_of:
  assumes "length (sblock (g div P)) = P * 4096" "0 < P"
  shows "length (page_of P sblock g) = 4096"
proof -
  have "Suc (g mod P) * 4096 \<le> P * 4096" using assms(2) by (intro mult_le_mono1) (simp add: Suc_leI)
  then show ?thesis unfolding page_of_def by (intro length_blk) (simp add: assms(1))
qed

lemma window_bytes_ok:
  fixes budget :: DedupBudget
  assumes "sint (FetchRunWindowPages budget) < 2 ^ 31"
  defines "budget' \<equiv> (if sint (FetchRunWindowPages budget) \<le> 0
    then budget\<lparr>FetchRunWindowPages := i64_div DefaultCompressFrameSize PageSize\<rparr> else budget)"
  shows "0 < unat (FetchRunWindowPages budget' * PageSize)" "unat (FetchRunWindowPages budget' * PageSize) < 2 ^ 44"
proof -
  have "0 < unat (FetchRunWindowPages budget') \<and> unat (FetchRunWindowPages budget') < 2 ^ 31"
  proof (cases "sint (FetchRunWindowPages budget) \<le> 0")
    case True
    then show ?thesis by (simp add: budget'_def i64_div_nonneg DefaultCompressFrameSize_def PageSize_def)
  next
    case False
    then have "unat (FetchRunWindowPages budget) < 2 ^ 63" using sint_neg_u64 [of "FetchRunWindowPages budget"] by linarith
    then show ?thesis using False assms(1) by (simp add: budget'_def sint_small_u64 unat_gt_0)
  qed
  then have "unat (FetchRunWindowPages budget' * PageSize) = unat (FetchRunWindowPages budget') * 4096"
    by (simp add: unat_word_ariths PageSize_def)
  then show "0 < unat (FetchRunWindowPages budget' * PageSize)" "unat (FetchRunWindowPages budget' * PageSize) < 2 ^ 44"
    using \<open>0 < _ \<and> _\<close> by simp_all
qed

context roaring
begin

lemma dedupCompare_ok:
  fixes src :: "i64 \<Rightarrow> 'x + byte list"
  assumes i: "dedup_input (mem dirty) bs N (\<lambda>_. None) src base sblock bpage"
    and w: "sint (FetchRunWindowPages budget) < 2 ^ 31" and P: "P = unat bs div 4096"
  shows "\<exists>plan. dedupCompare R (\<lambda>_. None) (\<lambda>_. None) src base dirty bs be budget = Some (Inr plan) \<and>
    plan_inv mem (page_of P sblock) bpage {g. g div P \<in> mem dirty} plan"
proof -
  let ?D = "mem dirty" and ?rs = "BitsetRanges R dirty bs"
  let ?b = "if sint (FetchRunWindowPages budget) \<le> 0
    then budget\<lparr>FetchRunWindowPages := i64_div DefaultCompressFrameSize PageSize\<rparr> else budget"
  let ?wb = "FetchRunWindowPages ?b * PageSize"
  let ?plan0 = "\<lparr>pageDirty = bm_New R, pageEmpty = bm_New R, exportedSize = GetSize ?rs, promotedBlocks = 0,
    promotedPages = 0, parentFrames = 0, promotedFrames = 0, promotedFramePages = 0\<rparr>"
  have B: "unat bs = P * 4096" "0 < P" "0 < unat bs" "unat bs < 2 ^ 44" "N < 2 ^ 44"
    using i P by (auto simp: dedup_input_def elim!: dvdE)
  have runs: "ascending 0 (bm_Ranges R dirty)" "in_ranges (bm_Ranges R dirty) x \<longleftrightarrow> x \<in> ?D" for x
    using Ranges [of dirty] by (auto simp: is_runs_def)
  obtain offs where offs: "range_offsets bs ?rs = Some offs" "unat ` set offs = (\<lambda>x. x * unat bs) ` ?D"
    using range_offsets_ok [OF B(3-5) runs(1)] i runs(2) unfolding BitsetRanges_def by (auto simp: dedup_input_def)
  then have offs_D: "\<forall>off \<in> set offs. \<exists>x \<in> ?D. unat off = x * unat bs" by blast
  have Q: "{g. g div P * unat bs \<in> unat ` set offs} = {g. g div P \<in> ?D}" using offs(2) B(3) by auto
  have steps: "i64_steps 0 bs PageSize = Some (map (\<lambda>k. word_of_nat k * PageSize) [0..<P])"
    using i64_steps_ok [of PageSize 4096 bs 0 P] B(1,4) by (simp add: PageSize_def)
  obtain plan1 pk where first:
    "fold_res (dedup_block R (\<lambda>_. None) src base be ?wb (map (\<lambda>k. word_of_nat k * PageSize) [0..<P])) offs (?plan0, []) = Inr (plan1, pk)"
    "plan_inv mem (page_of P sblock) bpage {g. g div P \<in> ?D} plan1" "parents_inv mem (page_of P sblock) {g. g div P \<in> ?D} pk"
    using dedup_blocks_ok [OF i P offs_D, of "{}" ?plan0 "[]" be ?wb] Q
    by (auto simp: plan_inv_def parents_inv_def New)
  let ?plan1 = "plan1\<lparr>parentFrames := length pk\<rparr>"
  have inv1: "plan_inv mem (page_of P sblock) bpage {g. g div P \<in> ?D} ?plan1"
    by (rule plan_inv_more [OF first(2)]) (use first(2) in \<open>auto simp: plan_inv_def\<close>)
  have "case bd_Header base of None \<Rightarrow> True | Some h \<Rightarrow> header_inv h" using i by (auto simp: dedup_input_def split: option.splits)
  then obtain ext where ext: "(countExternalBlocks R pk (bd_Header base) dirty bs ?wb :: ('x dedup_error + _) option) = Some (Inr ext)"
    using countExternalBlocks_ends [where 'e = 'x and R = R and cands = pk and dirty = dirty, OF _ B(3,4) window_bytes_ok [OF w]] by blast
  let ?plan2 = "promoteCheapFrames R ext (nat (sint (i64_div bs PageSize))) ?b pk ?plan1"
  define plan2 where "plan2 = (if sint (MaxPagesPerPromotedFrame ?b) > 0 then ?plan2 else ?plan1)"
  have inv2: "plan_inv mem (page_of P sblock) bpage {g. g div P \<in> ?D} plan2"
    unfolding plan2_def using inv1 promoteCheapFrames_ok [OF first(3) inv1] by (rule if_split [THEN iffD2, OF conjI, OF impI impI, rotated])
  obtain plan3 where plan3: "(compactBlockWindows R (\<lambda>_. None) plan2 (bd_Header base) offs bs ?wb ?b :: 'x dedup_error + _) = Inr plan3"
    "plan_inv mem (page_of P sblock) bpage {g. g div P \<in> ?D} plan3"
    using compactBlockWindows_ok [OF i P offs_D subset_refl inv2] by blast
  have "dedupCompare R (\<lambda>_. None) (\<lambda>_. None) src base dirty bs be budget = Some (Inr plan3)"
    using offs(1) steps first(1) ext plan3(1) unfolding dedupCompare_def Let_def plan2_def by (simp split: if_split_asm)
  then show ?thesis using plan3(2) by blast
qed

end

section \<open>Properties of the deduplication\<close>

text \<open>
  C8. Deduplication never changes the restored image: on a readable parent and a source for every
  dirty block the comparison returns a plan, whatever the budget, that touches only pages of dirty blocks, and restoring each of
  their pages from it (the stored page, zeros, or the parent's page) gives the snapshot's page.
\<close>

theorem dedup_preserves_image:
  assumes "roaring R mem" and "dedup_input (mem dirty) bs N (\<lambda>_. None) src base sblock bpage"
    and "sint (FetchRunWindowPages budget) < 2 ^ 31" and "P = unat bs div 4096"
  shows "\<exists>plan. dedupCompare R (\<lambda>_. None) (\<lambda>_. None) src base dirty bs bestEffort budget = Some (Inr plan) \<and>
    mem (pageDirty plan) \<union> mem (pageEmpty plan) \<subseteq> {g. g div P \<in> mem dirty} \<and>
    (\<forall>g. g div P \<in> mem dirty \<longrightarrow>
       restored_page mem plan (page_of P sblock) bpage g = page_of P sblock g)"
proof -
  obtain plan where plan: "dedupCompare R (\<lambda>_. None) (\<lambda>_. None) src base dirty bs bestEffort budget = Some (Inr plan)"
    "plan_inv mem (page_of P sblock) bpage {g. g div P \<in> mem dirty} plan"
    using roaring.dedupCompare_ok [OF assms] by blast
  have "length (page_of P sblock g) = 4096" if "g div P \<in> mem dirty" for g
    using assms(2,4) that by (intro length_page_of) (auto simp: dedup_input_def elim!: dvdE)
  then show ?thesis using plan restored_ok [OF plan(2)] by (auto simp: plan_inv_def)
qed

definition sample_base :: "unit base_device" where
  "sample_base = \<lparr>bd_Header = None, bd_IsCached = None, bd_Slice = (\<lambda>_ _. Inr (replicate 4096 7))\<rparr>"

definition sample_budget :: DedupBudget where
  "sample_budget = \<lparr>MaxFetchWindowsPerBlock = 1, MaxPromotedParentPagesPerBlock = 8, MaxPagesPerPromotedFrame = 4,
     BlockFaultPct = 50, FetchRunWindowPages = 0\<rparr>"

theorem dedup_preserves_image_witness:
  "\<exists>plan. dedupCompare set_roaring (\<lambda>_. None) (\<lambda>_. None) (\<lambda>_. Inr (replicate 4096 7)) sample_base {0} 4096 False sample_budget
      = Some (Inr plan) \<and>
    restored_page (\<lambda>b. unat ` b) plan (page_of 1 (\<lambda>_. replicate 4096 7)) (\<lambda>_. replicate 4096 7) 0 = page_of 1 (\<lambda>_. replicate 4096 7) 0"
proof -
  have i: "dedup_input (unat ` {0 :: u32}) 4096 4096 (\<lambda>_. None) (\<lambda>_. Inr (replicate 4096 7)) sample_base (\<lambda>_. replicate 4096 7) (\<lambda>_. replicate 4096 7)"
    by (simp add: dedup_input_def sample_base_def)
  have "sint (FetchRunWindowPages sample_budget) < 2 ^ 31" "(1 :: nat) = unat (4096 :: i64) div 4096" by (simp_all add: sample_budget_def)
  from dedup_preserves_image [OF sets.roaring_axioms i this, of False] show ?thesis by auto
qed

text \<open>
  C18. The walks over the parent's header end: the end of a fetch window lies always past the offset it
  is computed for, and on every header that satisfies the invariant the count of references
  outside the diff returns, whatever frame tables the builds have.
\<close>

theorem external_walks_end:
  assumes "header_inv h" and "0 < unat blkSize" "unat blkSize < 2 ^ 44" and "0 < unat windowBytes" "unat windowBytes < 2 ^ 44"
    and "unat off < 2 ^ 44"
  shows "sint off < sint (snd (fetchKeyAndEnd ft buildID off windowBytes)) \<and>
    (\<exists>counts. (countExternalBlocks R candidates (Some h) dirty blkSize windowBytes :: ('e dedup_error + _) option) = Some (Inr counts))"
  using fetch_end_past [OF assms(6,4,5)] countExternalBlocks_ends [where h = "Some h", OF _ assms(2-5)] assms(1) by simp

theorem external_walks_end_witness:
  "\<exists>counts. (countExternalBlocks set_roaring [(\<lparr>fk_buildID = 7, fk_window = 0\<rparr>, {})] (Some sample_header) {0} 4096 8192
      :: (unit dedup_error + _) option) = Some (Inr counts)"
  using external_walks_end [where 'e = unit and R = set_roaring and dirty = "{0}" and candidates = "[(\<lparr>fk_buildID = 7, fk_window = 0\<rparr>, {})]"
      and off = 0 and ft = None and buildID = 7 and blkSize = 4096 and windowBytes = 8192, OF sample_header_inv(1)]
  by simp

end
