(* ===== verification/Cache_Export.thy ===== *)
theory Cache_Export
  imports Block_Cache
begin

text \<open>
  The export of a block cache to a diff file (\<open>ExportToDiff\<close> of
  \<open>packages/orchestrator/pkg/sandbox/block/cache.go\<close>): the dirty ranges are copied with
  \<open>copy_file_range\<close>, which may copy less than asked for or be unsupported, and then with ordinary reads and writes.
  The end joins it to \<open>ToDiffHeader\<close>: a snapshot of a cache reads back the cache over its parent.
\<close>

section \<open>The copy loop\<close>

text \<open>An answer of \<open>unix.CopyFileRange\<close>: one of the three errors that mean it is not supported, another error, or the
  number of bytes copied. The answer of the kernel to its \<open>k\<close>-th call, for a given
  length, is a parameter.\<close>

datatype cfr_result = CfrUnsupported | CfrError string | CfrCopied i64

record export_sys =
  x_openErr :: "string option"
  x_cfr :: "nat \<Rightarrow> i64 \<Rightarrow> cfr_result"
  x_seekErr :: "string option"
  x_copyErr :: "string option"

text \<open>Writing at an offset of a file, past its end with zeros in between.\<close>

definition pwrite :: "byte list \<Rightarrow> nat \<Rightarrow> byte list \<Rightarrow> byte list" where
  "pwrite f off b = take off (f @ replicate (off - length f) 0) @ b @ drop (off + length b) f"

record copy_state =
  cs_fallback :: bool
  cs_calls :: nat
  cs_writeOffset :: i64
  cs_out :: "byte list"

definition file_section :: "byte list \<Rightarrow> i64 \<Rightarrow> i64 \<Rightarrow> byte list" where
  "file_section f off n = take (nat (sint n)) (drop (nat (sint off)) f)"

definition advance :: "byte list \<Rightarrow> i64 \<Rightarrow> i64 \<Rightarrow> copy_state \<Rightarrow> copy_state" where
  "advance f readOffset n st =
     st\<lparr>cs_writeOffset := cs_writeOffset st + n,
        cs_out := pwrite (cs_out st) (nat (sint (cs_writeOffset st))) (file_section f readOffset n)\<rparr>"

text \<open>The normal copy: seek, then \<open>io.Copy\<close> from a section of the file.\<close>

definition normal_copy :: "export_sys \<Rightarrow> byte list \<Rightarrow> i64 \<Rightarrow> i64 \<Rightarrow> copy_state \<Rightarrow> cache_error + copy_state" where
  "normal_copy sys f readOffset remaining st =
     (case x_seekErr sys of Some e \<Rightarrow> Inl (OsError e) | None \<Rightarrow>
       (case x_copyErr sys of Some e \<Rightarrow> Inl (OsError e) | None \<Rightarrow> Inr (advance f readOffset remaining st)))"

text \<open>The inner loop; \<open>None\<close> if the kernel's answers never let it end.\<close>

partial_function (option) copy_range ::
  "export_sys \<Rightarrow> byte list \<Rightarrow> i64 \<Rightarrow> i64 \<Rightarrow> copy_state \<Rightarrow> (cache_error + copy_state) option" where
  "copy_range sys f readOffset remaining st =
     (if sint remaining > 0 then
        if cs_fallback st then Some (normal_copy sys f readOffset remaining st)
        else case x_cfr sys (cs_calls st) remaining of
            CfrUnsupported \<Rightarrow>
              Some (normal_copy sys f readOffset remaining (st\<lparr>cs_fallback := True, cs_calls := cs_calls st + 1\<rparr>))
          | CfrError e \<Rightarrow> Some (Inl (OsError e))
          | CfrCopied n \<Rightarrow>
              if n = 0 then Some (Inl (OsError ''copy_file_range returned 0''))
              else copy_range sys f (readOffset + n) (remaining - n) (advance f readOffset n (st\<lparr>cs_calls := cs_calls st + 1\<rparr>))
      else Some (Inr st))"

fun copy_ranges :: "export_sys \<Rightarrow> byte list \<Rightarrow> (i64 \<times> i64) list \<Rightarrow> copy_state \<Rightarrow> (cache_error + copy_state) option" where
  "copy_ranges sys f [] st = Some (Inr st)"
| "copy_ranges sys f ((start, sz) # rs) st =
     (case copy_range sys f start sz st of
        None \<Rightarrow> None
      | Some (Inl e) \<Rightarrow> Some (Inl e)
      | Some (Inr st') \<Rightarrow> copy_ranges sys f rs st')"

text \<open>\<open>os.Open\<close> of the cache file gives the bytes of its shared mapping; a failing \<open>SyncFileRange\<close> is only logged.\<close>

definition exportToDiffLocked ::
  "'bm roaring_ops \<Rightarrow> export_sys \<Rightarrow> 'bm Cache \<Rightarrow> byte list \<Rightarrow> 'bm DiffMetadata option \<Rightarrow>
   (cache_error + 'bm DiffMetadata \<times> byte list) option" where
  "exportToDiffLocked R sys c out meta =
     (if isClosed c then Some (Inl (CacheClosedError (c_filePath c)))
      else case c_mmap c of
          None \<Rightarrow>
            Some (Inr (case meta of Some m \<Rightarrow> m | None \<Rightarrow> NewDiffMetadata (bm_New R) (c_blockSize c) None None, out))
        | Some f \<Rightarrow>
            (case x_openErr sys of Some e \<Rightarrow> Some (Inl (OsError e)) | None \<Rightarrow>
               let diffMetadata = (case meta of Some m \<Rightarrow> m | None \<Rightarrow>
                     let (dirty, emptied) = Export R (c_tracker c)
                     in NewDiffMetadata (bm_New R) (c_blockSize c) (Some dirty) (Some emptied));
                   st = \<lparr>cs_fallback = False, cs_calls = 0, cs_writeOffset = 0, cs_out = out\<rparr>
               in map_option (map_sum id (\<lambda>st. (diffMetadata, cs_out st)))
                    (copy_ranges sys f (BitsetRanges R (dm_Dirty diffMetadata) (dm_BlockSize diffMetadata)) st)))"

definition ExportToDiff ::
  "'bm roaring_ops \<Rightarrow> export_sys \<Rightarrow> 'bm Cache \<Rightarrow> byte list \<Rightarrow> (cache_error + 'bm DiffMetadata \<times> byte list) option" where
  "ExportToDiff R sys c out = exportToDiffLocked R sys c out None"

definition ExportToDiffWithMetadata ::
  "'bm roaring_ops \<Rightarrow> export_sys \<Rightarrow> 'bm Cache \<Rightarrow> byte list \<Rightarrow> 'bm DiffMetadata \<Rightarrow>
   (cache_error + 'bm DiffMetadata \<times> byte list) option" where
  "ExportToDiffWithMetadata R sys c out meta = exportToDiffLocked R sys c out (Some meta)"

section \<open>What is copied\<close>

text \<open>A kernel that makes progress: every call is unsupported or copies some, and never more than asked for, and the
  normal copy does not fail.\<close>

definition kernel_ok :: "export_sys \<Rightarrow> bool" where
  "kernel_ok sys \<longleftrightarrow> x_openErr sys = None \<and> x_seekErr sys = None \<and> x_copyErr sys = None \<and>
     (\<forall>k len. case x_cfr sys k len of CfrUnsupported \<Rightarrow> True | CfrError _ \<Rightarrow> False | CfrCopied n \<Rightarrow> n \<noteq> 0 \<and> unat n \<le> unat len)"

lemma kernel_answer:
  assumes "kernel_ok sys"
  shows "case x_cfr sys k len of CfrUnsupported \<Rightarrow> True | CfrError _ \<Rightarrow> False | CfrCopied n \<Rightarrow> n \<noteq> 0 \<and> unat n \<le> unat len"
  using assms unfolding kernel_ok_def by blast

definition at_end :: "copy_state \<Rightarrow> bool" where
  "at_end st \<longleftrightarrow> unat (cs_writeOffset st) = length (cs_out st)"

lemma advance_ok:
  assumes "at_end st" "length (cs_out st) + unat n < 2 ^ 62" "unat r + unat n \<le> length f" "length f < 2 ^ 62"
  shows "cs_out (advance f r n st) = cs_out st @ take (unat n) (drop (unat r) f)" "at_end (advance f r n st)"
proof -
  have s: "sint n = int (unat n)" "sint r = int (unat r)" "sint (cs_writeOffset st) = int (unat (cs_writeOffset st))"
    using assms by (simp_all add: sint_small_u64 at_end_def)
  have "unat (cs_writeOffset st + n) = unat (cs_writeOffset st) + unat n"
    using assms by (subst unat_add_u64) (auto simp: at_end_def)
  then show "cs_out (advance f r n st) = cs_out st @ take (unat n) (drop (unat r) f)" "at_end (advance f r n st)"
    using assms s by (simp_all add: advance_def file_section_def pwrite_def at_end_def)
qed

lemma copy_range_ok:
  assumes sys: "kernel_ok sys" and f: "length f < 2 ^ 62"
    and "at_end st" "length (cs_out st) + unat m < 2 ^ 62" "unat r + unat m \<le> length f"
  shows "\<exists>st'. copy_range sys f r m st = Some (Inr st') \<and> at_end st' \<and>
    cs_out st' = cs_out st @ take (unat m) (drop (unat r) f)"
  using assms(3-)
proof (induction "unat m" arbitrary: m r st rule: less_induct)
  case less
  have m63: "unat m < 2 ^ 63" using less.prems(2) by simp
  show ?case
  proof (cases "m = 0")
    case False
    then have pos: "0 < sint m" using m63 by (simp add: sint_small_u64 unat_gt_0)
    have normal: "normal_copy sys f r m st' = Inr (advance f r m st')" for st'
      using sys by (simp add: normal_copy_def kernel_ok_def)
    show ?thesis
    proof (cases "cs_fallback st")
      case True
      then show ?thesis using pos normal advance_ok [OF less.prems f] by (simp add: copy_range.simps)
    next
      case nf: False
      let ?st = "st\<lparr>cs_calls := cs_calls st + 1\<rparr>"
      show ?thesis
      proof (cases "x_cfr sys (cs_calls st) m")
        case CfrUnsupported
        let ?fb = "st\<lparr>cs_fallback := True, cs_calls := cs_calls st + 1\<rparr>"
        have "at_end ?fb" "length (cs_out ?fb) + unat m < 2 ^ 62" using less.prems by (simp_all add: at_end_def)
        from advance_ok [OF this less.prems(3) f] show ?thesis
          using CfrUnsupported pos nf normal by (simp add: copy_range.simps)
      next
        case (CfrError e)
        then show ?thesis using kernel_answer [OF sys, where k = "cs_calls st" and len = m] by simp
      next
        case (CfrCopied n)
        then have n: "n \<noteq> 0" "unat n \<le> unat m" using kernel_answer [OF sys, where k = "cs_calls st" and len = m] by simp_all
        have st: "at_end ?st" "length (cs_out ?st) + unat n < 2 ^ 62" using less.prems n by (simp_all add: at_end_def)
        have rn: "unat r + unat n \<le> length f" using less.prems(3) n(2) by simp
        note a = advance_ok [OF st rn f]
        have mn: "unat (m - n) = unat m - unat n" using n(2) by (simp add: unat_sub word_le_nat_alt)
        have rn': "unat (r + n) = unat r + unat n" using rn f by (subst unat_add_u64) simp_all
        have "\<exists>st'. copy_range sys f (r + n) (m - n) (advance f r n ?st) = Some (Inr st') \<and> at_end st' \<and>
            cs_out st' = cs_out (advance f r n ?st) @ take (unat (m - n)) (drop (unat (r + n)) f)"
        proof (rule less.hyps)
          have "0 < unat n" using n(1) by (simp add: unat_gt_0)
          then show "unat (m - n) < unat m" using n(2) mn by linarith
          show "length (cs_out (advance f r n ?st)) + unat (m - n) < 2 ^ 62"
            using a(1) mn n(2) rn less.prems(2) by simp
        qed (use a mn rn' n(2) less.prems(3) in simp_all)
        moreover have "take (unat n) (drop (unat r) f) @ take (unat (m - n)) (drop (unat (r + n)) f) = take (unat m) (drop (unat r) f)"
          using take_add [of "unat n" "unat m - unat n" "drop (unat r) f"] n(2) unfolding mn rn' by (simp add: add.commute)
        ultimately show ?thesis
          using CfrCopied pos nf n(1) a(1) by (subst copy_range.simps) auto
      qed
    qed
  qed (use less.prems in \<open>simp add: copy_range.simps\<close>)
qed

text \<open>The blocks of a sequence of runs, and their bytes.\<close>

definition run_blocks :: "ranges \<Rightarrow> nat list" where
  "run_blocks rs = concat (map (\<lambda>(s, e). [unat s..<unat e]) rs)"

lemma concat_blks:
  assumes "e * B \<le> length f" "s \<le> e"
  shows "concat (map (blk f B) [s..<e]) = take ((e - s) * B) (drop (s * B) f)"
  using assms
proof (induction "e - s" arbitrary: s)
  case (Suc d)
  then have es: "e - s = Suc (e - Suc s)" "s < e" by simp_all
  have "concat (map (blk f B) [Suc s..<e]) = take ((e - Suc s) * B) (drop (Suc s * B) f)"
    using Suc es by (intro Suc.hyps(1)) simp_all
  moreover have "take ((e - s) * B) (drop (s * B) f) = take B (drop (s * B) f) @ take ((e - Suc s) * B) (drop (Suc s * B) f)"
    unfolding es(1) by (simp add: take_add add.commute)
  ultimately show ?case using es(2) by (simp add: upt_conv_Cons blk_def)
qed simp

lemma run_blocks_filter:
  assumes "ascending 0 rs" "\<And>b. in_ranges rs b \<Longrightarrow> b < n"
  shows "run_blocks rs = filter (in_ranges rs) [0..<n]"
proof (rule sorted_distinct_set_unique)
  have "sorted_wrt (<) (run_blocks rs) \<and> (\<forall>b \<in> set (run_blocks rs). k \<le> b)" if "ascending k rs" for k
    using that
  proof (induction rs arbitrary: k)
    case (Cons r rs)
    obtain s e where r: "r = (s, e)" by (cases r)
    then show ?case using Cons.IH [of "unat e"] Cons.prems by (fastforce simp: run_blocks_def sorted_wrt_append)
  qed (simp add: run_blocks_def)
  then have "sorted_wrt (<) (run_blocks rs)" using assms(1) by blast
  then show "sorted (run_blocks rs)" "distinct (run_blocks rs)" by (simp_all add: strict_sorted_iff)
  have "set (run_blocks rs) = {b. in_ranges rs b}" by (auto simp: run_blocks_def in_ranges_def)
  then show "set (run_blocks rs) = set (filter (in_ranges rs) [0..<n])" using assms(2) by auto
qed (simp_all add: sorted_wrt_filter)

lemma copy_ranges_ok:
  assumes sys: "kernel_ok sys" and f: "length f < 2 ^ 44"
    and "ascending k rs" "\<And>b. in_ranges rs b \<Longrightarrow> Suc b * unat bs \<le> length f" "at_end st"
      "length (cs_out st) \<le> k * unat bs"
  shows "\<exists>st'. copy_ranges sys f (map (\<lambda>(s, e). (BlockOffset (ucast s) bs, BlockOffset (e - ucast s) bs)) rs) st = Some (Inr st') \<and>
    cs_out st' = cs_out st @ concat (map (blk f (unat bs)) (run_blocks rs))"
  using assms(3-)
proof (induction rs arbitrary: k st)
  case (Cons r rs)
  obtain s e where r: "r = (s, e)" by (cases r)
  let ?B = "unat bs" and ?r = "BlockOffset (ucast s) bs" and ?m = "BlockOffset (e - ucast s) bs"
  have se: "k \<le> unat s" "unat s < unat e" "ascending (unat e) rs" using Cons.prems(1) r by auto
  have "in_ranges (r # rs) (unat e - 1)" using se(2) r by auto
  then have "Suc (unat e - 1) * ?B \<le> length f" by (rule Cons.prems(2))
  then have eB: "unat e * ?B \<le> length f" using se(2) by simp
  then have "unat e * ?B < 2 ^ 44" using f by linarith
  note run = run_offsets [OF se(2) this]
  have sum: "unat s * ?B + (unat e - unat s) * ?B = unat e * ?B" using se(2) by (simp flip: add_mult_distrib)
  have "length (cs_out st) \<le> unat s * ?B" using Cons.prems(4) mult_le_mono1 [OF se(1), of ?B] by linarith
  then have lim: "length (cs_out st) + unat ?m \<le> unat e * ?B" using run(2) sum by linarith
  have small: "length f < 2 ^ 62" "length (cs_out st) + unat ?m < 2 ^ 62" using f lim eB by simp_all
  obtain st1 where st1: "copy_range sys f ?r ?m st = Some (Inr st1)" "at_end st1"
    "cs_out st1 = cs_out st @ take (unat ?m) (drop (unat ?r) f)"
    using copy_range_ok [OF sys small(1) Cons.prems(3) small(2), of ?r] run sum eB by auto
  then have out: "cs_out st1 = cs_out st @ concat (map (blk f ?B) [unat s..<unat e])"
    using concat_blks [OF eB] se(2) run by simp
  have "length (cs_out st1) \<le> unat e * ?B" using st1(3) lim by simp
  then obtain st' where "copy_ranges sys f (map (\<lambda>(s, e). (BlockOffset (ucast s) bs, BlockOffset (e - ucast s) bs)) rs) st1 = Some (Inr st')"
    "cs_out st' = cs_out st1 @ concat (map (blk f ?B) (run_blocks rs))"
    using Cons.IH [OF se(3) _ st1(2)] Cons.prems(2) r by auto
  then show ?case using st1(1) out r by (simp add: run_blocks_def)
qed (simp add: run_blocks_def)

section \<open>The export of a cache\<close>

definition dirty_blocks :: "'bm roaring_ops \<Rightarrow> 'bm Cache \<Rightarrow> nat \<Rightarrow> bool" where
  "dirty_blocks R c k \<longleftrightarrow> k < blocks_of c \<and> stateOf R (c_tracker c) (word_of_nat k) = Dirty"

definition zero_blocks :: "'bm roaring_ops \<Rightarrow> 'bm Cache \<Rightarrow> nat \<Rightarrow> bool" where
  "zero_blocks R c k \<longleftrightarrow> k < blocks_of c \<and> stateOf R (c_tracker c) (word_of_nat k) = Zero"

lemma packed_length:
  assumes inv: "cache_inv R mem c"
    and own: "own = concat (map (blk (mapped_bytes c) (bs_of c)) (filter (dirty_blocks R c) [0..<blocks_of c]))"
  shows "length own = card {k. dirty_blocks R c k} * bs_of c"
proof -
  have sz: "sized c" and len: "length (mapped_bytes c) = unat (c_size c)" using inv by (auto simp: cache_inv_def)
  have "length (blk (mapped_bytes c) (bs_of c) b) = bs_of c" if "b < blocks_of c" for b
    using mult_le_mono1 [OF Suc_leI [OF that], of "bs_of c"] sized_blocks(1) [OF sz] len by (intro length_blk) simp
  then have "length own = (\<Sum>b \<leftarrow> filter (dirty_blocks R c) [0..<blocks_of c]. bs_of c)"
    unfolding own length_concat map_map by (intro arg_cong [where f = sum_list] map_cong) auto
  moreover have "{k. dirty_blocks R c k} = set (filter (dirty_blocks R c) [0..<blocks_of c])"
    by (auto simp: dirty_blocks_def)
  ultimately show ?thesis by (simp only: sum_list_triv) (subst distinct_card, simp_all)
qed

context roaring
begin

lemma cache_bitmaps:
  assumes inv: "cache_inv R mem c"
  shows "x \<in> mem (t_dirty (c_tracker c)) \<longleftrightarrow> dirty_blocks R c x"
    and "x \<in> mem (bm_Or R (t_zero (c_tracker c)) (t_removed (c_tracker c))) \<longleftrightarrow> zero_blocks R c x"
proof -
  have dj: "disjoint_bitmaps mem (c_tracker c)" and sz: "sized c" using inv by (auto simp: cache_inv_def)
  have st: "stateOf R (c_tracker c) w \<noteq> NotPresent \<Longrightarrow> unat w < blocks_of c \<and> stateOf R (c_tracker c) w \<in> {Dirty, Zero}" for w
    using inv by (simp add: cache_inv_def)
  have "(x \<in> mem (t_dirty (c_tracker c)) \<longleftrightarrow> dirty_blocks R c x) \<and>
    (x \<in> mem (bm_Or R (t_zero (c_tracker c)) (t_removed (c_tracker c))) \<longleftrightarrow> zero_blocks R c x)"
  proof (cases "x < 2 ^ 32")
    case True
    then have "unat (word_of_nat x :: u32) = x" by (simp add: unat_of_nat take_bit_nat_eq_self)
    then show ?thesis using stateOf_iff [OF dj, of "word_of_nat x"] st [of "word_of_nat x"]
      by (auto simp: Or dirty_blocks_def zero_blocks_def)
  next
    case False
    then have "x \<notin> mem b" for b using mem_bound [of b] by auto
    then show ?thesis using False sized_blocks(2) [OF sz] by (auto simp: dirty_blocks_def zero_blocks_def)
  qed
  then show "x \<in> mem (t_dirty (c_tracker c)) \<longleftrightarrow> dirty_blocks R c x"
    "x \<in> mem (bm_Or R (t_zero (c_tracker c)) (t_removed (c_tracker c))) \<longleftrightarrow> zero_blocks R c x" by blast+
qed

lemma ExportToDiff_ok:
  assumes inv: "cache_inv R mem c" and sys: "kernel_ok sys"
  shows "\<exists>d out. ExportToDiff R sys c [] = Some (Inr (d, out)) \<and> Cache_DiffMetadata R c = Inr d \<and> dm_BlockSize d = c_blockSize c \<and>
    mem (dm_Dirty d) = {x. dirty_blocks R c x} \<and> mem (dm_Empty d) = {x. zero_blocks R c x} \<and>
    out = concat (map (blk (mapped_bytes c) (bs_of c)) (filter (dirty_blocks R c) [0..<blocks_of c]))"
proof -
  let ?t = "c_tracker c" and ?f = "mapped_bytes c"
  let ?d = "\<lparr>dm_Dirty = t_dirty ?t, dm_Empty = bm_Or R (t_zero ?t) (t_removed ?t), dm_BlockSize = c_blockSize c\<rparr>"
  let ?st = "\<lparr>cs_fallback = False, cs_calls = 0, cs_writeOffset = 0, cs_out = []\<rparr>"
  have sz: "sized c" and mm: "c_mmap c = Some ?f" "length ?f = unat (c_size c)" "\<not> isClosed c"
    using inv by (auto simp: cache_inv_def mapped_bytes_def isClosed_def)
  have runs: "ascending 0 (bm_Ranges R (t_dirty ?t))" "in_ranges (bm_Ranges R (t_dirty ?t)) x \<longleftrightarrow> dirty_blocks R c x" for x
    using Ranges [of "t_dirty ?t"] cache_bitmaps [OF inv] by (auto simp: is_runs_def)
  have le: "Suc b * unat (c_blockSize c) \<le> length ?f" if "dirty_blocks R c b" for b
  proof -
    have "Suc b * bs_of c \<le> blocks_of c * bs_of c" using that by (intro mult_le_mono1) (simp add: dirty_blocks_def)
    then show ?thesis using sized_blocks(1) [OF sz] mm(2) by (simp add: bs_of_def)
  qed
  have "length ?f < 2 ^ 44" using mm(2) sz by (simp add: sized_def)
  then obtain st' where st': "copy_ranges sys ?f (BitsetRanges R (t_dirty ?t) (c_blockSize c)) ?st = Some (Inr st')"
    "cs_out st' = concat (map (blk ?f (bs_of c)) (run_blocks (bm_Ranges R (t_dirty ?t))))"
    using copy_ranges_ok [OF sys _ runs(1), of ?f "c_blockSize c" ?st] le runs(2)
    by (auto simp: BitsetRanges_def at_end_def bs_of_def)
  have "run_blocks (bm_Ranges R (t_dirty ?t)) = filter (in_ranges (bm_Ranges R (t_dirty ?t))) [0..<blocks_of c]"
    using runs by (intro run_blocks_filter) (auto simp: dirty_blocks_def)
  then have rb: "run_blocks (bm_Ranges R (t_dirty ?t)) = filter (dirty_blocks R c) [0..<blocks_of c]"
    by (simp add: runs(2) cong: filter_cong)
  have "ExportToDiff R sys c [] = Some (Inr (?d, cs_out st'))"
    using mm sys st'(1) by (simp add: ExportToDiff_def exportToDiffLocked_def kernel_ok_def Export_def NewDiffMetadata_def)
  moreover have "Cache_DiffMetadata R c = Inr ?d"
    using mm by (simp add: Cache_DiffMetadata_def Export_def NewDiffMetadata_def)
  ultimately show ?thesis using st'(2) rb cache_bitmaps [OF inv] by auto
qed

end

text \<open>What a byte of the snapshot must read: the block the cache holds, from the build's own file or as zeros, and
  the parent's source otherwise.\<close>

definition shows_cache ::
  "'bm roaring_ops \<Rightarrow> 'bm Cache \<Rightarrow> uuid \<Rightarrow> byte list \<Rightarrow> source option \<Rightarrow> source option \<Rightarrow> nat \<Rightarrow> bool" where
  "shows_cache R c bid own parent s p =
     (case held R c (p div bs_of c) of
        None \<Rightarrow> s = parent
      | Some x \<Rightarrow> read_own bid own s = Some (x ! (p mod bs_of c)))"

context roaring
begin

lemma snapshot_bytes:
  assumes inv: "cache_inv R mem c" and p: "p < unat (c_size c)"
    and own: "own = concat (map (blk (mapped_bytes c) (bs_of c)) (filter (dirty_blocks R c) [0..<blocks_of c]))"
  shows "shows_cache R c bid own (parent p) (snapshot_reads {x. dirty_blocks R c x} {x. zero_blocks R c x} (bs_of c) bid
      (\<lambda>p. card {b \<in> {x. dirty_blocks R c x}. b < p div bs_of c} * bs_of c + p mod bs_of c) parent p) p"
proof -
  let ?B = "bs_of c" and ?f = "mapped_bytes c" and ?k = "p div bs_of c" and ?w = "word_of_nat (p div bs_of c) :: u32"
  have sz: "sized c" and len: "length ?f = unat (c_size c)" using inv by (auto simp: cache_inv_def)
  note B = sized_blocks [OF sz]
  have kn: "?k < blocks_of c" using p B by (metis div_less_iff_less_mult)
  then have w: "unat ?w = ?k" using B(2) by (simp add: unat_of_nat take_bit_nat_eq_self)
  have st: "stateOf R (c_tracker c) ?w \<noteq> NotPresent \<Longrightarrow> stateOf R (c_tracker c) ?w \<in> {Dirty, Zero} \<and>
      (stateOf R (c_tracker c) ?w = Zero \<longrightarrow> IsZero (blk ?f ?B ?k))"
    using inv unfolding cache_inv_def by (metis w)
  have byte: "blk ?f ?B ?k ! (p mod ?B) = ?f ! p" using p len B(3) by (intro blk_nth) simp_all
  have "Suc ?k * ?B \<le> blocks_of c * ?B" using kn by (intro mult_le_mono1) simp
  then have lb: "length (blk ?f ?B ?k) = ?B" using len B(1) by (intro length_blk) simp
  show ?thesis
  proof (cases "stateOf R (c_tracker c) ?w")
    case Dirty
    have set: "{x. x < blocks_of c \<and> dirty_blocks R c x \<and> x < ?k} = {b. dirty_blocks R c b \<and> b < ?k}"
      by (auto simp: dirty_blocks_def)
    have "dirty_blocks R c ?k" using Dirty kn by (simp add: dirty_blocks_def)
    from packed_byte [of "blocks_of c" ?B ?f p "dirty_blocks R c", OF _ B(3) _ this] B(1) len p own
    show ?thesis unfolding set using Dirty kn byte
      by (simp add: snapshot_reads_def read_own_def shows_cache_def held_def dirty_blocks_def [of R c ?k] zero_blocks_def [of R c ?k])
  next
    case Zero
    then have "blk ?f ?B ?k = replicate ?B 0" using st lb IsZero_iff [of "blk ?f ?B ?k"] by simp
    then have "blk ?f ?B ?k ! (p mod ?B) = 0" using B(3) by simp
    then show ?thesis using Zero kn
      by (simp add: snapshot_reads_def read_own_def shows_cache_def held_def zero_blocks_def)
  next
    case NotPresent
    then show ?thesis using kn
      by (simp add: snapshot_reads_def shows_cache_def held_def zero_blocks_def dirty_blocks_def)
  qed (use st in auto)
qed

lemma diff_of_cache:
  assumes inv: "cache_inv R mem c" and bs: "paged (c_blockSize c)" "dm_BlockSize d = c_blockSize c"
    and d: "mem (dm_Dirty d) = {x. dirty_blocks R c x}" "mem (dm_Empty d) = {x. zero_blocks R c x}"
  shows "diff_in (bm_Ranges R) d {x. dirty_blocks R c x} {x. zero_blocks R c x} (unat (c_size c))"
proof -
  have sz: "sized c" using inv by (simp add: cache_inv_def)
  have "Suc b * bs_of c \<le> unat (c_size c)" if "b < blocks_of c" for b
    using mult_le_mono1 [OF Suc_leI [OF that], of "bs_of c"] sized_blocks(1) [OF sz] by simp
  then show ?thesis using Ranges [of "dm_Dirty d"] Ranges [of "dm_Empty d"] sized_blocks(3) [OF sz] bs
    by (auto simp: diff_in_def d bs_of_def dirty_blocks_def zero_blocks_def)
qed

end

section \<open>A snapshot of a cache\<close>

text \<open>
  C2. Exporting a cache and building the snapshot header compose: whatever progress the kernel makes per
  \<open>copy_file_range\<close> call, and also when it does not support the call, the copy loop ends without error, the diff file
  is the dirty blocks in order, the header derived from the returned metadata satisfies the header invariant, and every
  byte of the device then reads, through that header and file, the block the cache holds, or the parent's source where it holds none.
\<close>

theorem cache_snapshot_reads_back:
  assumes "roaring R mem" and "cache_inv R mem c" and "kernel_ok sys" and "header_inv h"
    and "c_size c = md_Size (h_Metadata h)" and "paged (c_blockSize c)"
    and "bid \<noteq> uuid_Nil" and "card (insert bid (header_builds h)) \<le> maxBuildsPerHeader"
  shows "\<exists>d out h'. ExportToDiff R sys c [] = Some (Inr (d, out)) \<and> ToDiffHeader (bm_Ranges R) d h bid = Inr h' \<and>
    header_inv h' \<and> length out = card {k. dirty_blocks R c k} * bs_of c \<and>
    (\<forall>p < unat (c_size c). shows_cache R c bid out (device_resolve h p) (device_resolve h' p) p)"
proof -
  obtain d out where e: "ExportToDiff R sys c [] = Some (Inr (d, out))" "dm_BlockSize d = c_blockSize c"
    "mem (dm_Dirty d) = {x. dirty_blocks R c x}" "mem (dm_Empty d) = {x. zero_blocks R c x}"
    "out = concat (map (blk (mapped_bytes c) (bs_of c)) (filter (dirty_blocks R c) [0..<blocks_of c]))"
    using roaring.ExportToDiff_ok [OF assms(1-3)] by blast
  have d: "diff_in (bm_Ranges R) d {x. dirty_blocks R c x} {x. zero_blocks R c x} (unat (md_Size (h_Metadata h)))"
    using roaring.diff_of_cache [OF assms(1,2,6) e(2-4)] assms(5) by simp
  from ToDiffHeader_ok [OF assms(4) d assms(7,8)] obtain h' where h': "ToDiffHeader (bm_Ranges R) d h bid = Inr h'" "header_inv h'"
    "\<And>p. device_resolve h' p = snapshot_reads {x. dirty_blocks R c x} {x. zero_blocks R c x} (bs_of c) bid
        (\<lambda>p. card {b \<in> {x. dirty_blocks R c x}. b < p div bs_of c} * bs_of c + p mod bs_of c) (device_resolve h) p"
    by (auto simp: e(2) bs_of_def)
  have "shows_cache R c bid out (device_resolve h p) (device_resolve h' p) p" if "p < unat (c_size c)" for p
    unfolding h'(3) using roaring.snapshot_bytes [OF assms(1,2) that e(5)] .
  moreover have "length out = card {k. dirty_blocks R c k} * bs_of c" using packed_length [OF assms(2) e(5)] .
  ultimately show ?thesis using e(1) h'(1,2) by blast
qed

text \<open>A cache whose first block is dirty and whose others are the parent's, and a kernel that copies half of what is
  asked for on its first call and then turns out not to support the call at all.\<close>

definition part_cache :: "u32 set Cache" where
  "part_cache = \<lparr>c_filePath = ''cache'', c_size = 12288, c_blockSize = 4096, c_mmap = Some (replicate 4096 7 @ replicate 8192 0),
     c_tracker = SetRange set_roaring 0 1 Dirty (NewTracker set_roaring), c_dirtyFile = False, c_closed = False\<rparr>"

definition part_sys :: export_sys where
  "part_sys = \<lparr>x_openErr = None, x_cfr = (\<lambda>k len. if k = 0 \<and> 2048 < len then CfrCopied 2048 else CfrUnsupported),
     x_seekErr = None, x_copyErr = None\<rparr>"

lemma part_cache_state:
  "stateOf set_roaring (c_tracker part_cache) w = (if w = 0 then Dirty else NotPresent)"
proof -
  have "w < 1 \<longleftrightarrow> w = 0" by (simp add: word_less_nat_alt unat_eq_zero)
  then show ?thesis
    by (simp add: part_cache_def sets.SetRange_ok sets.new_ok spec_SetRange_def)
qed

lemma part_cache_facts:
  "cache_inv set_roaring (\<lambda>b. unat ` b) part_cache" "bs_of part_cache = 4096" "blocks_of part_cache = 3"
  "held set_roaring part_cache 0 = Some (replicate 4096 7)" "held set_roaring part_cache 1 = None"
  by (simp_all add: cache_inv_def held_def part_cache_state)
    (simp_all add: part_cache_def sized_def mapped_bytes_def blocks_of_def bs_of_def sets.SetRange_ok sets.new_ok blk_def)

theorem cache_snapshot_reads_back_witness:
  "\<exists>d out h'. ExportToDiff set_roaring part_sys part_cache [] = Some (Inr (d, out)) \<and>
     ToDiffHeader set_ranges d sample_header 9 = Inr h' \<and>
     read_own 9 out (device_resolve h' 100) = Some 7 \<and> device_resolve h' 5000 = device_resolve sample_header 5000"
proof -
  have k: "kernel_ok part_sys" by (simp add: kernel_ok_def part_sys_def word_less_nat_alt)
  have s: "c_size part_cache = md_Size (h_Metadata sample_header)" "c_blockSize part_cache = 4096"
    "unat (c_size part_cache) = 12288"
    by (simp_all add: part_cache_def sample_header_inv(3))
  have cap: "card (insert 9 (header_builds sample_header)) \<le> maxBuildsPerHeader"
    by (simp add: sample_header_inv(2) maxBuildsPerHeader_def nilBuildIdx_def)
  have r: "bm_Ranges set_roaring = set_ranges" by (simp add: set_roaring_def)
  from cache_snapshot_reads_back [OF sets.roaring_axioms part_cache_facts(1) k sample_header_inv(1) s(1) _ _ cap]
  obtain d out h' where h': "ExportToDiff set_roaring part_sys part_cache [] = Some (Inr (d, out))"
    "ToDiffHeader set_ranges d sample_header 9 = Inr h'"
    "\<forall>p < 12288. shows_cache set_roaring part_cache 9 out (device_resolve sample_header p) (device_resolve h' p) p"
    by (auto simp: s r sample_header_inv(3))
  from h'(3) [rule_format, of 100] h'(3) [rule_format, of 5000] h'(1,2) part_cache_facts show ?thesis
    by (auto simp: shows_cache_def)
qed

end
