(* ===== verification/Nbd_Dispatch.thy ===== *)
theory Nbd_Dispatch
  imports Codec "HOL-Library.Sublist" "HOL-Library.Multiset"
begin

text \<open>
  The NBD server of a sandbox's root disk (\<open>packages/orchestrator/pkg/sandbox/nbd/dispatch.go\<close>). The first part is the
  read loop \<open>Handle\<close>, which cuts the socket's byte stream into requests through one reused buffer; it is compared with a
  reference parser of the whole stream. The second part is the serving of the requests: every command runs in its own
  goroutine against the provider while the loop goes on, and \<open>Drain\<close> waits for them.
\<close>

section \<open>Requests\<close>

text \<open>\<open>binary.BigEndian\<close>.\<close>

definition be_dec :: "byte list \<Rightarrow> nat" where
  "be_dec bs = le_dec (rev bs)"

definition be_enc :: "nat \<Rightarrow> nat \<Rightarrow> byte list" where
  "be_enc n x = rev (le_enc n x)"

lemma be_dec_enc: "x < 256 ^ n \<Longrightarrow> be_dec (be_enc n x) = x"
  by (simp add: be_dec_def be_enc_def le_dec_enc)

lemma length_be_enc [simp]: "length (be_enc n x) = n"
  by (simp add: be_enc_def)

definition NBDCmdRead :: u16 where "NBDCmdRead = 0"
definition NBDCmdWrite :: u16 where "NBDCmdWrite = 1"
definition NBDCmdDisconnect :: u16 where "NBDCmdDisconnect = 2"
definition NBDCmdFlush :: u16 where "NBDCmdFlush = 3"
definition NBDCmdTrim :: u16 where "NBDCmdTrim = 4"
definition NBDCmdWriteZeroes :: u16 where "NBDCmdWriteZeroes = 6"

definition NBDRequestMagic :: u32 where "NBDRequestMagic = 0x25609513"
definition NBDResponseMagic :: u32 where "NBDResponseMagic = 0x67446698"

definition dispatchBufferSize :: nat where "dispatchBufferSize = 4 * 1024 * 1024"
definition dispatchMaxWriteBufferSize :: u32 where "dispatchMaxWriteBufferSize = 32 * 1024 * 1024"

lemmas nbd_types = NBDCmdRead_def NBDCmdWrite_def NBDCmdDisconnect_def NBDCmdFlush_def NBDCmdTrim_def NBDCmdWriteZeroes_def

record Request =
  rq_Magic :: u32
  rq_Flags :: u16
  rq_Type :: u16
  rq_Handle :: u64
  rq_From :: u64
  rq_Length :: u32

definition get_request :: "byte list \<Rightarrow> Request" where
  "get_request hdr =
     \<lparr>rq_Magic = word_of_nat (be_dec (take 4 hdr)),
      rq_Flags = word_of_nat (be_dec (take 2 (drop 4 hdr))),
      rq_Type = word_of_nat (be_dec (take 2 (drop 6 hdr))),
      rq_Handle = word_of_nat (be_dec (take 8 (drop 8 hdr))),
      rq_From = word_of_nat (be_dec (take 8 (drop 16 hdr))),
      rq_Length = word_of_nat (be_dec (take 4 (drop 24 hdr)))\<rparr>"

datatype nbd_error =
    ReadError string | NbdWriteReadError string | FatalError string | CtxError | InvalidMagic | FlushNotSupported
  | WriteTooLong u32 | NotImplemented u16 | ErrShuttingDown | SocketError string

text \<open>The commands the loop hands over: to \<open>cmdRead\<close>, \<open>cmdWrite\<close> and \<open>cmdWriteZeroes\<close>, with the handle and the offset.\<close>

datatype nbd_cmd = CmdRead u64 u64 u32 | CmdWrite u64 u64 "byte list" | CmdWriteZeroes u64 u64 i64

section \<open>The read loop\<close>

text \<open>The socket is the list of the segments that will arrive before it is closed. One \<open>Read\<close> gets at most one segment
  and at most as many bytes as the slice has; what does not fit stays. What runs at the same time enters through an
  environment: the answer of the loop's \<open>k\<close>-th \<open>select\<close> over \<open>d.fatal\<close> and \<open>ctx.Done\<close>, and the
  error, if any, that the \<open>k\<close>-th command returns to the loop.\<close>

definition conn_read :: "nat \<Rightarrow> byte list list \<Rightarrow> string + byte list \<times> byte list list" where
  "conn_read m segs =
     (case segs of
        [] \<Rightarrow> Inl ''EOF''
      | s # ss \<Rightarrow> Inr (take m s, if length s \<le> m then ss else drop m s # ss))"

record nbd_env =
  e_select :: "nat \<Rightarrow> nbd_error option"
  e_cmd :: "nat \<Rightarrow> nbd_cmd \<Rightarrow> nbd_error option"

record handle_state =
  hs_segs :: "byte list list"
  hs_selects :: nat
  hs_cmds :: "nbd_cmd list"

definition segs_size :: "byte list list \<Rightarrow> nat" where
  "segs_size segs = sum_list (map (\<lambda>s. Suc (length s)) segs)"

lemma conn_read_shrinks:
  "conn_read m segs = Inr (bs, segs') \<Longrightarrow> 0 < m \<Longrightarrow> segs_size segs' < segs_size segs"
  by (cases segs) (auto simp: conn_read_def segs_size_def split: if_splits)

lemma conn_read_bytes:
  "conn_read m segs = Inr (bs, segs') \<Longrightarrow> concat segs = bs @ concat segs' \<and> length bs \<le> m"
  by (cases segs) (auto simp: conn_read_def split: if_splits)

lemma conn_read_end: "conn_read m segs = Inl e \<Longrightarrow> segs = [] \<and> e = ''EOF''"
  by (cases segs) (auto simp: conn_read_def)

text \<open>The wait for the rest of a write's data; \<open>data\<close> is the part copied so far.\<close>

function read_data ::
  "nbd_env \<Rightarrow> nat \<Rightarrow> byte list \<Rightarrow> handle_state \<Rightarrow> (nbd_error \<times> handle_state) + (byte list \<times> handle_state)" where
  "read_data env n data st =
     (if length data < n then
        case conn_read (n - length data) (hs_segs st) of
          Inl e \<Rightarrow> Inl (NbdWriteReadError e, st)
        | Inr (bs, segs) \<Rightarrow>
            (case e_select env (hs_selects st) of
               Some e \<Rightarrow> Inl (e, st\<lparr>hs_segs := segs, hs_selects := Suc (hs_selects st)\<rparr>)
             | None \<Rightarrow> read_data env n (data @ bs) (st\<lparr>hs_segs := segs, hs_selects := Suc (hs_selects st)\<rparr>))
      else Inr (data, st))"
  by pat_completeness auto

termination
  by (relation "measure (\<lambda>(_, _, _, st). segs_size (hs_segs st))") (auto dest: conn_read_shrinks)

declare read_data.simps [simp del]

definition issue ::
  "nbd_env \<Rightarrow> nbd_cmd \<Rightarrow> handle_state \<Rightarrow> (nbd_error option \<times> handle_state) + handle_state" where
  "issue env c st =
     (let st' = st\<lparr>hs_cmds := hs_cmds st @ [c]\<rparr>
      in case e_cmd env (length (hs_cmds st)) c of Some e \<Rightarrow> Inl (Some e, st') | None \<Rightarrow> Inr st')"

text \<open>One complete header at \<open>rp\<close>: the loop returns, or goes on behind the request.\<close>

definition one_request ::
  "nbd_env \<Rightarrow> byte list \<Rightarrow> nat \<Rightarrow> nat \<Rightarrow> handle_state \<Rightarrow> (nbd_error option \<times> handle_state) + (nat \<times> handle_state)" where
  "one_request env buffer wp rp st =
     (let r = get_request (take 28 (drop rp buffer))
      in if rq_Magic r \<noteq> NBDRequestMagic then Inl (Some InvalidMagic, st)
         else if rq_Type r = NBDCmdDisconnect then Inl (None, st)
         else if rq_Type r = NBDCmdFlush then Inl (Some FlushNotSupported, st)
         else if rq_Type r = NBDCmdRead then
           map_sum id (Pair (rp + 28)) (issue env (CmdRead (rq_Handle r) (rq_From r) (rq_Length r)) st)
         else if rq_Type r = NBDCmdWrite then
           if dispatchMaxWriteBufferSize < rq_Length r then Inl (Some (WriteTooLong (rq_Length r)), st)
           else
             let n = unat (rq_Length r);
                 copied = take n (take (wp - (rp + 28)) (drop (rp + 28) buffer))
             in case read_data env n copied st of
                  Inl (e, st') \<Rightarrow> Inl (Some e, st')
                | Inr (data, st') \<Rightarrow>
                    map_sum id (Pair (rp + 28 + length copied)) (issue env (CmdWrite (rq_Handle r) (rq_From r) data) st')
         else if rq_Type r = NBDCmdWriteZeroes \<or> rq_Type r = NBDCmdTrim then
           map_sum id (Pair (rp + 28)) (issue env (CmdWriteZeroes (rq_Handle r) (rq_From r) (ucast (rq_Length r))) st)
         else Inl (Some (NotImplemented (rq_Type r)), st))"

lemma one_request_progress: "one_request env buffer wp rp st = Inr (rp', st') \<Longrightarrow> rp + 28 \<le> rp'"
  by (auto simp: one_request_def issue_def Let_def split: if_splits option.splits sum.splits prod.splits)

text \<open>The loop over the complete requests in the buffer.\<close>

function packets ::
  "nbd_env \<Rightarrow> byte list \<Rightarrow> nat \<Rightarrow> nat \<Rightarrow> handle_state \<Rightarrow> (nbd_error option \<times> handle_state) + (nat \<times> handle_state)" where
  "packets env buffer wp rp st =
     (case e_select env (hs_selects st) of
        Some e \<Rightarrow> Inl (Some e, st\<lparr>hs_selects := Suc (hs_selects st)\<rparr>)
      | None \<Rightarrow>
          if wp - rp < 28 then Inr (rp, st\<lparr>hs_selects := Suc (hs_selects st)\<rparr>)
          else case one_request env buffer wp rp (st\<lparr>hs_selects := Suc (hs_selects st)\<rparr>) of
              Inl r \<Rightarrow> Inl r
            | Inr (rp', st') \<Rightarrow> packets env buffer wp rp' st')"
  by pat_completeness auto

termination
  by (relation "measure (\<lambda>(_, _, wp, rp, _). wp - rp)") (auto dest: one_request_progress)

declare packets.simps [simp del]

text \<open>The outer loop; \<open>None\<close> if it never returns.\<close>

partial_function (option) handle_loop ::
  "nbd_env \<Rightarrow> byte list \<Rightarrow> nat \<Rightarrow> handle_state \<Rightarrow> (nbd_error option \<times> nbd_cmd list) option" where
  "handle_loop env buffer wp st =
     (case conn_read (length buffer - wp) (hs_segs st) of
        Inl e \<Rightarrow> Some (Some (ReadError e), hs_cmds st)
      | Inr (bs, segs) \<Rightarrow>
          (case packets env (overwrite buffer wp bs) (wp + length bs) 0 (st\<lparr>hs_segs := segs\<rparr>) of
             Inl (r, st') \<Rightarrow> Some (r, hs_cmds st')
           | Inr (rp, st') \<Rightarrow>
               handle_loop env
                 (if rp \<noteq> 0 \<and> rp \<noteq> wp + length bs
                  then overwrite (overwrite buffer wp bs) 0 (take (wp + length bs - rp) (drop rp (overwrite buffer wp bs)))
                  else overwrite buffer wp bs)
                 (wp + length bs - rp) st'))"

text \<open>\<open>buffer\<close> is the pooled buffer, with whatever an earlier connection left in it.\<close>

definition Handle ::
  "nbd_env \<Rightarrow> byte list \<Rightarrow> byte list list \<Rightarrow> (nbd_error option \<times> nbd_cmd list) option" where
  "Handle env buffer segs = handle_loop env buffer 0 \<lparr>hs_segs = segs, hs_selects = 0, hs_cmds = []\<rparr>"

section \<open>The stream of requests\<close>

text \<open>The reference: the requests of a byte stream, without buffers or segments, and how the stream ends.\<close>

datatype ending = Stopped "nbd_error option" | NeedHeader | NeedData

definition parse_request :: "byte list \<Rightarrow> ending + nbd_cmd \<times> byte list" where
  "parse_request bs =
     (if length bs < 28 then Inl NeedHeader
      else let r = get_request (take 28 bs); rest = drop 28 bs; n = unat (rq_Length r)
        in if rq_Magic r \<noteq> NBDRequestMagic then Inl (Stopped (Some InvalidMagic))
           else if rq_Type r = NBDCmdDisconnect then Inl (Stopped None)
           else if rq_Type r = NBDCmdFlush then Inl (Stopped (Some FlushNotSupported))
           else if rq_Type r = NBDCmdRead then Inr (CmdRead (rq_Handle r) (rq_From r) (rq_Length r), rest)
           else if rq_Type r = NBDCmdWrite then
             if dispatchMaxWriteBufferSize < rq_Length r then Inl (Stopped (Some (WriteTooLong (rq_Length r))))
             else if length rest < n then Inl NeedData
             else Inr (CmdWrite (rq_Handle r) (rq_From r) (take n rest), drop n rest)
           else if rq_Type r = NBDCmdWriteZeroes \<or> rq_Type r = NBDCmdTrim
             then Inr (CmdWriteZeroes (rq_Handle r) (rq_From r) (ucast (rq_Length r)), rest)
           else Inl (Stopped (Some (NotImplemented (rq_Type r)))))"

lemma parse_request_shrinks: "parse_request bs = Inr (c, rest) \<Longrightarrow> length rest < length bs"
  by (auto simp: parse_request_def Let_def split: if_splits)

function parse_stream :: "byte list \<Rightarrow> nbd_cmd list \<times> ending" where
  "parse_stream bs =
     (case parse_request bs of
        Inl e \<Rightarrow> ([], e)
      | Inr (c, rest) \<Rightarrow> (case parse_stream rest of (cs, e) \<Rightarrow> (c # cs, e)))"
  by pat_completeness auto

termination
  by (relation "measure length") (auto dest: parse_request_shrinks)

declare parse_stream.simps [simp del]

text \<open>What \<open>Handle\<close> returns at the end of the stream.\<close>

fun ends_with :: "ending \<Rightarrow> nbd_error option" where
  "ends_with (Stopped e) = e"
| "ends_with NeedHeader = Some (ReadError ''EOF'')"
| "ends_with NeedData = Some (NbdWriteReadError ''EOF'')"

definition quiet :: "nbd_env \<Rightarrow> bool" where
  "quiet env \<longleftrightarrow> (\<forall>k. e_select env k = None) \<and> (\<forall>k c. e_cmd env k c = None)"

section \<open>The loop follows the stream\<close>

text \<open>A return of the loop after the commands \<open>cs\<close>, with \<open>bs\<close> still to be parsed.\<close>

definition returns_on :: "nbd_env \<Rightarrow> byte list \<Rightarrow> nbd_cmd list \<Rightarrow> nbd_error option \<Rightarrow> bool" where
  "returns_on env bs cs r \<longleftrightarrow> prefix cs (fst (parse_stream bs)) \<and>
     (quiet env \<longrightarrow> cs = fst (parse_stream bs) \<and> r = ends_with (snd (parse_stream bs)))"

lemma parse_stream_Inl: "parse_request bs = Inl e \<Longrightarrow> parse_stream bs = ([], e)"
  by (simp add: parse_stream.simps)

lemma parse_stream_Inr:
  "parse_request bs = Inr (c, rest) \<Longrightarrow> parse_stream bs = (c # fst (parse_stream rest), snd (parse_stream rest))"
  by (subst parse_stream.simps) (simp split: prod.splits)

lemma returns_on_Inl: "parse_request bs = Inl e \<Longrightarrow> (quiet env \<Longrightarrow> r = ends_with e) \<Longrightarrow> returns_on env bs [] r"
  by (simp add: returns_on_def parse_stream_Inl)

lemma returns_on_interrupted: "\<not> quiet env \<Longrightarrow> returns_on env bs [] r"
  by (simp add: returns_on_def)

lemma returns_on_Cons:
  "parse_request bs = Inr (c, rest) \<Longrightarrow> returns_on env rest cs r \<Longrightarrow> returns_on env bs (c # cs) r"
  by (simp add: returns_on_def parse_stream_Inr)

lemma issue_cases:
  "issue env c st = Inr (st\<lparr>hs_cmds := hs_cmds st @ [c]\<rparr>) \<or>
   (\<exists>e. issue env c st = Inl (Some e, st\<lparr>hs_cmds := hs_cmds st @ [c]\<rparr>) \<and> \<not> quiet env)"
  by (cases "e_cmd env (length (hs_cmds st)) c") (auto simp: issue_def quiet_def)

lemma read_data_ok:
  assumes "length data \<le> n"
  shows "case read_data env n data st of
      Inl (e, st') \<Rightarrow> hs_cmds st' = hs_cmds st \<and>
        (quiet env \<longrightarrow> e = NbdWriteReadError ''EOF'' \<and> length (data @ concat (hs_segs st)) < n)
    | Inr (data', st') \<Rightarrow> hs_cmds st' = hs_cmds st \<and> length data' = n \<and>
        data' @ concat (hs_segs st') = data @ concat (hs_segs st) \<and> segs_size (hs_segs st') \<le> segs_size (hs_segs st)"
  using assms
proof (induction env n data st rule: read_data.induct)
  case (1 env n data st)
  show ?case
  proof (cases "length data < n")
    case True
    show ?thesis
    proof (cases "conn_read (n - length data) (hs_segs st)")
      case (Inl e)
      then show ?thesis using True conn_read_end [OF Inl] by (simp add: read_data.simps)
    next
      case (Inr q)
      obtain bs segs where q: "q = (bs, segs)" by (cases q)
      note c = conn_read_bytes [OF Inr [unfolded q]] conn_read_shrinks [OF Inr [unfolded q]]
      show ?thesis
      proof (cases "e_select env (hs_selects st)")
        case None
        have len: "length (data @ bs) \<le> n" using c(1) True by auto
        have "read_data env n data st = read_data env n (data @ bs) (st\<lparr>hs_segs := segs, hs_selects := Suc (hs_selects st)\<rparr>)"
          using True Inr q None by (subst read_data.simps) simp
        with 1(1) [OF True Inr q [symmetric] None len] c True show ?thesis by (auto split: sum.splits)
      next
        case (Some e)
        then have "\<not> quiet env" by (auto simp: quiet_def)
        then show ?thesis using Some True Inr q by (simp add: read_data.simps)
      qed
    qed
  qed (use "1.prems" in \<open>simp add: read_data.simps\<close>)
qed

text \<open>The bytes of the buffer that are not consumed yet, followed by those to come.\<close>

definition unread :: "byte list \<Rightarrow> nat \<Rightarrow> nat \<Rightarrow> handle_state \<Rightarrow> byte list" where
  "unread buffer wp rp st = take (wp - rp) (drop rp buffer) @ concat (hs_segs st)"

definition request_step :: "nbd_env \<Rightarrow> byte list \<Rightarrow> nat \<Rightarrow> nat \<Rightarrow> handle_state \<Rightarrow>
    (nbd_error option \<times> handle_state) + (nat \<times> handle_state) \<Rightarrow> bool" where
  "request_step env buffer wp rp st res =
     (case res of
        Inl (r, st') \<Rightarrow> (\<exists>cs. hs_cmds st' = hs_cmds st @ cs \<and> returns_on env (unread buffer wp rp st) cs r)
      | Inr (rp', st') \<Rightarrow> rp' \<le> wp \<and> segs_size (hs_segs st') \<le> segs_size (hs_segs st) \<and>
          (\<exists>c. hs_cmds st' = hs_cmds st @ [c] \<and> parse_request (unread buffer wp rp st) = Inr (c, unread buffer wp rp' st')))"

lemma request_step_issue:
  assumes "rp' \<le> wp" "segs_size (hs_segs st') \<le> segs_size (hs_segs st)" "hs_cmds st' = hs_cmds st"
    and "parse_request (unread buffer wp rp st) = Inr (c, unread buffer wp rp' st')"
  shows "request_step env buffer wp rp st (map_sum id (Pair rp') (issue env c st'))"
proof -
  have "returns_on env (unread buffer wp rp st) [c] (Some e)" if "\<not> quiet env" for e
    using returns_on_Cons [OF assms(4) returns_on_interrupted [OF that]] .
  then show ?thesis using issue_cases [of env c st'] assms by (auto simp: request_step_def unread_def)
qed

text \<open>The data of a write: the copied part of the buffer and the bytes that follow give the bytes behind the header.\<close>

lemma copied_unread:
  assumes wp: "wp \<le> length buffer" and copied: "copied = take n (take (wp - q) (drop q buffer))"
    and d: "length d = n" "d @ concat (hs_segs st') = copied @ concat (hs_segs st)"
  shows "d @ unread buffer wp (q + length copied) st' = unread buffer wp q st"
proof -
  let ?T = "take (wp - q) (drop q buffer)"
  have T: "unread buffer wp q st = ?T @ concat (hs_segs st)" "length ?T = wp - q" using wp by (simp_all add: unread_def)
  show ?thesis
  proof (cases "n \<le> length ?T")
    case True
    then have len: "length copied = n" using copied by simp
    then have "d = copied" "concat (hs_segs st') = concat (hs_segs st)" using d by (simp_all add: append_eq_append_conv)
    moreover have "take (wp - (q + length copied)) (drop (q + length copied) buffer) = drop n ?T" using len
      by (simp add: drop_take add.commute)
    ultimately show ?thesis using copied by (simp only: unread_def append_assoc [symmetric] append_take_drop_id)
  next
    case False
    then have "length ?T \<le> n" by linarith
    then have c: "copied = ?T" unfolding copied by (rule take_all)
    then have "wp - (q + length copied) = 0" using T(2) by simp
    then show ?thesis using d(2) c T(1) by (simp add: unread_def)
  qed
qed

lemma write_step:
  assumes wp: "wp \<le> length buffer" "q \<le> wp" and copied: "copied = take n (take (wp - q) (drop q buffer))"
    and pr: "parse_request (unread buffer wp rp st) =
      (if length (unread buffer wp q st) < n then Inl NeedData
       else Inr (CmdWrite h from' (take n (unread buffer wp q st)), drop n (unread buffer wp q st)))"
  shows "request_step env buffer wp rp st (case read_data env n copied st of Inl (e, st') \<Rightarrow> Inl (Some e, st')
    | Inr (d, st') \<Rightarrow> map_sum id (Pair (q + length copied)) (issue env (CmdWrite h from' d) st'))"
proof -
  let ?U = "unread buffer wp q st"
  have "length copied \<le> n" using copied by simp
  note rd = read_data_ok [OF this, where env = env and st = st]
  show ?thesis
  proof (cases "read_data env n copied st")
    case (Inl r)
    obtain e st' where r: "r = (e, st')" by (cases r)
    have "returns_on env (unread buffer wp rp st) [] (Some e)"
    proof (cases "quiet env")
      case True
      then have e: "e = NbdWriteReadError ''EOF''" "length (copied @ concat (hs_segs st)) < n" using rd Inl r by auto
      then have "length ?U < n" using wp(1) by (auto simp: copied unread_def min_def split: if_splits)
      then show ?thesis using pr e by (intro returns_on_Inl [where e = NeedData]) simp_all
    qed (rule returns_on_interrupted)
    then show ?thesis using Inl r rd by (simp add: request_step_def)
  next
    case (Inr r)
    obtain d st' where r: "r = (d, st')" by (cases r)
    have d: "length d = n" "d @ concat (hs_segs st') = copied @ concat (hs_segs st)" "hs_cmds st' = hs_cmds st"
      "segs_size (hs_segs st') \<le> segs_size (hs_segs st)" using rd Inr r by auto
    have rp: "q + length copied \<le> wp" using wp copied by simp
    have "parse_request (unread buffer wp rp st) = Inr (CmdWrite h from' d, unread buffer wp (q + length copied) st')"
      unfolding pr copied_unread [OF wp(1) copied d(1,2), symmetric] using d(1) by simp
    from request_step_issue [OF rp d(4,3) this] show ?thesis using Inr r by simp
  qed
qed

lemma one_request_ok:
  assumes wp: "wp \<le> length buffer" "28 \<le> wp - rp"
  shows "request_step env buffer wp rp st (one_request env buffer wp rp st)"
proof -
  let ?u = "unread buffer wp rp st" and ?r = "get_request (take 28 (drop rp buffer))"
  have hdr: "take 28 ?u = take 28 (drop rp buffer)" "28 \<le> length ?u" using wp by (simp_all add: unread_def)
  have rp: "rp + 28 \<le> wp" using wp by simp
  then have rest: "drop 28 ?u = unread buffer wp (rp + 28) st" using wp by (simp add: unread_def drop_take add.commute)
  have stop: "request_step env buffer wp rp st (Inl (ends_with e, st))" if "parse_request ?u = Inl e" for e
    using returns_on_Inl [OF that] by (auto simp: request_step_def)
  note parse = parse_request_def [of ?u, unfolded hdr(1) rest Let_def]
  consider (data) "rq_Magic ?r = NBDRequestMagic" "rq_Type ?r = NBDCmdWrite" "\<not> dispatchMaxWriteBufferSize < rq_Length ?r"
    | (other) "rq_Magic ?r \<noteq> NBDRequestMagic \<or> rq_Type ?r \<noteq> NBDCmdWrite \<or> dispatchMaxWriteBufferSize < rq_Length ?r" by blast
  then show ?thesis
  proof cases
    case other
    have "request_step env buffer wp rp st (map_sum id (Pair (rp + 28)) (issue env c st))"
      if "parse_request ?u = Inr (c, unread buffer wp (rp + 28) st)" for c
      using that rp by (intro request_step_issue) simp_all
    then show ?thesis using other hdr(2) stop
      by (auto simp: one_request_def Let_def parse split: if_splits)
  next
    case data
    then have "parse_request ?u = (if length (unread buffer wp (rp + 28) st) < unat (rq_Length ?r) then Inl NeedData
        else Inr (CmdWrite (rq_Handle ?r) (rq_From ?r) (take (unat (rq_Length ?r)) (unread buffer wp (rp + 28) st)),
          drop (unat (rq_Length ?r)) (unread buffer wp (rp + 28) st)))"
      using hdr(2) by (simp add: parse nbd_types)
    from write_step [OF wp(1) rp refl this] data show ?thesis
      by (simp add: one_request_def Let_def nbd_types del: take_take)
  qed
qed

definition packets_step :: "nbd_env \<Rightarrow> byte list \<Rightarrow> nat \<Rightarrow> nat \<Rightarrow> handle_state \<Rightarrow>
    (nbd_error option \<times> handle_state) + (nat \<times> handle_state) \<Rightarrow> bool" where
  "packets_step env buffer wp rp st res =
     (case res of
        Inl (r, st') \<Rightarrow> (\<exists>cs. hs_cmds st' = hs_cmds st @ cs \<and> returns_on env (unread buffer wp rp st) cs r)
      | Inr (rp', st') \<Rightarrow> rp' \<le> wp \<and> wp - rp' < 28 \<and> segs_size (hs_segs st') \<le> segs_size (hs_segs st) \<and>
          (\<exists>cs. hs_cmds st' = hs_cmds st @ cs \<and>
             (\<forall>cs' r. returns_on env (unread buffer wp rp' st') cs' r \<longrightarrow> returns_on env (unread buffer wp rp st) (cs @ cs') r)))"

lemma packets_ok:
  assumes "wp \<le> length buffer" "rp \<le> wp"
  shows "packets_step env buffer wp rp st (packets env buffer wp rp st)"
  using assms
proof (induction env buffer wp rp st rule: packets.induct)
  case (1 env buffer wp rp st)
  let ?st = "st\<lparr>hs_selects := Suc (hs_selects st)\<rparr>"
  have u: "unread buffer wp r ?st = unread buffer wp r st" for r by (simp add: unread_def)
  show ?case
  proof (cases "e_select env (hs_selects st)")
    case (Some e)
    then have "\<not> quiet env" by (auto simp: quiet_def)
    then show ?thesis using Some returns_on_interrupted by (auto simp: packets.simps packets_step_def)
  next
    case None
    show ?thesis
    proof (cases "wp - rp < 28")
      case True
      then show ?thesis using None "1.prems" by (auto simp: packets.simps packets_step_def u)
    next
      case False
      then have step: "request_step env buffer wp rp ?st (one_request env buffer wp rp ?st)"
        using "1.prems" by (intro one_request_ok) simp_all
      show ?thesis
      proof (cases "one_request env buffer wp rp ?st")
        case (Inl q)
        then show ?thesis using step None False by (subst packets.simps) (auto simp: packets_step_def request_step_def u)
      next
        case (Inr q)
        obtain rp' st' where q: "q = (rp', st')" by (cases q)
        obtain c where c: "rp' \<le> wp" "segs_size (hs_segs st') \<le> segs_size (hs_segs st)" "hs_cmds st' = hs_cmds st @ [c]"
          "parse_request (unread buffer wp rp st) = Inr (c, unread buffer wp rp' st')"
          using step Inr q by (auto simp: request_step_def u)
        have "packets env buffer wp rp st = packets env buffer wp rp' st'"
          using None False Inr q by (subst packets.simps) simp
        with "1.IH" [OF None False Inr q [symmetric] "1.prems"(1) c(1)] c returns_on_Cons [OF c(4)] show ?thesis
          by (force simp: packets_step_def split: sum.splits)
      qed
    qed
  qed
qed

lemma handle_loop_ok:
  assumes "28 \<le> length buffer" "wp < 28"
  shows "\<exists>r cs. handle_loop env buffer wp st = Some (r, hs_cmds st @ cs) \<and>
    returns_on env (take wp buffer @ concat (hs_segs st)) cs r"
  using assms
proof (induction "segs_size (hs_segs st)" arbitrary: buffer wp st rule: less_induct)
  case less
  show ?case
  proof (cases "conn_read (length buffer - wp) (hs_segs st)")
    case (Inl e)
    note e = conn_read_end [OF Inl]
    have "parse_request (take wp buffer) = Inl NeedHeader" using less.prems by (simp add: parse_request_def)
    then show ?thesis using Inl e by (simp add: handle_loop.simps returns_on_Inl)
  next
    case (Inr q)
    obtain bs segs where q: "q = (bs, segs)" by (cases q)
    note c = conn_read_bytes [OF Inr [unfolded q]] conn_read_shrinks [OF Inr [unfolded q]]
    let ?b = "overwrite buffer wp bs" and ?w = "wp + length bs" and ?st = "st\<lparr>hs_segs := segs\<rparr>"
    have len: "length ?b = length buffer" "?w \<le> length ?b" using c less.prems by auto
    have u0: "unread ?b ?w 0 ?st = take wp buffer @ concat (hs_segs st)"
      using c(1) less.prems by (simp add: unread_def overwrite_def)
    note pk = packets_ok [OF len(2) le0, of env ?st]
    show ?thesis
    proof (cases "packets env ?b ?w 0 ?st")
      case ret: (Inl r)
      then show ?thesis using pk Inr q u0
        by (subst handle_loop.simps) (auto simp: packets_step_def)
    next
      case go: (Inr q')
      obtain rp st' where q': "q' = (rp, st')" by (cases q')
      let ?b' = "if rp \<noteq> 0 \<and> rp \<noteq> ?w then overwrite ?b 0 (take (?w - rp) (drop rp ?b)) else ?b"
      obtain cs where cs: "rp \<le> ?w" "?w - rp < 28" "segs_size (hs_segs st') \<le> segs_size segs" "hs_cmds st' = hs_cmds st @ cs"
        "\<And>cs' r. returns_on env (unread ?b ?w rp st') cs' r \<Longrightarrow> returns_on env (take wp buffer @ concat (hs_segs st)) (cs @ cs') r"
        using pk go q' u0 by (auto simp: packets_step_def)
      have b': "length ?b' = length buffer" "take (?w - rp) ?b' = take (?w - rp) (drop rp ?b)"
        using len cs(1) by (auto simp: overwrite_def min_def)
      have "segs_size (hs_segs st') < segs_size (hs_segs st)" using cs(3) c(2) less.prems by simp
      from less.hyps [OF this, of ?b' "?w - rp"] b' cs(2) less.prems(1) obtain r cs' where
        r: "handle_loop env ?b' (?w - rp) st' = Some (r, hs_cmds st' @ cs')"
           "returns_on env (unread ?b ?w rp st') cs' r" by (auto simp: unread_def)
      have "handle_loop env buffer wp st = handle_loop env ?b' (?w - rp) st'"
        using Inr q go q' by (subst handle_loop.simps) simp
      then show ?thesis using r cs(4) cs(5) [OF r(2)] by auto
    qed
  qed
qed

text \<open>
  C7. The read loop and the stream: whatever the sizes in which the bytes arrive and whatever the pooled buffer
  held before, \<open>Handle\<close> returns; the commands it issued are, in order, a prefix of the requests of the stream, and if
  nothing interrupts it they are all of them and its result is the one the stream's end calls for. In particular the
  buffer never fills up with an unfinished request.
\<close>

theorem Handle_parses_stream:
  assumes "length buffer = dispatchBufferSize"
  shows "\<exists>r cs. Handle env buffer segs = Some (r, cs) \<and> prefix cs (fst (parse_stream (concat segs))) \<and>
    (quiet env \<longrightarrow> cs = fst (parse_stream (concat segs)) \<and> r = ends_with (snd (parse_stream (concat segs))))"
  using handle_loop_ok [of buffer 0 env "\<lparr>hs_segs = segs, hs_selects = 0, hs_cmds = []\<rparr>"] assms
  by (simp add: Handle_def returns_on_def dispatchBufferSize_def)

text \<open>A client's stream: a write of four bytes, cut inside its header and inside its data, then a disconnect.\<close>

definition request_bytes :: "u16 \<Rightarrow> u64 \<Rightarrow> u64 \<Rightarrow> u32 \<Rightarrow> byte list" where
  "request_bytes ty h from' len =
     be_enc 4 (unat NBDRequestMagic) @ be_enc 2 0 @ be_enc 2 (unat ty) @ be_enc 8 (unat h) @ be_enc 8 (unat from') @ be_enc 4 (unat len)"

definition quiet_env :: nbd_env where
  "quiet_env = \<lparr>e_select = (\<lambda>_. None), e_cmd = (\<lambda>_ _. None)\<rparr>"

lemma get_request_bytes:
  "get_request (request_bytes ty h from' len) =
     \<lparr>rq_Magic = NBDRequestMagic, rq_Flags = 0, rq_Type = ty, rq_Handle = h, rq_From = from', rq_Length = len\<rparr>"
proof -
  have "unat (w :: u16) < 256 ^ 2" "unat (x :: u32) < 256 ^ 4" "unat (y :: u64) < 256 ^ 8" for w x y
    using unsigned_less [of w] unsigned_less [of x] unsigned_less [of y] by simp_all
  then show ?thesis by (simp add: get_request_def request_bytes_def be_dec_enc)
qed

theorem Handle_parses_stream_witness:
  "\<exists>r. Handle quiet_env (replicate dispatchBufferSize 170)
      [take 10 (request_bytes NBDCmdWrite 5 8192 4), drop 10 (request_bytes NBDCmdWrite 5 8192 4) @ [1, 2],
       [3, 4] @ request_bytes NBDCmdDisconnect 6 0 0] = Some (r, [CmdWrite 5 8192 [1, 2, 3, 4]]) \<and> r = None"
proof -
  let ?w = "request_bytes NBDCmdWrite 5 8192 4" and ?d = "request_bytes NBDCmdDisconnect 6 0 0"
  let ?segs = "[take 10 ?w, drop 10 ?w @ [1, 2], [3, 4] @ ?d]"
  have len: "length ?w = 28" "length ?d = 28" by (simp_all add: request_bytes_def)
  have "concat ?segs = ?w @ [1, 2, 3, 4] @ ?d" by simp
  moreover have "parse_request (?w @ [1, 2, 3, 4] @ ?d) = Inr (CmdWrite 5 8192 [1, 2, 3, 4], ?d)"
    using len by (simp add: parse_request_def get_request_bytes nbd_types dispatchMaxWriteBufferSize_def)
  moreover have "parse_request ?d = Inl (Stopped None)"
    using len by (simp add: parse_request_def get_request_bytes nbd_types)
  ultimately have "parse_stream (concat ?segs) = ([CmdWrite 5 8192 [1, 2, 3, 4]], Stopped None)"
    by (simp only: parse_stream_Inl parse_stream_Inr fst_conv snd_conv)
  then show ?thesis
    using Handle_parses_stream [of "replicate dispatchBufferSize 170" quiet_env ?segs]
    by (auto simp: quiet_def quiet_env_def)
qed

end
