(* ===== verification/Nbd_Serve.thy ===== *)
theory Nbd_Serve
  imports Nbd_Dispatch
begin

text \<open>
  Serving the requests of an NBD connection (\<open>cmdRead\<close>, \<open>cmdWrite\<close>, \<open>cmdWriteZeroes\<close>, \<open>writeResponse\<close> and \<open>Drain\<close> of
  \<open>packages/orchestrator/pkg/sandbox/nbd/dispatch.go\<close>). Every command is a goroutine that waits for the provider call it
  started, or for the context, then takes the write lock, fills the shared response header and writes it and the data to the socket. A goroutine
  moves from one shared access to the next; the interleavings of the read loop, the goroutines, cancellation and \<open>Drain\<close> are a step relation.
\<close>

section \<open>Commands and responses\<close>

text \<open>The provider of the disk is a parameter: its state, and what a call returns. An error is the provider's, or
  the fault that \<open>RunFaultSafe\<close> caught.\<close>

record 'p Provider =
  pv_ReadAt :: "'p \<Rightarrow> byte list \<Rightarrow> i64 \<Rightarrow> 'p \<times> byte list \<times> string option"
  pv_WriteAt :: "'p \<Rightarrow> byte list \<Rightarrow> i64 \<Rightarrow> 'p \<times> string option"
  pv_WriteZeroesAt :: "'p \<Rightarrow> i64 \<Rightarrow> i64 \<Rightarrow> 'p \<times> string option"

type_synonym call_result = "byte list \<times> string option"

fun provider_call :: "'p Provider \<Rightarrow> nbd_cmd \<Rightarrow> 'p \<Rightarrow> 'p \<times> call_result" where
  "provider_call P (CmdRead h from' len) p = pv_ReadAt P p (replicate (unat len) 0) from'"
| "provider_call P (CmdWrite h from' data) p = (case pv_WriteAt P p data from' of (p', e) \<Rightarrow> (p', [], e))"
| "provider_call P (CmdWriteZeroes h from' len) p = (case pv_WriteZeroesAt P p from' len of (p', e) \<Rightarrow> (p', [], e))"

fun cmd_handle :: "nbd_cmd \<Rightarrow> u64" where
  "cmd_handle (CmdRead h _ _) = h"
| "cmd_handle (CmdWrite h _ _) = h"
| "cmd_handle (CmdWriteZeroes h _ _) = h"

text \<open>The response of \<open>performRead\<close>, \<open>performWrite\<close> and \<open>performWriteZeroes\<close> to a result: the error word and the chunk.\<close>

definition response_to :: "call_result \<Rightarrow> u32 \<times> byte list" where
  "response_to r = (case snd r of Some e \<Rightarrow> (1, []) | None \<Rightarrow> (0, fst r))"

definition response_header :: "u32 \<Rightarrow> u64 \<Rightarrow> byte list" where
  "response_header respError respHandle =
     be_enc 4 (unat NBDResponseMagic) @ be_enc 4 (unat respError) @ be_enc 8 (unat respHandle)"

section \<open>The state of a connection\<close>

text \<open>The goroutine of a command: before and after its provider call has returned; in \<open>writeResponse\<close> before it has the write lock, after it
  filled the header, after it wrote the header and has the chunk left to write; and when \<open>writeResponse\<close> has returned.\<close>

datatype task =
    Calling nbd_cmd
  | Called nbd_cmd call_result
  | Responding nbd_cmd u32 "byte list"
  | Writing nbd_cmd u32 "byte list"
  | HeaderSent nbd_cmd u32 "byte list"
  | Finishing nbd_cmd "nbd_error option"

fun task_cmd :: "task \<Rightarrow> nbd_cmd" where
  "task_cmd (Calling c) = c"
| "task_cmd (Called c _) = c"
| "task_cmd (Responding c _ _) = c"
| "task_cmd (Writing c _ _) = c"
| "task_cmd (HeaderSent c _ _) = c"
| "task_cmd (Finishing c _) = c"

text \<open>\<open>d_queue\<close> holds the commands the read loop will issue, \<open>d_detached\<close> the provider calls whose goroutine no longer
  waits for them. The last four components record what happened: the commands accepted, the provider calls in their
  order, the responses in the order in which they got the write lock, and whether a socket write failed.\<close>

record 'p Dispatch =
  d_prov :: 'p
  d_queue :: "nbd_cmd list"
  d_stopped :: bool
  d_tasks :: "task multiset"
  d_detached :: "nbd_cmd multiset"
  d_pendingResponses :: nat
  d_shuttingDown :: bool
  d_drained :: bool
  d_fatal :: "nbd_error option"
  d_asyncWriteZeroes :: bool
  d_writeLock :: bool
  d_responseHeader :: "byte list"
  d_ctxDone :: bool
  d_out :: "byte list"
  d_accepted :: "nbd_cmd list"
  d_calls :: "(nbd_cmd \<times> call_result) list"
  d_replies :: "(nbd_cmd \<times> u32 \<times> byte list) list"
  d_failed :: bool

definition NewDispatch :: "'p \<Rightarrow> bool \<Rightarrow> nbd_cmd list \<Rightarrow> 'p Dispatch" where
  "NewDispatch prov asyncWriteZeroes q =
     \<lparr>d_prov = prov, d_queue = q, d_stopped = False, d_tasks = {#}, d_detached = {#}, d_pendingResponses = 0,
      d_shuttingDown = False, d_drained = False, d_fatal = None, d_asyncWriteZeroes = asyncWriteZeroes, d_writeLock = False,
      d_responseHeader = overwrite (replicate 16 0) 0 (be_enc 4 (unat NBDResponseMagic)), d_ctxDone = False,
      d_out = [], d_accepted = [], d_calls = [], d_replies = [], d_failed = False\<rparr>"

text \<open>Which commands \<open>pendingResponses\<close> counts: all but a write of zeros that runs on the read loop itself.\<close>

fun counted :: "bool \<Rightarrow> nbd_cmd \<Rightarrow> bool" where
  "counted async (CmdWriteZeroes _ _ _) = async"
| "counted async c = True"

definition start_task :: "nbd_cmd \<Rightarrow> 'p Dispatch \<Rightarrow> 'p Dispatch" where
  "start_task c d = d\<lparr>d_tasks := add_mset (Calling c) (d_tasks d), d_accepted := d_accepted d @ [c]\<rparr>"

definition cmdRead :: "u64 \<Rightarrow> u64 \<Rightarrow> u32 \<Rightarrow> 'p Dispatch \<Rightarrow> nbd_error + 'p Dispatch" where
  "cmdRead cmdHandle cmdFrom cmdLength d =
     (if d_shuttingDown d then Inl ErrShuttingDown
      else Inr (start_task (CmdRead cmdHandle cmdFrom cmdLength) (d\<lparr>d_pendingResponses := d_pendingResponses d + 1\<rparr>)))"

definition cmdWrite :: "u64 \<Rightarrow> u64 \<Rightarrow> byte list \<Rightarrow> 'p Dispatch \<Rightarrow> nbd_error + 'p Dispatch" where
  "cmdWrite cmdHandle cmdFrom cmdData d =
     (if d_shuttingDown d then Inl ErrShuttingDown
      else Inr (start_task (CmdWrite cmdHandle cmdFrom cmdData) (d\<lparr>d_pendingResponses := d_pendingResponses d + 1\<rparr>)))"

definition cmdWriteZeroes :: "u64 \<Rightarrow> u64 \<Rightarrow> i64 \<Rightarrow> 'p Dispatch \<Rightarrow> nbd_error + 'p Dispatch" where
  "cmdWriteZeroes cmdHandle cmdFrom cmdLength d =
     (if \<not> d_asyncWriteZeroes d then Inr (start_task (CmdWriteZeroes cmdHandle cmdFrom cmdLength) d)
      else if d_shuttingDown d then Inl ErrShuttingDown
      else Inr (start_task (CmdWriteZeroes cmdHandle cmdFrom cmdLength) (d\<lparr>d_pendingResponses := d_pendingResponses d + 1\<rparr>)))"

fun issue_cmd :: "nbd_cmd \<Rightarrow> 'p Dispatch \<Rightarrow> nbd_error + 'p Dispatch" where
  "issue_cmd (CmdRead h from' len) d = cmdRead h from' len d"
| "issue_cmd (CmdWrite h from' data) d = cmdWrite h from' data d"
| "issue_cmd (CmdWriteZeroes h from' len) d = cmdWriteZeroes h from' len d"

text \<open>The read loop is blocked while a write of zeros runs on it.\<close>

definition inline_busy :: "'p Dispatch \<Rightarrow> bool" where
  "inline_busy d \<longleftrightarrow> filter_mset (\<lambda>t. \<not> counted (d_asyncWriteZeroes d) (task_cmd t)) (d_tasks d) \<noteq> {#}"

definition move_task :: "task \<Rightarrow> task \<Rightarrow> 'p Dispatch \<Rightarrow> 'p Dispatch" where
  "move_task t t' d = d\<lparr>d_tasks := add_mset t' (d_tasks d - {#t#})\<rparr>"

text \<open>\<open>writeResponse\<close>, from one access to the next. It takes the write lock, if that is free, and fills the header; it writes the header, whatever
  its bytes are then; it writes the chunk, if there is one. \<open>w\<close> is the failure of a socket write, with the number of bytes sent before it. The lock is released on return.\<close>

definition writeResponse_lock :: "nbd_cmd \<Rightarrow> u32 \<Rightarrow> byte list \<Rightarrow> 'p Dispatch \<Rightarrow> 'p Dispatch option" where
  "writeResponse_lock c respError chunk d =
     (if d_writeLock d then None
      else Some (move_task (Responding c respError chunk) (Writing c respError chunk)
        (d\<lparr>d_writeLock := True,
           d_responseHeader := overwrite (overwrite (d_responseHeader d) 4 (be_enc 4 (unat respError))) 8 (be_enc 8 (unat (cmd_handle c))),
           d_replies := d_replies d @ [(c, respError, chunk)]\<rparr>)))"

definition writeResponse_return :: "task \<Rightarrow> nbd_cmd \<Rightarrow> nbd_error option \<Rightarrow> 'p Dispatch \<Rightarrow> 'p Dispatch" where
  "writeResponse_return t c err d = move_task t (Finishing c err) (d\<lparr>d_writeLock := False, d_failed := (d_failed d \<or> err \<noteq> None)\<rparr>)"

definition writeResponse_header :: "(nat \<times> string) option \<Rightarrow> nbd_cmd \<Rightarrow> u32 \<Rightarrow> byte list \<Rightarrow> 'p Dispatch \<Rightarrow> 'p Dispatch" where
  "writeResponse_header w c respError chunk d =
     (case w of
        Some (n, e) \<Rightarrow> writeResponse_return (Writing c respError chunk) c (Some (SocketError e)) (d\<lparr>d_out := d_out d @ take n (d_responseHeader d)\<rparr>)
      | None \<Rightarrow>
          let d' = d\<lparr>d_out := d_out d @ d_responseHeader d\<rparr>
          in if chunk \<noteq> [] then move_task (Writing c respError chunk) (HeaderSent c respError chunk) d'
             else writeResponse_return (Writing c respError chunk) c None d')"

definition writeResponse_chunk :: "(nat \<times> string) option \<Rightarrow> nbd_cmd \<Rightarrow> u32 \<Rightarrow> byte list \<Rightarrow> 'p Dispatch \<Rightarrow> 'p Dispatch" where
  "writeResponse_chunk w c respError chunk d =
     (case w of
        Some (n, e) \<Rightarrow> writeResponse_return (HeaderSent c respError chunk) c (Some (SocketError e)) (d\<lparr>d_out := d_out d @ take n chunk\<rparr>)
      | None \<Rightarrow> writeResponse_return (HeaderSent c respError chunk) c None (d\<lparr>d_out := d_out d @ chunk\<rparr>))"

text \<open>The end of a goroutine: the error of a failed socket write goes to the channel \<open>fatal\<close> of
  capacity one, or to the read loop when the command ran there, which returns it; and \<open>pendingResponses.Done\<close>.\<close>

definition finish_task :: "nbd_cmd \<Rightarrow> nbd_error option \<Rightarrow> 'p Dispatch \<Rightarrow> 'p Dispatch" where
  "finish_task c err d =
     (let d' = d\<lparr>d_tasks := d_tasks d - {#Finishing c err#}\<rparr>
      in if counted (d_asyncWriteZeroes d) c
         then d'\<lparr>d_fatal := (case d_fatal d of None \<Rightarrow> err | Some e \<Rightarrow> Some e),
                 d_pendingResponses := d_pendingResponses d - 1\<rparr>
         else d'\<lparr>d_stopped := (d_stopped d \<or> err \<noteq> None)\<rparr>)"

definition run_call :: "'p Provider \<Rightarrow> nbd_cmd \<Rightarrow> 'p Dispatch \<Rightarrow> 'p Dispatch" where
  "run_call P c d =
     (case provider_call P c (d_prov d) of (p, r) \<Rightarrow> d\<lparr>d_prov := p, d_calls := d_calls d @ [(c, r)]\<rparr>)"

text \<open>\<open>Drain\<close> sets the flag and waits, holding \<open>shuttingDownLock\<close>, until nothing is pending.\<close>

definition Drain :: "'p Dispatch \<Rightarrow> 'p Dispatch" where
  "Drain d = d\<lparr>d_shuttingDown := True\<rparr>"

definition Drain_wait :: "'p Dispatch \<Rightarrow> 'p Dispatch option" where
  "Drain_wait d = (if d_shuttingDown d \<and> d_pendingResponses d = 0 then Some (d\<lparr>d_drained := True\<rparr>) else None)"

definition lock_free :: "'p Dispatch \<Rightarrow> bool" where
  "lock_free d \<longleftrightarrow> (d_shuttingDown d \<longrightarrow> d_drained d)"

section \<open>Interleavings\<close>

text \<open>A command that is not counted takes no \<open>shuttingDownLock\<close>. The read loop returns between two commands: on a read error, the end of the stream, the context or \<open>fatal\<close>.\<close>

inductive nbd_step :: "'p Provider \<Rightarrow> 'p Dispatch \<Rightarrow> 'p Dispatch \<Rightarrow> bool" for P where
  issue: "\<not> d_stopped d \<Longrightarrow> \<not> inline_busy d \<Longrightarrow> counted (d_asyncWriteZeroes d) c \<longrightarrow> lock_free d \<Longrightarrow> d_queue d = c # cs \<Longrightarrow> issue_cmd c d = Inr d' \<Longrightarrow>
    nbd_step P d (d'\<lparr>d_queue := cs\<rparr>)"
| refuse: "\<not> d_stopped d \<Longrightarrow> \<not> inline_busy d \<Longrightarrow> lock_free d \<Longrightarrow> d_queue d = c # cs \<Longrightarrow> issue_cmd c d = Inl e \<Longrightarrow>
    nbd_step P d (d\<lparr>d_stopped := True\<rparr>)"
| stop: "nbd_step P d (d\<lparr>d_stopped := True, d_fatal := f\<rparr>)" if "\<not> inline_busy d" "f = None \<or> f = d_fatal d"
| call: "nbd_step P d (move_task (Calling c) (Called c (snd (provider_call P c (d_prov d)))) (run_call P c d))"
    if "Calling c \<in># d_tasks d"
| reply: "nbd_step P d (move_task (Called c r) (Responding c (fst (response_to r)) (snd (response_to r))) d)" if "Called c r \<in># d_tasks d"
| cancel_waiting: "nbd_step P d (move_task (Calling c) (Responding c 1 []) (d\<lparr>d_detached := add_mset c (d_detached d)\<rparr>))"
    if "d_ctxDone d" "Calling c \<in># d_tasks d"
| cancel_called: "nbd_step P d (move_task (Called c r) (Responding c 1 []) d)"
    if "d_ctxDone d" "Called c r \<in># d_tasks d"
| lock: "nbd_step P d d'" if "Responding c e chunk \<in># d_tasks d" "writeResponse_lock c e chunk d = Some d'"
| header: "nbd_step P d (writeResponse_header w c e chunk d)" if "Writing c e chunk \<in># d_tasks d"
| chunk: "nbd_step P d (writeResponse_chunk w c e chunk d)" if "HeaderSent c e chunk \<in># d_tasks d"
| finish: "nbd_step P d (finish_task c err d)" if "Finishing c err \<in># d_tasks d"
| late_call: "nbd_step P d (run_call P c (d\<lparr>d_detached := d_detached d - {#c#}\<rparr>))" if "c \<in># d_detached d"
| ctx_done: "nbd_step P d (d\<lparr>d_ctxDone := True\<rparr>)"
| drain: "nbd_step P d (Drain d)"
| drain_wait: "nbd_step P d d'" if "Drain_wait d = Some d'"

inductive nbd_reaches :: "'p Provider \<Rightarrow> 'p Dispatch \<Rightarrow> 'p Dispatch \<Rightarrow> bool" for P d where
  start: "nbd_reaches P d d"
| next_step: "nbd_reaches P d d' \<Longrightarrow> nbd_step P d' d'' \<Longrightarrow> nbd_reaches P d d''"

section \<open>The invariant\<close>

definition reply_bytes :: "nbd_cmd \<times> u32 \<times> byte list \<Rightarrow> byte list" where
  "reply_bytes x = (case x of (c, e, chunk) \<Rightarrow> response_header e (cmd_handle c) @ chunk)"

fun is_calling :: "task \<Rightarrow> bool" where
  "is_calling (Calling _) = True"
| "is_calling _ = False"

text \<open>The goroutines that have not got as far as their response, and those in the critical section.\<close>

fun unanswered :: "task \<Rightarrow> bool" where
  "unanswered (Calling _) = True"
| "unanswered (Called _ _) = True"
| "unanswered (Responding _ _ _) = True"
| "unanswered _ = False"

fun holds_lock :: "task \<Rightarrow> bool" where
  "holds_lock (Writing _ _ _) = True"
| "holds_lock (HeaderSent _ _ _) = True"
| "holds_lock _ = False"

definition apply_calls :: "'p Provider \<Rightarrow> (nbd_cmd \<times> call_result) list \<Rightarrow> 'p \<Rightarrow> 'p" where
  "apply_calls P cs p = fold (\<lambda>(c, r) p. fst (provider_call P c p)) cs p"

text \<open>A provider's history: every recorded result is the one the call gives after the calls before it.\<close>

fun history :: "'p Provider \<Rightarrow> (nbd_cmd \<times> call_result) list \<Rightarrow> 'p \<Rightarrow> bool" where
  "history P [] p = True"
| "history P ((c, r) # cs) p = (r = snd (provider_call P c p) \<and> history P cs (fst (provider_call P c p)))"

lemma history_snoc:
  "history P (cs @ [(c, r)]) p \<longleftrightarrow> history P cs p \<and> r = snd (provider_call P c (apply_calls P cs p))"
proof (induction cs arbitrary: p)
  case (Cons x cs)
  obtain c' r' where "x = (c', r')" by (cases x)
  then show ?case using Cons.IH by (simp add: apply_calls_def)
qed (simp add: apply_calls_def)

definition answered_inv :: "nbd_cmd list \<Rightarrow> 'p Dispatch \<Rightarrow> bool" where
  "answered_inv q d \<longleftrightarrow> d_accepted d @ d_queue d = q \<and>
     mset (d_accepted d) = image_mset task_cmd (filter_mset unanswered (d_tasks d)) + mset (map fst (d_replies d)) \<and>
     d_pendingResponses d = size (filter_mset (\<lambda>t. counted (d_asyncWriteZeroes d) (task_cmd t)) (d_tasks d)) \<and>
     size (filter_mset (\<lambda>t. \<not> counted (d_asyncWriteZeroes d) (task_cmd t)) (d_tasks d)) \<le> (if d_stopped d then 0 else 1) \<and>
     (d_drained d \<longrightarrow> d_shuttingDown d \<and> d_pendingResponses d = 0)"

text \<open>The write lock has one holder at most, the header has the magic number, and the socket has got all responses but what the holder has left to write.\<close>

definition wire_inv :: "'p Dispatch \<Rightarrow> bool" where
  "wire_inv d \<longleftrightarrow> size (filter_mset holds_lock (d_tasks d)) = (if d_writeLock d then 1 else 0) \<and>
     length (d_responseHeader d) = 16 \<and> take 4 (d_responseHeader d) = be_enc 4 (unat NBDResponseMagic) \<and>
     (\<forall>c e chunk. Writing c e chunk \<in># d_tasks d \<longrightarrow> d_responseHeader d = response_header e (cmd_handle c) \<and>
        (\<not> d_failed d \<longrightarrow> (\<exists>rs. d_replies d = rs @ [(c, e, chunk)] \<and> d_out d = concat (map reply_bytes rs)))) \<and>
     (\<forall>c e chunk. HeaderSent c e chunk \<in># d_tasks d \<longrightarrow>
        (\<not> d_failed d \<longrightarrow> (\<exists>rs. d_replies d = rs @ [(c, e, chunk)] \<and> d_out d = concat (map reply_bytes rs) @ response_header e (cmd_handle c)))) \<and>
     (\<not> d_failed d \<and> \<not> d_writeLock d \<longrightarrow> d_out d = concat (map reply_bytes (d_replies d)))"

definition effects_inv :: "'p Provider \<Rightarrow> 'p \<Rightarrow> 'p Dispatch \<Rightarrow> bool" where
  "effects_inv P p0 d \<longleftrightarrow> d_prov d = apply_calls P (d_calls d) p0 \<and> history P (d_calls d) p0 \<and>
     mset (d_accepted d) = mset (map fst (d_calls d)) + image_mset task_cmd (filter_mset is_calling (d_tasks d)) + d_detached d \<and>
     (\<forall>c r. Called c r \<in># d_tasks d \<longrightarrow> (c, r) \<in> set (d_calls d)) \<and>
     (\<forall>c chunk. Responding c 0 chunk \<in># d_tasks d \<longrightarrow> (c, chunk, None) \<in> set (d_calls d)) \<and>
     (\<forall>c chunk. (c, 0, chunk) \<in> set (d_replies d) \<longrightarrow> (c, chunk, None) \<in> set (d_calls d))"

section \<open>Every step keeps it\<close>

lemma issue_cmd_Inr:
  assumes "issue_cmd c d = Inr d'"
  shows "d' = d\<lparr>d_tasks := add_mset (Calling c) (d_tasks d), d_accepted := d_accepted d @ [c],
      d_pendingResponses := d_pendingResponses d + (if counted (d_asyncWriteZeroes d) c then 1 else 0)\<rparr>"
    and "counted (d_asyncWriteZeroes d) c \<Longrightarrow> \<not> d_shuttingDown d"
  using assms
  by (cases c; auto simp: cmdRead_def cmdWrite_def cmdWriteZeroes_def start_task_def split: if_splits)+

lemma run_call_eq:
  "run_call P c d = d\<lparr>d_prov := fst (provider_call P c (d_prov d)), d_calls := d_calls d @ [(c, snd (provider_call P c (d_prov d)))]\<rparr>"
  by (simp add: run_call_def split: prod.splits)

lemma length_response_header: "length (response_header e h) = 16" "take 4 (response_header e h) = be_enc 4 (unat NBDResponseMagic)"
  by (simp_all add: response_header_def)

lemma put_header:
  assumes "length hdr = 16" "take 4 hdr = be_enc 4 (unat NBDResponseMagic)"
  shows "overwrite (overwrite hdr 4 (be_enc 4 (unat e))) 8 (be_enc 8 (unat h)) = response_header e h"
  using assms by (simp add: overwrite_def response_header_def)

text \<open>The steps of \<open>writeResponse\<close> and the end of a goroutine, on the components the invariants speak of.\<close>

lemma move_task_eq:
  assumes "d_tasks d = add_mset t rest"
  shows "move_task t t' d = d\<lparr>d_tasks := add_mset t' rest\<rparr>"
  using assms by (simp add: move_task_def)

lemma header_cases:
  assumes "d_tasks d = add_mset (Writing c e chunk) rest"
  obtains (failed) n x where "writeResponse_header w c e chunk d = d\<lparr>d_out := d_out d @ take n (d_responseHeader d), d_writeLock := False, d_failed := True,
      d_tasks := add_mset (Finishing c (Some (SocketError x))) rest\<rparr>"
  | (more) "chunk \<noteq> []" "writeResponse_header w c e chunk d = d\<lparr>d_out := d_out d @ d_responseHeader d, d_tasks := add_mset (HeaderSent c e chunk) rest\<rparr>"
  | (whole) "chunk = []" "writeResponse_header w c e chunk d = d\<lparr>d_out := d_out d @ d_responseHeader d, d_writeLock := False,
      d_tasks := add_mset (Finishing c None) rest\<rparr>"
  using assms by (cases w) (auto simp: writeResponse_header_def writeResponse_return_def move_task_def Let_def)

lemma chunk_cases:
  assumes "d_tasks d = add_mset (HeaderSent c e chunk) rest"
  obtains (failed) n x where "writeResponse_chunk w c e chunk d = d\<lparr>d_out := d_out d @ take n chunk, d_writeLock := False, d_failed := True,
      d_tasks := add_mset (Finishing c (Some (SocketError x))) rest\<rparr>"
  | (whole) "writeResponse_chunk w c e chunk d = d\<lparr>d_out := d_out d @ chunk, d_writeLock := False, d_tasks := add_mset (Finishing c None) rest\<rparr>"
  using assms by (cases w) (auto simp: writeResponse_chunk_def writeResponse_return_def move_task_def)

lemma lock_eq:
  assumes "d_tasks d = add_mset (Responding c e chunk) rest" "writeResponse_lock c e chunk d = Some d'"
  shows "\<not> d_writeLock d"
    "d' = d\<lparr>d_writeLock := True, d_replies := d_replies d @ [(c, e, chunk)], d_tasks := add_mset (Writing c e chunk) rest,
       d_responseHeader := overwrite (overwrite (d_responseHeader d) 4 (be_enc 4 (unat e))) 8 (be_enc 8 (unat (cmd_handle c)))\<rparr>"
  using assms by (auto simp: writeResponse_lock_def move_task_def split: if_splits)

lemma finish_eq:
  assumes "d_tasks d = add_mset (Finishing c err) rest"
  shows "finish_task c err d = d\<lparr>d_tasks := rest, d_fatal := (if counted (d_asyncWriteZeroes d) c \<and> d_fatal d = None then err else d_fatal d),
    d_pendingResponses := (if counted (d_asyncWriteZeroes d) c then d_pendingResponses d - 1 else d_pendingResponses d),
    d_stopped := (d_stopped d \<or> \<not> counted (d_asyncWriteZeroes d) c \<and> err \<noteq> None)\<rparr>"
  using assms by (auto simp: finish_task_def Let_def split: option.splits)

lemma answered_step:
  assumes "nbd_step P d d'" "answered_inv q d"
  shows "answered_inv q d'"
  using assms
proof (cases rule: nbd_step.cases)
  case (issue c cs d1)
  then show ?thesis using assms(2) issue_cmd_Inr [OF issue(6)] by (auto simp: answered_inv_def lock_free_def inline_busy_def)
next
  case (stop f)
  then show ?thesis using assms(2) by (auto simp: answered_inv_def inline_busy_def)
next
  case (refuse c cs e)
  then show ?thesis using assms(2) by (auto simp: answered_inv_def inline_busy_def)
next
  case (call c)
  obtain rest where "d_tasks d = add_mset (Calling c) rest" using call(2) by (metis multi_member_split)
  then show ?thesis using call(1) assms(2) by (auto simp: answered_inv_def run_call_eq move_task_eq)
next
  case (reply c r)
  obtain rest where "d_tasks d = add_mset (Called c r) rest" using reply(2) by (metis multi_member_split)
  then show ?thesis using reply(1) assms(2) by (auto simp: answered_inv_def move_task_eq)
next
  case (cancel_waiting c)
  obtain rest where "d_tasks d = add_mset (Calling c) rest" using cancel_waiting(3) by (metis multi_member_split)
  then show ?thesis using cancel_waiting(1) assms(2) by (auto simp: answered_inv_def move_task_eq)
next
  case (cancel_called c r)
  obtain rest where "d_tasks d = add_mset (Called c r) rest" using cancel_called(3) by (metis multi_member_split)
  then show ?thesis using cancel_called(1) assms(2) by (auto simp: answered_inv_def move_task_eq)
next
  case (lock c e chunk)
  obtain rest where "d_tasks d = add_mset (Responding c e chunk) rest" using lock(1) by (metis multi_member_split)
  then show ?thesis using lock_eq(2) [OF _ lock(2)] assms(2) by (auto simp: answered_inv_def)
next
  case (header c e chunk w)
  obtain rest where r: "d_tasks d = add_mset (Writing c e chunk) rest" using header(2) by (metis multi_member_split)
  show ?thesis unfolding header(1) using r assms(2) by (cases rule: header_cases [OF r, of w]) (auto simp: answered_inv_def)
next
  case (chunk c e ch w)
  obtain rest where r: "d_tasks d = add_mset (HeaderSent c e ch) rest" using chunk(2) by (metis multi_member_split)
  show ?thesis unfolding chunk(1) using r assms(2) by (cases rule: chunk_cases [OF r, of w]) (auto simp: answered_inv_def)
next
  case (finish c err)
  obtain rest where r: "d_tasks d = add_mset (Finishing c err) rest" using finish(2) by (metis multi_member_split)
  let ?u = "filter_mset (\<lambda>t. \<not> counted (d_asyncWriteZeroes d) (task_cmd t)) rest"
  have "size ?u \<le> (if d_stopped d \<or> \<not> counted (d_asyncWriteZeroes d) c then 0 else 1)"
    using assms(2) r by (auto simp: answered_inv_def split: if_splits)
  then have "size ?u \<le> (if d_stopped (finish_task c err d) then 0 else 1)" by (rule order_trans) (simp add: finish_eq [OF r])
  moreover have "d_pendingResponses (finish_task c err d) = size (filter_mset (\<lambda>t. counted (d_asyncWriteZeroes d) (task_cmd t)) rest)"
    using assms(2) r by (simp add: answered_inv_def finish_eq)
  moreover have "d_drained d \<longrightarrow> size (filter_mset (\<lambda>t. counted (d_asyncWriteZeroes d) (task_cmd t)) rest) = 0"
    using assms(2) r by (auto simp: answered_inv_def split: if_splits)
  ultimately show ?thesis using r assms(2) unfolding finish(1) answered_inv_def finish_eq [OF r] by simp
qed (use assms(2) in \<open>auto simp: answered_inv_def run_call_eq Drain_def Drain_wait_def split: if_splits\<close>)

text \<open>The holder of the lock is the only one: nobody else is in the critical section.\<close>

lemma wire_alone:
  assumes "wire_inv d" "d_tasks d = add_mset t rest" "holds_lock t"
  shows "d_writeLock d" "\<And>t'. t' \<in># rest \<Longrightarrow> \<not> holds_lock t'"
  using assms by (auto simp: wire_inv_def split: if_splits)

lemma wire_quiet:
  assumes inv: "wire_inv d" and t: "d_tasks d = rest + ts" "\<And>t. t \<in># ts \<Longrightarrow> \<not> holds_lock t" "\<And>t. t \<in># ts' \<Longrightarrow> \<not> holds_lock t"
    and d': "d_tasks d' = rest + ts'" "d_writeLock d' = d_writeLock d" "d_responseHeader d' = d_responseHeader d" "d_failed d' = d_failed d"
      "d_replies d' = d_replies d" "d_out d' = d_out d"
  shows "wire_inv d'"
proof -
  have f: "filter_mset holds_lock ts = {#}" "filter_mset holds_lock ts' = {#}" using t(2,3) by (simp_all add: filter_mset_eq_conv)
  have "Writing c e chunk \<in># d_tasks d' \<longleftrightarrow> Writing c e chunk \<in># d_tasks d" "HeaderSent c e chunk \<in># d_tasks d' \<longleftrightarrow> HeaderSent c e chunk \<in># d_tasks d"
    for c e chunk using t d'(1) by (auto dest: t(2,3))
  then show ?thesis using inv f t(1) d' unfolding wire_inv_def by simp
qed

lemma wire_same:
  assumes "wire_inv d" "d_tasks d' = d_tasks d" "d_writeLock d' = d_writeLock d" "d_responseHeader d' = d_responseHeader d" "d_failed d' = d_failed d"
    "d_replies d' = d_replies d" "d_out d' = d_out d"
  shows "wire_inv d'"
  using wire_quiet [OF assms(1), of "d_tasks d" "{#}" "{#}" d'] assms(2-) by simp

lemma wire_move:
  assumes "wire_inv d" "d_tasks d = add_mset t rest" "\<not> holds_lock t" "\<not> holds_lock t'"
    and "d_tasks d' = add_mset t' rest" "d_writeLock d' = d_writeLock d" "d_responseHeader d' = d_responseHeader d" "d_failed d' = d_failed d"
      "d_replies d' = d_replies d" "d_out d' = d_out d"
  shows "wire_inv d'"
  using wire_quiet [OF assms(1), of rest "{#t#}" "{#t'#}" d'] assms(2-) by simp

lemma wire_lock:
  assumes inv: "wire_inv d" and r: "d_tasks d = add_mset (Responding c e chunk) rest" and l: "writeResponse_lock c e chunk d = Some d'"
  shows "wire_inv d'"
proof -
  note eq = lock_eq [OF r l]
  have none: "\<not> holds_lock t" if "t \<in># rest" for t using inv eq(1) r that by (auto simp: wire_inv_def filter_mset_eq_conv)
  have "filter_mset holds_lock rest = {#}" using none by (auto simp: filter_mset_eq_conv)
  moreover have "Writing c' e' ch' \<notin># rest" "HeaderSent c' e' ch' \<notin># rest" for c' e' ch' using none by fastforce+
  moreover have h: "d_responseHeader d' = response_header e (cmd_handle c)"
    unfolding eq(2) using inv by (simp add: wire_inv_def put_header)
  moreover have "\<not> d_failed d \<Longrightarrow> d_out d = concat (map reply_bytes (d_replies d))" using inv eq(1) by (simp add: wire_inv_def)
  ultimately show ?thesis using h length_response_header unfolding wire_inv_def by (auto simp: eq(2))
qed

lemma wire_header:
  assumes inv: "wire_inv d" and r: "d_tasks d = add_mset (Writing c e chunk) rest"
  shows "wire_inv (writeResponse_header w c e chunk d)"
proof -
  note alone = wire_alone [OF inv r]
  have q: "filter_mset holds_lock rest = {#}" "Writing c' e' ch' \<notin># rest" "HeaderSent c' e' ch' \<notin># rest" for c' e' ch'
    using alone(2) by (fastforce simp: filter_mset_eq_conv)+
  have h: "d_responseHeader d = response_header e (cmd_handle c)"
    and o: "\<not> d_failed d \<Longrightarrow> \<exists>rs. d_replies d = rs @ [(c, e, chunk)] \<and> d_out d = concat (map reply_bytes rs)"
    using inv r unfolding wire_inv_def by auto
  show ?thesis
    using r
  proof (cases rule: header_cases [where w = w])
    case (failed n x)
    then show ?thesis using q inv h by (simp add: wire_inv_def)
  next
    case more
    then show ?thesis using q inv h o alone(1) by (auto simp: wire_inv_def)
  next
    case whole
    then show ?thesis using q inv h o by (auto simp: wire_inv_def reply_bytes_def)
  qed
qed

lemma wire_chunk:
  assumes inv: "wire_inv d" and r: "d_tasks d = add_mset (HeaderSent c e chunk) rest"
  shows "wire_inv (writeResponse_chunk w c e chunk d)"
proof -
  note alone = wire_alone [OF inv r]
  have q: "filter_mset holds_lock rest = {#}" "Writing c' e' ch' \<notin># rest" "HeaderSent c' e' ch' \<notin># rest" for c' e' ch'
    using alone(2) by (fastforce simp: filter_mset_eq_conv)+
  have o: "\<not> d_failed d \<Longrightarrow> \<exists>rs. d_replies d = rs @ [(c, e, chunk)] \<and> d_out d = concat (map reply_bytes rs) @ response_header e (cmd_handle c)"
    using inv r unfolding wire_inv_def by auto
  show ?thesis
    using r
  proof (cases rule: chunk_cases [where w = w])
    case (failed n x)
    then show ?thesis using q inv by (simp add: wire_inv_def)
  next
    case whole
    then show ?thesis using q inv o by (auto simp: wire_inv_def reply_bytes_def)
  qed
qed

lemma wire_step:
  assumes "nbd_step P d d'" and inv: "wire_inv d"
  shows "wire_inv d'"
  using assms(1)
proof (cases rule: nbd_step.cases)
  case (issue c cs d1)
  then show ?thesis using wire_quiet [OF inv, of "d_tasks d" "{#}" "{#Calling c#}" d'] issue_cmd_Inr(1) [OF issue(6)] by simp
next
  case (call c)
  obtain rest where r: "d_tasks d = add_mset (Calling c) rest" using call(2) by (metis multi_member_split)
  show ?thesis unfolding call(1) by (rule wire_move [OF inv r]) (simp_all add: run_call_eq move_task_eq r)
next
  case (reply c x)
  obtain rest where r: "d_tasks d = add_mset (Called c x) rest" using reply(2) by (metis multi_member_split)
  show ?thesis unfolding reply(1) by (rule wire_move [OF inv r]) (simp_all add: move_task_eq r)
next
  case (cancel_waiting c)
  obtain rest where r: "d_tasks d = add_mset (Calling c) rest" using cancel_waiting(3) by (metis multi_member_split)
  show ?thesis unfolding cancel_waiting(1) by (rule wire_move [OF inv r]) (simp_all add: move_task_eq r)
next
  case (cancel_called c x)
  obtain rest where r: "d_tasks d = add_mset (Called c x) rest" using cancel_called(3) by (metis multi_member_split)
  show ?thesis unfolding cancel_called(1) by (rule wire_move [OF inv r]) (simp_all add: move_task_eq r)
next
  case (lock c e chunk)
  then show ?thesis using wire_lock [OF inv] by (metis multi_member_split)
next
  case (header c e chunk w)
  then show ?thesis using wire_header [OF inv] by (metis multi_member_split)
next
  case (chunk c e ch w)
  then show ?thesis using wire_chunk [OF inv] by (metis multi_member_split)
next
  case (finish c err)
  obtain rest where r: "d_tasks d = add_mset (Finishing c err) rest" using finish(2) by (metis multi_member_split)
  show ?thesis unfolding finish(1) finish_eq [OF r]
    by (rule wire_quiet [OF inv, of rest "{#Finishing c err#}" "{#}"]) (simp_all add: r)
qed (auto intro!: wire_same [OF inv] simp: run_call_eq Drain_def Drain_wait_def split: if_splits)

lemma apply_calls_snoc: "apply_calls P (cs @ [(c, r)]) p = fst (provider_call P c (apply_calls P cs p))"
  by (simp add: apply_calls_def)

lemma response_to_ok: "response_to r = (0, chunk) \<Longrightarrow> r = (chunk, None)"
  by (cases r) (auto simp: response_to_def split: option.splits)

lemma effects_step:
  assumes "nbd_step P d d'" "effects_inv P p0 d"
  shows "effects_inv P p0 d'"
  using assms
proof (cases rule: nbd_step.cases)
  case (issue c cs d1)
  then show ?thesis using assms(2) issue_cmd_Inr(1) [OF issue(6)] by (auto simp: effects_inv_def)
next
  case (call c)
  obtain rest where "d_tasks d = add_mset (Calling c) rest" using call(2) by (metis multi_member_split)
  then show ?thesis using call(1) assms(2)
    by (auto simp: effects_inv_def run_call_eq move_task_eq history_snoc apply_calls_snoc)
next
  case (late_call c)
  obtain rest where "d_detached d = add_mset c rest" using late_call(2) by (metis multi_member_split)
  then show ?thesis using late_call(1) assms(2)
    by (auto simp: effects_inv_def run_call_eq history_snoc apply_calls_snoc)
next
  case (reply c x)
  obtain rest where r: "d_tasks d = add_mset (Called c x) rest" using reply(2) by (metis multi_member_split)
  have "(c, x) \<in> set (d_calls d)" using assms(2) reply(2) unfolding effects_inv_def by blast
  then have "(c, chunk, None) \<in> set (d_calls d)" if "fst (response_to x) = 0" "snd (response_to x) = chunk" for chunk
    using response_to_ok [of x chunk] that by (cases "response_to x") auto
  then show ?thesis unfolding reply(1) using assms(2) r by (auto simp: effects_inv_def move_task_eq)
next
  case (cancel_waiting c)
  obtain rest where "d_tasks d = add_mset (Calling c) rest" using cancel_waiting(3) by (metis multi_member_split)
  then show ?thesis using cancel_waiting(1) assms(2) by (auto simp: effects_inv_def move_task_eq)
next
  case (cancel_called c r)
  obtain rest where "d_tasks d = add_mset (Called c r) rest" using cancel_called(3) by (metis multi_member_split)
  then show ?thesis using cancel_called(1) assms(2) by (auto simp: effects_inv_def move_task_eq)
next
  case (lock c e chunk)
  obtain rest where r: "d_tasks d = add_mset (Responding c e chunk) rest" using lock(1) by (metis multi_member_split)
  show ?thesis unfolding lock_eq(2) [OF r lock(2)] using r assms(2) by (auto simp: effects_inv_def)
next
  case (header c e chunk w)
  obtain rest where r: "d_tasks d = add_mset (Writing c e chunk) rest" using header(2) by (metis multi_member_split)
  show ?thesis unfolding header(1) using r assms(2) by (cases rule: header_cases [OF r, of w]) (auto simp: effects_inv_def)
next
  case (chunk c e ch w)
  obtain rest where r: "d_tasks d = add_mset (HeaderSent c e ch) rest" using chunk(2) by (metis multi_member_split)
  show ?thesis unfolding chunk(1) using r assms(2) by (cases rule: chunk_cases [OF r, of w]) (auto simp: effects_inv_def)
next
  case (finish c err)
  obtain rest where r: "d_tasks d = add_mset (Finishing c err) rest" using finish(2) by (metis multi_member_split)
  show ?thesis unfolding finish(1) finish_eq [OF r] using r assms(2) by (auto simp: effects_inv_def)
qed (use assms(2) in \<open>auto simp: effects_inv_def Drain_def Drain_wait_def split: if_splits\<close>)

lemma async_step:
  assumes "nbd_step P d d'"
  shows "d_asyncWriteZeroes d' = d_asyncWriteZeroes d"
  using assms
  by (cases rule: nbd_step.cases) (auto dest!: issue_cmd_Inr(1) simp: writeResponse_lock_def writeResponse_header_def writeResponse_chunk_def
    writeResponse_return_def move_task_def finish_task_def run_call_eq Drain_def Drain_wait_def Let_def split: if_splits option.splits)

lemma new_inv: "answered_inv q (NewDispatch p async q)" "effects_inv P p (NewDispatch p async q)" "wire_inv (NewDispatch p async q)"
  by (simp_all add: answered_inv_def effects_inv_def wire_inv_def NewDispatch_def apply_calls_def overwrite_def)

lemma reaches_inv:
  assumes "nbd_reaches P (NewDispatch p0 async q) d"
  shows "answered_inv q d" "effects_inv P p0 d" "wire_inv d" "d_asyncWriteZeroes d = async"
proof -
  from assms have "answered_inv q d \<and> effects_inv P p0 d \<and> wire_inv d \<and> d_asyncWriteZeroes d = async"
  proof induction
    case start
    have "d_asyncWriteZeroes (NewDispatch p0 async q) = async" by (simp add: NewDispatch_def)
    then show ?case by (simp add: new_inv)
  qed (auto intro: answered_step effects_step wire_step simp: async_step)
  then show "answered_inv q d" "effects_inv P p0 d" "wire_inv d" "d_asyncWriteZeroes d = async" by blast+
qed

text \<open>What has got to the socket: every response but the last is there in full, and the last as far as the holder of the write lock has got.\<close>

lemma wire_out:
  assumes inv: "wire_inv d" and "\<not> d_failed d"
  shows "prefix (concat (map reply_bytes (butlast (d_replies d)))) (d_out d)" "prefix (d_out d) (concat (map reply_bytes (d_replies d)))"
    "\<not> d_writeLock d \<Longrightarrow> d_out d = concat (map reply_bytes (d_replies d))"
proof -
  show free: "d_out d = concat (map reply_bytes (d_replies d))" if "\<not> d_writeLock d" using that assms by (simp add: wire_inv_def)
  have "\<exists>rs r done'. d_replies d = rs @ [r] \<and> d_out d = concat (map reply_bytes rs) @ done' \<and> prefix done' (reply_bytes r)" if "d_writeLock d"
  proof -
    have "size (filter_mset holds_lock (d_tasks d)) = 1" using that inv by (simp add: wire_inv_def)
    then obtain t where "filter_mset holds_lock (d_tasks d) = {#t#}" by (blast dest: size_1_singleton_mset)
    then have "t \<in># filter_mset holds_lock (d_tasks d)" by simp
    then have t: "t \<in># d_tasks d" "holds_lock t" by simp_all
    show ?thesis
    proof (cases t)
      case (Writing c e chunk)
      then obtain rs where "d_replies d = rs @ [(c, e, chunk)]" "d_out d = concat (map reply_bytes rs)"
        using t(1) inv assms(2) unfolding wire_inv_def by blast
      then show ?thesis by (metis append_Nil2 Nil_prefix)
    next
      case (HeaderSent c e chunk)
      then obtain rs where "d_replies d = rs @ [(c, e, chunk)]" "d_out d = concat (map reply_bytes rs) @ response_header e (cmd_handle c)"
        using t(1) inv assms(2) unfolding wire_inv_def by blast
      moreover have "prefix (response_header e (cmd_handle c)) (reply_bytes (c, e, chunk))" by (simp add: reply_bytes_def)
      ultimately show ?thesis by blast
    qed (use t(2) in auto)
  qed
  then have "prefix (concat (map reply_bytes (butlast (d_replies d)))) (d_out d) \<and> prefix (d_out d) (concat (map reply_bytes (d_replies d)))" if "d_writeLock d"
    using that by auto
  moreover have "prefix (concat (map reply_bytes (butlast (d_replies d)))) (concat (map reply_bytes (d_replies d)))"
    by (cases "d_replies d" rule: rev_cases) auto
  ultimately show "prefix (concat (map reply_bytes (butlast (d_replies d)))) (d_out d)" "prefix (d_out d) (concat (map reply_bytes (d_replies d)))"
    using free by (cases "d_writeLock d"; simp)+
qed

section \<open>What a client can rely on\<close>

text \<open>
  C13. One answer per command, in every interleaving of the accesses of the goroutines: the accepted commands are a prefix of those the read loop
  issues, and each of them is either still on its way to its response or has exactly one. As long as no socket write failed, the
  bytes sent are those responses, whole and one after the other, of the last one possibly only a beginning while a goroutine holds the write lock.
  Once \<open>Drain\<close> has returned, no command that it counts is being served and every such command is refused. It does not wait for a write of zeros
  that runs on the read loop, which is what happens unless zeros are written asynchronously: one such command may still be
  outstanding. When in addition zeros are written asynchronously, or the read loop has returned (\<open>DirectPathMount.Close\<close> waits for it
  before it calls \<open>Drain\<close>), nothing is outstanding, every accepted command has been answered, and without a failed write all responses have been sent.
\<close>

theorem nbd_answers_once:
  assumes "nbd_reaches P (NewDispatch p0 async q) d"
  shows "d_accepted d @ d_queue d = q \<and>
    mset (d_accepted d) = image_mset task_cmd (filter_mset unanswered (d_tasks d)) + mset (map fst (d_replies d)) \<and>
    (\<not> d_failed d \<longrightarrow> prefix (concat (map reply_bytes (butlast (d_replies d)))) (d_out d) \<and>
       prefix (d_out d) (concat (map reply_bytes (d_replies d))) \<and>
       (\<not> d_writeLock d \<longrightarrow> d_out d = concat (map reply_bytes (d_replies d)))) \<and>
    (d_drained d \<longrightarrow> (\<forall>t \<in># d_tasks d. \<not> counted async (task_cmd t)) \<and> size (d_tasks d) \<le> 1 \<and>
       (\<forall>c. counted async c \<longrightarrow> issue_cmd c d = Inl ErrShuttingDown)) \<and>
    (d_drained d \<and> (async \<or> d_stopped d) \<longrightarrow> d_tasks d = {#} \<and> mset (map fst (d_replies d)) = mset (d_accepted d) \<and>
       (\<not> d_failed d \<longrightarrow> d_out d = concat (map reply_bytes (d_replies d))) \<and> (async \<longrightarrow> (\<forall>c. issue_cmd c d = Inl ErrShuttingDown)))"
proof -
  note inv = reaches_inv [OF assms]
  have all: "counted True c" for c by (cases c) simp_all
  have un: "\<forall>t \<in># d_tasks d. \<not> counted async (task_cmd t)" if "d_drained d"
    using inv(1,4) that by (auto simp: answered_inv_def)
  have sz: "size (d_tasks d) \<le> (if d_stopped d then 0 else 1)" if "d_drained d"
  proof -
    have "filter_mset (\<lambda>t. \<not> counted async (task_cmd t)) (d_tasks d) = d_tasks d" using un [OF that] by (simp add: filter_mset_eq_conv)
    then show ?thesis using inv(1,4) by (simp add: answered_inv_def)
  qed
  have refused: "issue_cmd c d = Inl ErrShuttingDown" if "d_drained d" "counted async c" for c
    using inv(1,4) that by (cases c) (simp_all add: answered_inv_def cmdRead_def cmdWrite_def cmdWriteZeroes_def)
  have none: "d_tasks d = {#}" if "d_drained d" "async \<or> d_stopped d"
    using un [OF that(1)] sz [OF that(1)] that(2) all by (cases async) auto
  have free: "\<not> d_writeLock d" if "d_tasks d = {#}" using inv(3) that by (simp add: wire_inv_def split: if_splits)
  have acc: "d_accepted d @ d_queue d = q"
    "mset (d_accepted d) = image_mset task_cmd (filter_mset unanswered (d_tasks d)) + mset (map fst (d_replies d))"
    using inv(1) unfolding answered_inv_def by blast+
  have "size (d_tasks d) \<le> 1" if "d_drained d" using sz [OF that] by (simp split: if_splits)
  moreover have "mset (map fst (d_replies d)) = mset (d_accepted d)" if "d_tasks d = {#}" using acc(2) that by simp
  moreover have "\<forall>c. issue_cmd c d = Inl ErrShuttingDown" if "d_drained d" "async" using refused [OF that(1)] all that(2) by simp
  ultimately show ?thesis using acc wire_out [OF inv(3)] un refused none free by (intro conjI impI; (elim conjE)?; blast)
qed

text \<open>
  C14. Responses and effects: the disk is what the provider calls made of it, one after the other; a command is applied at most
  once, even when its goroutine was cancelled and the call finished later; and a response without an error was preceded by that
  command's provider call, which succeeded, with exactly the data of the response.
\<close>

theorem nbd_replies_after_effect:
  assumes "nbd_reaches P (NewDispatch p0 async q) d"
  shows "d_prov d = apply_calls P (d_calls d) p0 \<and> history P (d_calls d) p0 \<and>
    mset (map fst (d_calls d)) \<subseteq># mset (d_accepted d) \<and>
    (\<forall>c chunk. (c, 0, chunk) \<in> set (d_replies d) \<longrightarrow> (c, chunk, None) \<in> set (d_calls d))"
  using reaches_inv(2) [OF assms] unfolding effects_inv_def
  by (metis add.assoc mset_subset_eq_add_left)

text \<open>A disk of bytes.\<close>

definition list_disk :: "byte list Provider" where
  "list_disk = \<lparr>pv_ReadAt = (\<lambda>p b off. (p, take (length b) (drop (unat off) p), None)),
     pv_WriteAt = (\<lambda>p b off. (overwrite p (unat off) b, None)),
     pv_WriteZeroesAt = (\<lambda>p off n. (overwrite p (unat off) (replicate (unat n) 0), None))\<rparr>"

text \<open>A connection that reads two bytes, with zeros written on the read loop: the read is accepted, called, answered, its header and its data are
  sent, then the read loop returns and \<open>Drain\<close> is called and returns.\<close>

definition conn ::
  "task multiset \<Rightarrow> bool \<Rightarrow> byte list \<Rightarrow> byte list \<Rightarrow> (nbd_cmd \<times> u32 \<times> byte list) list \<Rightarrow> (nbd_cmd \<times> call_result) list \<Rightarrow> byte list Dispatch" where
  "conn ts lk hdr out reps calls =
     \<lparr>d_prov = [3, 4], d_queue = [], d_stopped = False, d_tasks = ts, d_detached = {#}, d_pendingResponses = size ts, d_shuttingDown = False,
      d_drained = False, d_fatal = None, d_asyncWriteZeroes = False, d_writeLock = lk, d_responseHeader = hdr, d_ctxDone = False, d_out = out,
      d_accepted = [CmdRead 7 0 2], d_calls = calls, d_replies = reps, d_failed = False\<rparr>"

abbreviation read2 :: nbd_cmd where "read2 \<equiv> CmdRead 7 0 2"

abbreviation fresh_header :: "byte list" where "fresh_header \<equiv> overwrite (replicate 16 0) 0 (be_enc 4 (unat NBDResponseMagic))"

definition served :: "byte list Dispatch" where
  "served = (conn {#} False (response_header 0 7) (response_header 0 7 @ [3, 4]) [(read2, 0, [3, 4])] [(read2, [3, 4], None)])
     \<lparr>d_stopped := True, d_shuttingDown := True, d_drained := True\<rparr>"

lemma conn_accepts:
  "nbd_step list_disk (NewDispatch [3, 4] False [read2]) (conn {#Calling read2#} False fresh_header [] [] [])"
proof -
  let ?d = "NewDispatch [3, 4] False [read2] :: byte list Dispatch"
  have "issue_cmd read2 ?d = Inr ((conn {#Calling read2#} False fresh_header [] [] [])\<lparr>d_queue := [read2]\<rparr>)"
    by (simp add: cmdRead_def start_task_def NewDispatch_def conn_def)
  from nbd_step.issue [OF _ _ _ _ this, where P = list_disk and cs = "[]"] show ?thesis
    by (simp add: NewDispatch_def inline_busy_def lock_free_def conn_def)
qed

lemma conn_calls:
  "nbd_step list_disk (conn {#Calling read2#} False hdr [] [] []) (conn {#Called read2 ([3, 4], None)#} False hdr [] [] [(read2, [3, 4], None)])"
proof -
  have "provider_call list_disk read2 [3, 4] = ([3, 4], [3, 4], None)" by (simp add: list_disk_def)
  then show ?thesis using nbd_step.call [where c = read2 and d = "conn {#Calling read2#} False hdr [] [] []" and P = list_disk]
    by (simp add: conn_def run_call_eq move_task_def)
qed

lemma conn_replies:
  "nbd_step P (conn {#Called read2 ([3, 4], None)#} False hdr [] [] cs) (conn {#Responding read2 0 [3, 4]#} False hdr [] [] cs)"
  using nbd_step.reply [where c = read2 and r = "([3, 4], None)" and d = "conn {#Called read2 ([3, 4], None)#} False hdr [] [] cs" and P = P]
  by (simp add: conn_def move_task_def response_to_def)

lemma conn_writes:
  defines "H \<equiv> response_header 0 7"
  shows "nbd_step P (conn {#Responding read2 0 [3, 4]#} False fresh_header [] [] cs) (conn {#Writing read2 0 [3, 4]#} True H [] [(read2, 0, [3, 4])] cs)"
    "nbd_step P (conn {#Writing read2 0 [3, 4]#} True H [] rs cs) (conn {#HeaderSent read2 0 [3, 4]#} True H H rs cs)"
    "nbd_step P (conn {#HeaderSent read2 0 [3, 4]#} True H H rs cs) (conn {#Finishing read2 None#} False H (H @ [3, 4]) rs cs)"
    "nbd_step P (conn {#Finishing read2 None#} False H out rs cs) (conn {#} False H out rs cs)"
proof -
  have "overwrite (overwrite fresh_header 4 (be_enc 4 (unat (0 :: u32)))) 8 (be_enc 8 (unat (cmd_handle read2))) = H"
    unfolding H_def cmd_handle.simps by (rule put_header) (simp_all add: overwrite_def)
  then show "nbd_step P (conn {#Responding read2 0 [3, 4]#} False fresh_header [] [] cs) (conn {#Writing read2 0 [3, 4]#} True H [] [(read2, 0, [3, 4])] cs)"
    by (intro nbd_step.lock [where c = read2 and e = 0 and chunk = "[3, 4]"]) (simp_all add: conn_def writeResponse_lock_def move_task_def)
  show "nbd_step P (conn {#Writing read2 0 [3, 4]#} True H [] rs cs) (conn {#HeaderSent read2 0 [3, 4]#} True H H rs cs)"
    using nbd_step.header [where c = read2 and e = 0 and chunk = "[3, 4]" and w = None and d = "conn {#Writing read2 0 [3, 4]#} True H [] rs cs" and P = P]
    by (simp add: conn_def writeResponse_header_def move_task_def)
  show "nbd_step P (conn {#HeaderSent read2 0 [3, 4]#} True H H rs cs) (conn {#Finishing read2 None#} False H (H @ [3, 4]) rs cs)"
    using nbd_step.chunk [where c = read2 and e = 0 and chunk = "[3, 4]" and w = None and d = "conn {#HeaderSent read2 0 [3, 4]#} True H H rs cs" and P = P]
    by (simp add: conn_def writeResponse_chunk_def writeResponse_return_def move_task_def)
  show "nbd_step P (conn {#Finishing read2 None#} False H out rs cs) (conn {#} False H out rs cs)"
    using nbd_step.finish [where c = read2 and err = None and d = "conn {#Finishing read2 None#} False H out rs cs" and P = P]
    by (simp add: conn_def finish_task_def)
qed

lemma conn_drains:
  fixes hdr out rs cs
  defines "d \<equiv> conn {#} False hdr out rs cs"
  shows "nbd_step P d (d\<lparr>d_stopped := True\<rparr>)" "nbd_step P (d\<lparr>d_stopped := True\<rparr>) (d\<lparr>d_stopped := True, d_shuttingDown := True\<rparr>)"
    "nbd_step P (d\<lparr>d_stopped := True, d_shuttingDown := True\<rparr>) (d\<lparr>d_stopped := True, d_shuttingDown := True, d_drained := True\<rparr>)"
proof -
  show "nbd_step P d (d\<lparr>d_stopped := True\<rparr>)"
    using nbd_step.stop [where d = d and f = None and P = P] by (simp add: d_def conn_def inline_busy_def)
  show "nbd_step P (d\<lparr>d_stopped := True\<rparr>) (d\<lparr>d_stopped := True, d_shuttingDown := True\<rparr>)"
    using nbd_step.drain [where d = "d\<lparr>d_stopped := True\<rparr>" and P = P] by (simp add: d_def conn_def Drain_def)
  show "nbd_step P (d\<lparr>d_stopped := True, d_shuttingDown := True\<rparr>) (d\<lparr>d_stopped := True, d_shuttingDown := True, d_drained := True\<rparr>)"
    by (rule nbd_step.drain_wait) (simp add: d_def conn_def Drain_wait_def)
qed

lemma served_reached: "nbd_reaches list_disk (NewDispatch [3, 4] False [read2]) served"
  unfolding served_def
  by (rule nbd_reaches.next_step [OF _ conn_drains(3)], rule nbd_reaches.next_step [OF _ conn_drains(2)],
    rule nbd_reaches.next_step [OF _ conn_drains(1)], rule nbd_reaches.next_step [OF _ conn_writes(4)],
    rule nbd_reaches.next_step [OF _ conn_writes(3)], rule nbd_reaches.next_step [OF _ conn_writes(2)],
    rule nbd_reaches.next_step [OF _ conn_writes(1)], rule nbd_reaches.next_step [OF _ conn_replies],
    rule nbd_reaches.next_step [OF _ conn_calls], rule nbd_reaches.next_step [OF _ conn_accepts], rule nbd_reaches.start)

lemma served_fields:
  "d_accepted served = [read2]" "d_failed served = False" "d_drained served" "d_stopped served" "d_writeLock served = False"
  "d_replies served = [(read2, 0, [3, 4])]" "d_calls served = [(read2, [3, 4], None)]" "d_prov served = [3, 4]"
  by (simp_all add: served_def conn_def)

theorem nbd_answers_once_witness:
  "d_out served = response_header 0 7 @ [3, 4] \<and> d_tasks served = {#} \<and> mset (map fst (d_replies served)) = mset (d_accepted served)"
  using nbd_answers_once [OF served_reached] by (simp add: served_fields reply_bytes_def)

theorem nbd_replies_after_effect_witness:
  "d_prov served = apply_calls list_disk (d_calls served) [3, 4] \<and> (read2, [3, 4], None) \<in> set (d_calls served)"
  using nbd_replies_after_effect [OF served_reached] served_fields(6) by auto

end
