(* ===== verification/Chunker.thy ===== *)
theory Chunker
  imports Block_Cache
begin

text \<open>
  The streaming chunker (\<open>packages/orchestrator/pkg/sandbox/block/streaming_chunk.go\<close> and \<open>fetch_session.go\<close>): readers of a
  build's file share one fetch per chunk, which streams the chunk into the memory-mapped cache and releases the
  readers block by block as the bytes arrive. Sessions are shared objects: a session is its index in a heap, and the active list
  holds indices. The goroutine of a fetch is a machine whose phases are the points between its shared accesses; readers
  are big-step relations in which the other goroutines move between any two of the reader's own accesses.
\<close>

section \<open>Fetch sessions\<close>

datatype chunk_error =
    ChunkCache cache_error | ChunkLocate frame_error | ChunkOpen string | ChunkRead string | ChunkClose string
  | FetchPanicked string | FetchExited | BlockNotAligned | BlockOutsideSession | TerminatedWithoutError
  | FetchFailed chunk_error | CtxCancelled

record fetchSession =
  s_chunkOff :: i64
  s_chunkLen :: i64
  s_fetchErr :: "chunk_error option"
  s_done :: bool
  s_source :: nat
  s_bytesReady :: i64

definition setSource :: "nat \<Rightarrow> fetchSession \<Rightarrow> fetchSession" where
  "setSource src s = s\<lparr>s_source := src\<rparr>"

definition session_contains :: "fetchSession \<Rightarrow> i64 \<Rightarrow> i64 \<Rightarrow> bool" where
  "session_contains s off len \<longleftrightarrow>
     sint (s_chunkOff s) \<le> sint off \<and> sint (s_chunkOff s + s_chunkLen s) \<ge> sint (off + len)"

definition terminated :: "fetchSession \<Rightarrow> bool" where
  "terminated s = s_done s"

definition newFetchSession :: "i64 \<Rightarrow> i64 \<Rightarrow> fetchSession" where
  "newFetchSession chunkOff chunkLen =
     \<lparr>s_chunkOff = chunkOff, s_chunkLen = chunkLen, s_fetchErr = None, s_done = False, s_source = 0, s_bytesReady = 0\<rparr>"

definition session_advance :: "i64 \<Rightarrow> fetchSession \<Rightarrow> fetchSession" where
  "session_advance bytesReady s = s\<lparr>s_bytesReady := bytesReady\<rparr>"

definition setDone :: "fetchSession \<Rightarrow> fetchSession" where
  "setDone s = s\<lparr>s_bytesReady := s_chunkLen s, s_done := True\<rparr>"

definition session_fail :: "chunk_error \<Rightarrow> fetchSession \<Rightarrow> fetchSession" where
  "session_fail e s = s\<lparr>s_fetchErr := Some e, s_done := True\<rparr>"

definition failIfRunning :: "chunk_error \<Rightarrow> fetchSession \<Rightarrow> fetchSession" where
  "failIfRunning e s = (if \<not> terminated s then s\<lparr>s_fetchErr := Some e, s_done := True\<rparr> else s)"

text \<open>\<open>registerAndWait\<close>: its argument checks, and one look at the session under the lock, or without it on the fast path,
  which tests the same condition. The look returns \<open>None\<close> when the caller has to wait on.\<close>

definition wait_args :: "i64 \<Rightarrow> fetchSession \<Rightarrow> i64 \<Rightarrow> chunk_error option" where
  "wait_args blockSz s blockOff =
     (if i64_mod blockOff blockSz \<noteq> 0 then Some BlockNotAligned
      else if sint blockOff < sint (s_chunkOff s) \<or> sint blockOff \<ge> sint (s_chunkOff s + s_chunkLen s) then Some BlockOutsideSession
      else None)"

definition end_byte :: "i64 \<Rightarrow> fetchSession \<Rightarrow> i64 \<Rightarrow> i64" where
  "end_byte blockSz s blockOff = i64_min (blockOff + blockSz - s_chunkOff s) (s_chunkLen s)"

definition wait_check ::
  "'bm roaring_ops \<Rightarrow> 'bm Cache \<Rightarrow> bool \<Rightarrow> fetchSession \<Rightarrow> i64 \<Rightarrow> chunk_error option option" where
  "wait_check R c ctxDone s blockOff =
     (if sint (s_bytesReady s) \<ge> sint (end_byte (c_blockSize c) s blockOff) then Some None
      else if terminated s then
        if isCached R c blockOff (c_blockSize c) = Some True then Some None
        else (case s_fetchErr s of None \<Rightarrow> Some (Some TerminatedWithoutError) | Some e \<Rightarrow> Some (Some (FetchFailed e)))
      else if ctxDone then Some (Some CtxCancelled)
      else None)"

section \<open>The chunker\<close>

text \<open>The phases of \<open>runFetch\<close> and the \<open>progressiveFetch\<close> in it.\<close>

datatype phase =
    Starting
  | Streaming i64 \<comment> \<open>at the head of the read loop, with \<open>totalRead\<close>\<close>
  | Stored nat i64 "string option" \<comment> \<open>\<open>io.ReadFull\<close> returned \<open>n\<close> and \<open>readErr\<close>, \<open>totalRead\<close> is updated\<close>
  | Closing "chunk_error option" \<comment> \<open>the loop returned, the deferred \<open>reader.Close\<close> is next\<close>
  | Verified \<comment> \<open>\<open>progressiveFetch\<close> returned without error\<close>
  | Marked \<comment> \<open>the chunk is marked as cached\<close>
  | Exiting chunk_error \<comment> \<open>the deferred \<open>failIfRunning\<close> is next\<close>
  | Releasing
  | Released

record 'bm Chunker =
  ck_cache :: "'bm Cache"
  ck_size :: i64
  ck_heap :: "fetchSession list"
  ck_runs :: "(FrameTable option \<times> phase) list"
  ck_fetchSessions :: "nat list"

definition NewChunker ::
  "'bm roaring_ops \<Rightarrow> string option \<Rightarrow> string option \<Rightarrow> string + byte list \<Rightarrow> i64 \<Rightarrow> i64 \<Rightarrow> string \<Rightarrow>
   chunk_error + 'bm Chunker" where
  "NewChunker R openErr truncErr mapped sz blkSize cachePath =
     (case NewCache R openErr truncErr mapped sz blkSize cachePath False of
        Inl e \<Rightarrow> Inl (ChunkCache e)
      | Inr cache \<Rightarrow> Inr \<lparr>ck_cache = cache, ck_size = sz, ck_heap = [], ck_runs = [], ck_fetchSessions = []\<rparr>)"

definition MemoryChunkSize :: i64 where
  "MemoryChunkSize = 4 * 1024 * 1024"

definition locateChunk :: "'bm Chunker \<Rightarrow> i64 \<Rightarrow> FrameTable option \<Rightarrow> chunk_error + i64 \<times> i64" where
  "locateChunk k off ft =
     (if IsCompressed ft then
        (case LocateUncompressed ft off of
           Inl e \<Rightarrow> Inl (ChunkLocate e)
         | Inr r \<Rightarrow> Inr (rg_Offset r, rg_Length r))
      else
        let chunkOff = i64_div off MemoryChunkSize * MemoryChunkSize
        in Inr (chunkOff, i64_min MemoryChunkSize (ck_size k - chunkOff)))"

text \<open>The session for a chunk, or \<open>None\<close> if it is cached; a new session comes with its goroutine.\<close>

definition getOrCreateSession ::
  "'bm roaring_ops \<Rightarrow> i64 \<Rightarrow> i64 \<Rightarrow> FrameTable option \<Rightarrow> 'bm Chunker \<Rightarrow> 'bm Chunker \<times> nat option" where
  "getOrCreateSession R off len ft k =
     (case find (\<lambda>i. session_contains (ck_heap k ! i) off len) (ck_fetchSessions k) of
        Some i \<Rightarrow> (k, Some i)
      | None \<Rightarrow>
          if isCached R (ck_cache k) off len = Some True then (k, None)
          else (k\<lparr>ck_heap := ck_heap k @ [newFetchSession off len], ck_runs := ck_runs k @ [(ft, Starting)],
                  ck_fetchSessions := ck_fetchSessions k @ [length (ck_heap k)]\<rparr>, Some (length (ck_heap k))))"

text \<open>Swap-delete.\<close>

definition releaseSession :: "nat \<Rightarrow> nat list \<Rightarrow> nat list" where
  "releaseSession s active =
     (if s \<in> set active
      then butlast (active[length (takeWhile (\<lambda>a. a \<noteq> s) active) := List.last active])
      else active)"

section \<open>The goroutine of a fetch\<close>

text \<open>What the world outside answers: the range reader that \<open>OpenRangeReader\<close> returns, the bytes and the
  error of an \<open>io.ReadFull\<close>, the error of \<open>Close\<close>, or a panic.\<close>

datatype answer =
    Opened nat | OpenFailed nat string | Delivered "byte list" "string option" | ClosedWith "string option"
  | Panic string | NoAnswer

definition with_session :: "nat \<Rightarrow> (fetchSession \<Rightarrow> fetchSession) \<Rightarrow> 'bm Chunker \<Rightarrow> 'bm Chunker" where
  "with_session i f k = k\<lparr>ck_heap := (ck_heap k)[i := f (ck_heap k ! i)]\<rparr>"

definition goto_phase :: "nat \<Rightarrow> phase \<Rightarrow> 'bm Chunker \<Rightarrow> 'bm Chunker" where
  "goto_phase i ph k = k\<lparr>ck_runs := (ck_runs k)[i := (fst (ck_runs k ! i), ph)]\<rparr>"

definition fill_mmap :: "nat \<Rightarrow> byte list \<Rightarrow> 'bm Chunker \<Rightarrow> 'bm Chunker" where
  "fill_mmap pos bs k =
     k\<lparr>ck_cache := (ck_cache k)\<lparr>c_mmap := map_option (\<lambda>m. overwrite m pos bs) (c_mmap (ck_cache k))\<rparr>\<rparr>"

text \<open>\<open>runFetch\<close> up to the read loop. A slice expression out of range in \<open>addressBytes\<close> is a panic, which the deferred function recovers.\<close>

definition phase_start :: "nat \<Rightarrow> answer \<Rightarrow> 'bm Chunker \<Rightarrow> 'bm Chunker option" where
  "phase_start i a k =
     (let s = ck_heap k ! i in
      case addressBytes (ck_cache k) (s_chunkOff s) (s_chunkLen s) of
        Inl e \<Rightarrow>
          if e = CachePanic then Some (goto_phase i (Exiting (FetchPanicked ''slice bounds out of range'')) k)
          else Some (goto_phase i (Exiting FetchExited) (with_session i (session_fail (ChunkCache e)) k))
      | Inr _ \<Rightarrow>
          (case a of
             Opened src \<Rightarrow> Some (goto_phase i (Streaming 0) (with_session i (setSource src) k))
           | OpenFailed src e \<Rightarrow>
               Some (goto_phase i (Exiting FetchExited) (with_session i (session_fail (ChunkOpen e) \<circ> setSource src) k))
           | _ \<Rightarrow> None))"

text \<open>One \<open>io.ReadFull\<close> into the mapping, of at most \<open>readBatch\<close> bytes: all of them, or fewer and an error. Past the end
  of the mapped slice the slice expression panics, and \<open>Panic\<close> is the only answer.\<close>

definition phase_read :: "i64 \<Rightarrow> nat \<Rightarrow> i64 \<Rightarrow> answer \<Rightarrow> 'bm Chunker \<Rightarrow> 'bm Chunker option" where
  "phase_read readBatch i totalRead a k =
     (let s = ck_heap k ! i in
      if sint totalRead < sint (s_chunkLen s) then
        (case a of
           Delivered bs readErr \<Rightarrow>
             let readEnd = i64_min (totalRead + readBatch) (s_chunkLen s); m = nat (sint readEnd - sint totalRead)
             in if length bs \<le> m \<and> (readErr = None \<longrightarrow> length bs = m) \<and>
                   (case addressBytes (ck_cache k) (s_chunkOff s) (s_chunkLen s) of Inl _ \<Rightarrow> False | Inr mm \<Rightarrow> sint readEnd \<le> int (length mm))
                then Some (goto_phase i (Stored (length bs) (totalRead + word_of_nat (length bs)) readErr)
                  (fill_mmap (unat (s_chunkOff s) + unat totalRead) bs k))
                else None
         | _ \<Rightarrow> None)
      else Some (goto_phase i (Closing None) k))"

definition phase_stored :: "nat \<Rightarrow> nat \<Rightarrow> i64 \<Rightarrow> string option \<Rightarrow> 'bm Chunker \<Rightarrow> 'bm Chunker" where
  "phase_stored i n totalRead readErr k =
     (let k' = (if 0 < n \<and> \<not> IsCompressed (fst (ck_runs k ! i)) then with_session i (session_advance totalRead) k else k)
      in case readErr of
           None \<Rightarrow> goto_phase i (Streaming totalRead) k'
         | Some e \<Rightarrow>
             if sint totalRead \<ge> sint (s_chunkLen (ck_heap k ! i)) then goto_phase i (Closing None) k'
             else goto_phase i (Closing (Some (ChunkRead e))) k')"

definition phase_close :: "nat \<Rightarrow> chunk_error option \<Rightarrow> string option \<Rightarrow> 'bm Chunker \<Rightarrow> 'bm Chunker" where
  "phase_close i err closeErr k =
     (case (case err of Some e \<Rightarrow> Some e | None \<Rightarrow> map_option ChunkClose closeErr) of
        Some e \<Rightarrow> goto_phase i (Exiting FetchExited) (with_session i (session_fail e) k)
      | None \<Rightarrow> goto_phase i Verified k)"

definition phase_mark :: "'bm roaring_ops \<Rightarrow> nat \<Rightarrow> 'bm Chunker \<Rightarrow> 'bm Chunker option" where
  "phase_mark R i k =
     (let s = ck_heap k ! i in
      case setIsCached R (s_chunkOff s) (s_chunkLen s) (ck_cache k) of
        None \<Rightarrow> None
      | Some c \<Rightarrow> Some (goto_phase i Marked (k\<lparr>ck_cache := c\<rparr>)))"

text \<open>The phases before the deferred functions; a panic may happen in any of them.\<close>

fun fetching :: "phase \<Rightarrow> bool" where
  "fetching (Exiting _) = False"
| "fetching Releasing = False"
| "fetching Released = False"
| "fetching _ = True"

definition next_phase :: "'bm roaring_ops \<Rightarrow> i64 \<Rightarrow> nat \<Rightarrow> answer \<Rightarrow> 'bm Chunker \<Rightarrow> 'bm Chunker option" where
  "next_phase R readBatch i a k =
     (case snd (ck_runs k ! i) of
        Starting \<Rightarrow> phase_start i a k
      | Streaming t \<Rightarrow> phase_read readBatch i t a k
      | Stored n t e \<Rightarrow> Some (phase_stored i n t e k)
      | Closing e \<Rightarrow> (case a of ClosedWith ce \<Rightarrow> Some (phase_close i e ce k) | _ \<Rightarrow> None)
      | Verified \<Rightarrow> phase_mark R i k
      | Marked \<Rightarrow> Some (goto_phase i (Exiting FetchExited) (with_session i setDone k))
      | Exiting e \<Rightarrow> Some (goto_phase i Releasing (with_session i (failIfRunning e) k))
      | Releasing \<Rightarrow> Some (goto_phase i Released (k\<lparr>ck_fetchSessions := releaseSession i (ck_fetchSessions k)\<rparr>))
      | Released \<Rightarrow> None)"

definition runFetch :: "'bm roaring_ops \<Rightarrow> i64 \<Rightarrow> nat \<Rightarrow> answer \<Rightarrow> 'bm Chunker \<Rightarrow> 'bm Chunker option" where
  "runFetch R readBatch i a k =
     (case a of
        Panic m \<Rightarrow> if fetching (snd (ck_runs k ! i)) then Some (goto_phase i (Exiting (FetchPanicked m)) k) else None
      | _ \<Rightarrow> next_phase R readBatch i a k)"

section \<open>Interleavings\<close>

text \<open>\<open>good off bs\<close> limits what the upstream may deliver at an offset, and \<open>fts\<close> the frame tables in use. Between a
  reader's own accesses the fetches move, and other readers open sessions for offsets inside the file (a reader past its end
  gets the last chunk, or a chunk that starts past the end, whose fetch \<open>addressBytes\<close> refuses before it does anything).\<close>

inductive chunk_step ::
  "'bm roaring_ops \<Rightarrow> i64 \<Rightarrow> (nat \<Rightarrow> byte list \<Rightarrow> bool) \<Rightarrow> FrameTable option set \<Rightarrow> 'bm Chunker \<Rightarrow> 'bm Chunker \<Rightarrow> bool"
  for R readBatch good fts where
  fetch_moves: "i < length (ck_heap k) \<Longrightarrow> runFetch R readBatch i a k = Some k' \<Longrightarrow>
    (\<And>bs e t. a = Delivered bs e \<Longrightarrow> snd (ck_runs k ! i) = Streaming t \<Longrightarrow> good (unat (s_chunkOff (ck_heap k ! i)) + unat t) bs) \<Longrightarrow>
    chunk_step R readBatch good fts k k'"
| other_reader: "ft \<in> fts \<Longrightarrow> 0 \<le> sint off \<Longrightarrow> sint off < sint (ck_size k) \<Longrightarrow> locateChunk k off ft = Inr (chunkOff, chunkLen) \<Longrightarrow>
    chunk_step R readBatch good fts k (fst (getOrCreateSession R chunkOff chunkLen ft k))"

inductive chunk_reaches ::
  "'bm roaring_ops \<Rightarrow> i64 \<Rightarrow> (nat \<Rightarrow> byte list \<Rightarrow> bool) \<Rightarrow> FrameTable option set \<Rightarrow> 'bm Chunker \<Rightarrow> 'bm Chunker \<Rightarrow> bool"
  for R readBatch good fts k where
  here: "chunk_reaches R readBatch good fts k k"
| further: "chunk_reaches R readBatch good fts k k' \<Longrightarrow> chunk_step R readBatch good fts k' k'' \<Longrightarrow> chunk_reaches R readBatch good fts k k''"

text \<open>A system of goroutines: the environment of a reader.\<close>

record 'bm world =
  w_ops :: "'bm roaring_ops"
  w_batch :: i64
  w_good :: "nat \<Rightarrow> byte list \<Rightarrow> bool"
  w_fts :: "FrameTable option set"

abbreviation moves :: "'bm world \<Rightarrow> 'bm Chunker \<Rightarrow> 'bm Chunker \<Rightarrow> bool" where
  "moves W \<equiv> chunk_reaches (w_ops W) (w_batch W) (w_good W) (w_fts W)"

text \<open>\<open>registerAndWait\<close> for session \<open>i\<close>: an argument error, or the first look that returns.\<close>

inductive registerAndWait :: "'bm world \<Rightarrow> nat \<Rightarrow> i64 \<Rightarrow> 'bm Chunker \<Rightarrow> 'bm Chunker \<Rightarrow> chunk_error option \<Rightarrow> bool" for W where
  bad_args: "wait_args (c_blockSize (ck_cache k)) (ck_heap k ! i) blockOff = Some e \<Longrightarrow> registerAndWait W i blockOff k k (Some e)"
| woken: "wait_args (c_blockSize (ck_cache k)) (ck_heap k ! i) blockOff = None \<Longrightarrow> moves W k k' \<Longrightarrow>
    wait_check (w_ops W) (ck_cache k') ctxDone (ck_heap k' ! i) blockOff = Some e \<Longrightarrow> registerAndWait W i blockOff k k' e"

text \<open>The loop of \<open>fetch\<close> over the blocks of the range.\<close>

inductive wait_blocks :: "'bm world \<Rightarrow> nat \<Rightarrow> i64 \<Rightarrow> i64 \<Rightarrow> i64 \<Rightarrow> 'bm Chunker \<Rightarrow> 'bm Chunker \<Rightarrow> chunk_error option \<Rightarrow> bool" for W where
  past_end: "\<not> sint b \<le> sint endBlock \<Longrightarrow> wait_blocks W i chunkEnd endBlock b k k None"
| tail: "sint b \<le> sint endBlock \<Longrightarrow> sint b \<ge> sint chunkEnd \<Longrightarrow> wait_blocks W i chunkEnd endBlock b k k None"
| failed: "sint b \<le> sint endBlock \<Longrightarrow> sint b < sint chunkEnd \<Longrightarrow> registerAndWait W i b k k' (Some e) \<Longrightarrow>
    wait_blocks W i chunkEnd endBlock b k k' (Some e)"
| ready: "sint b \<le> sint endBlock \<Longrightarrow> sint b < sint chunkEnd \<Longrightarrow> registerAndWait W i b k k' None \<Longrightarrow>
    wait_blocks W i chunkEnd endBlock (b + c_blockSize (ck_cache k)) k' k'' e \<Longrightarrow> wait_blocks W i chunkEnd endBlock b k k'' e"

definition chunk_end :: "fetchSession \<Rightarrow> i64" where
  "chunk_end s = s_chunkOff s + s_chunkLen s"

definition first_block :: "'bm Chunker \<Rightarrow> i64 \<Rightarrow> i64" where
  "first_block k off = i64_div off (c_blockSize (ck_cache k)) * c_blockSize (ck_cache k)"

definition final_block :: "'bm Chunker \<Rightarrow> i64 \<Rightarrow> i64 \<Rightarrow> i64" where
  "final_block k off len = i64_div (off + len - 1) (c_blockSize (ck_cache k)) * c_blockSize (ck_cache k)"

inductive fetch ::
  "'bm world \<Rightarrow> FrameTable option \<Rightarrow> i64 \<Rightarrow> i64 \<Rightarrow> 'bm Chunker \<Rightarrow> 'bm Chunker \<Rightarrow> chunk_error option \<Rightarrow> bool" for W ft where
  not_located: "locateChunk k off ft = Inl e \<Longrightarrow> fetch W ft off len k k (Some e)"
| just_cached: "locateChunk k off ft = Inr (chunkOff, chunkLen) \<Longrightarrow> moves W k k1 \<Longrightarrow>
    getOrCreateSession (w_ops W) chunkOff chunkLen ft k1 = (k2, None) \<Longrightarrow> fetch W ft off len k k2 None"
| streamed: "locateChunk k off ft = Inr (chunkOff, chunkLen) \<Longrightarrow> moves W k k1 \<Longrightarrow>
    getOrCreateSession (w_ops W) chunkOff chunkLen ft k1 = (k2, Some i) \<Longrightarrow> moves W k2 k3 \<Longrightarrow>
    sint (s_bytesReady (ck_heap k3 ! i)) \<ge>
      sint (i64_min (final_block k off len + c_blockSize (ck_cache k)) (chunk_end (ck_heap k2 ! i)) - s_chunkOff (ck_heap k2 ! i)) \<Longrightarrow>
    fetch W ft off len k k3 None"
| waited: "locateChunk k off ft = Inr (chunkOff, chunkLen) \<Longrightarrow> moves W k k1 \<Longrightarrow>
    getOrCreateSession (w_ops W) chunkOff chunkLen ft k1 = (k2, Some i) \<Longrightarrow> moves W k2 k3 \<Longrightarrow>
    wait_blocks W i (chunk_end (ck_heap k2 ! i)) (final_block k off len) (first_block k off) k3 k4 e \<Longrightarrow>
    fetch W ft off len k k4 e"

text \<open>The loop of \<open>Slice\<close> over the chunks of the range.\<close>

inductive fetch_chunks ::
  "'bm world \<Rightarrow> FrameTable option \<Rightarrow> i64 \<Rightarrow> i64 \<Rightarrow> 'bm Chunker \<Rightarrow> 'bm Chunker \<Rightarrow> chunk_error option \<Rightarrow> bool" for W ft "end" where
  all_fetched: "\<not> sint cur < sint end \<Longrightarrow> fetch_chunks W ft end cur k k None"
| no_chunk: "sint cur < sint end \<Longrightarrow> locateChunk k cur ft = Inl e \<Longrightarrow> fetch_chunks W ft end cur k k (Some e)"
| fetch_failed: "sint cur < sint end \<Longrightarrow> locateChunk k cur ft = Inr (chunkOff, chunkLen) \<Longrightarrow>
    fetch W ft cur (i64_min end (chunkOff + chunkLen) - cur) k k' (Some e) \<Longrightarrow> fetch_chunks W ft end cur k k' (Some e)"
| next_chunk: "sint cur < sint end \<Longrightarrow> locateChunk k cur ft = Inr (chunkOff, chunkLen) \<Longrightarrow>
    fetch W ft cur (i64_min end (chunkOff + chunkLen) - cur) k k' None \<Longrightarrow>
    fetch_chunks W ft end (chunkOff + chunkLen) k' k'' e \<Longrightarrow> fetch_chunks W ft end cur k k'' e"

inductive Chunker_Slice ::
  "'bm world \<Rightarrow> FrameTable option \<Rightarrow> i64 \<Rightarrow> i64 \<Rightarrow> 'bm Chunker \<Rightarrow> 'bm Chunker \<Rightarrow> chunk_error + byte list \<Rightarrow> bool" for W ft off len where
  cached: "Cache_Slice (w_ops W) (ck_cache k) off len = Inr b \<Longrightarrow> Chunker_Slice W ft off len k k (Inr b)"
| cache_error: "Cache_Slice (w_ops W) (ck_cache k) off len = Inl e \<Longrightarrow> e \<noteq> BytesNotAvailableError \<Longrightarrow>
    Chunker_Slice W ft off len k k (Inl (ChunkCache e))"
| not_fetched: "Cache_Slice (w_ops W) (ck_cache k) off len = Inl BytesNotAvailableError \<Longrightarrow> moves W k k1 \<Longrightarrow>
    fetch_chunks W ft (off + len) off k1 k2 (Some e) \<Longrightarrow> Chunker_Slice W ft off len k k2 (Inl e)"
| fetched: "Cache_Slice (w_ops W) (ck_cache k) off len = Inl BytesNotAvailableError \<Longrightarrow> moves W k k1 \<Longrightarrow>
    fetch_chunks W ft (off + len) off k1 k2 None \<Longrightarrow> moves W k2 k3 \<Longrightarrow>
    Chunker_Slice W ft off len k k3 (map_sum ChunkCache id (sliceDirect (ck_cache k3) off len))"

inductive Chunker_ReadAt ::
  "'bm world \<Rightarrow> FrameTable option \<Rightarrow> byte list \<Rightarrow> i64 \<Rightarrow> 'bm Chunker \<Rightarrow> 'bm Chunker \<Rightarrow> chunk_error + byte list \<times> nat \<Rightarrow> bool" for W ft b off where
  read: "Chunker_Slice W ft off (word_of_nat (length b)) k k' r \<Longrightarrow>
    Chunker_ReadAt W ft b off k k' (map_sum id (\<lambda>s. (go_copy b s, min (length b) (length s))) r)"

definition Chunker_IsCached :: "'bm roaring_ops \<Rightarrow> 'bm Chunker \<Rightarrow> i64 \<Rightarrow> i64 \<Rightarrow> bool option" where
  "Chunker_IsCached R k off len = isCached R (ck_cache k) off len"

definition Chunker_Size :: "'bm Chunker \<Rightarrow> i64" where
  "Chunker_Size k = ck_size k"

definition Chunker_Close :: "string option \<Rightarrow> string option \<Rightarrow> 'bm Chunker \<Rightarrow> 'bm Chunker \<times> cache_error list" where
  "Chunker_Close unmapErr removeErr k =
     (case Cache_Close unmapErr removeErr (ck_cache k) of (c, errs) \<Rightarrow> (k\<lparr>ck_cache := c\<rparr>, errs))"

end
