(* ===== verification/Chunker_Reads.thy ===== *)
theory Chunker_Reads
  imports Chunker
begin

text \<open>
  What readers of a chunker get. Under every interleaving of fetches and readers, with an upstream that may stop,
  fail or panic at any point but delivers bytes of the file it stands for, a byte of the mapping that equals the file stays
  equal, the progress counters and the tracker only cover such bytes, and a \<open>Slice\<close> that returns data returns the
  file's.
\<close>

section \<open>The invariant\<close>

definition matches :: "byte list \<Rightarrow> 'bm Chunker \<Rightarrow> nat \<Rightarrow> bool" where
  "matches img k p \<longleftrightarrow> mapped_bytes (ck_cache k) ! p = img ! p"

definition matches_range :: "byte list \<Rightarrow> 'bm Chunker \<Rightarrow> nat \<Rightarrow> nat \<Rightarrow> bool" where
  "matches_range img k lo hi \<longleftrightarrow> (\<forall>p. lo \<le> p \<and> p < hi \<longrightarrow> matches img k p)"

text \<open>What the goroutine knows at each phase.\<close>

fun phase_ok :: "byte list \<Rightarrow> 'bm Chunker \<Rightarrow> fetchSession \<Rightarrow> phase \<Rightarrow> bool" where
  "phase_ok img k s (Streaming t) \<longleftrightarrow> unat t \<le> unat (s_chunkLen s) \<and> matches_range img k (unat (s_chunkOff s)) (unat (s_chunkOff s) + unat t)"
| "phase_ok img k s (Stored n t e) \<longleftrightarrow> unat t \<le> unat (s_chunkLen s) \<and> matches_range img k (unat (s_chunkOff s)) (unat (s_chunkOff s) + unat t)"
| "phase_ok img k s (Closing None) \<longleftrightarrow> matches_range img k (unat (s_chunkOff s)) (unat (s_chunkOff s) + unat (s_chunkLen s))"
| "phase_ok img k s Verified \<longleftrightarrow> matches_range img k (unat (s_chunkOff s)) (unat (s_chunkOff s) + unat (s_chunkLen s))"
| "phase_ok img k s Marked \<longleftrightarrow> matches_range img k (unat (s_chunkOff s)) (unat (s_chunkOff s) + unat (s_chunkLen s))"
| "phase_ok img k s _ \<longleftrightarrow> True"

definition session_ok :: "byte list \<Rightarrow> 'bm Chunker \<Rightarrow> fetchSession \<Rightarrow> bool" where
  "session_ok img k s \<longleftrightarrow> unat (s_chunkOff s) + unat (s_chunkLen s) \<le> length img \<and>
     bs_of (ck_cache k) dvd unat (s_chunkOff s) \<and> bs_of (ck_cache k) dvd unat (s_chunkLen s) \<and>
     unat (s_bytesReady s) \<le> unat (s_chunkLen s) \<and>
     matches_range img k (unat (s_chunkOff s)) (unat (s_chunkOff s) + unat (s_bytesReady s))"

definition cache_ok :: "'bm roaring_ops \<Rightarrow> ('bm \<Rightarrow> nat set) \<Rightarrow> byte list \<Rightarrow> 'bm Chunker \<Rightarrow> bool" where
  "cache_ok R mem img k \<longleftrightarrow> sized (ck_cache k) \<and> c_mmap (ck_cache k) \<noteq> None \<and>
     length (mapped_bytes (ck_cache k)) = unat (c_size (ck_cache k)) \<and> length img = unat (c_size (ck_cache k)) \<and>
     \<not> c_closed (ck_cache k) \<and> \<not> c_dirtyFile (ck_cache k) \<and> disjoint_bitmaps mem (c_tracker (ck_cache k)) \<and>
     ck_size k = c_size (ck_cache k) \<and>
     (\<forall>w. stateOf R (c_tracker (ck_cache k)) w \<noteq> NotPresent \<longrightarrow>
        matches_range img k (unat w * bs_of (ck_cache k)) (Suc (unat w) * bs_of (ck_cache k)))"

definition chunk_inv :: "'bm roaring_ops \<Rightarrow> ('bm \<Rightarrow> nat set) \<Rightarrow> byte list \<Rightarrow> 'bm Chunker \<Rightarrow> bool" where
  "chunk_inv R mem img k \<longleftrightarrow> cache_ok R mem img k \<and> length (ck_runs k) = length (ck_heap k) \<and>
     set (ck_fetchSessions k) \<subseteq> {..<length (ck_heap k)} \<and>
     (\<forall>i < length (ck_heap k). session_ok img k (ck_heap k ! i) \<and> phase_ok img k (ck_heap k ! i) (snd (ck_runs k ! i)))"

text \<open>How a state may change: sessions keep their chunk, and bytes that match the file go on matching.\<close>

definition later :: "byte list \<Rightarrow> 'bm Chunker \<Rightarrow> 'bm Chunker \<Rightarrow> bool" where
  "later img k k' \<longleftrightarrow> ck_size k' = ck_size k \<and> c_size (ck_cache k') = c_size (ck_cache k) \<and>
     c_blockSize (ck_cache k') = c_blockSize (ck_cache k) \<and> length (ck_heap k) \<le> length (ck_heap k') \<and>
     (\<forall>i < length (ck_heap k). s_chunkOff (ck_heap k' ! i) = s_chunkOff (ck_heap k ! i) \<and> s_chunkLen (ck_heap k' ! i) = s_chunkLen (ck_heap k ! i)) \<and>
     (\<forall>p. matches img k p \<longrightarrow> matches img k' p)"

lemma later_refl [simp]: "later img k k"
  by (simp add: later_def)

lemma later_trans: "later img k k1 \<Longrightarrow> later img k1 k2 \<Longrightarrow> later img k k2"
  by (auto simp: later_def)

lemma later_range: "later img k k' \<Longrightarrow> matches_range img k lo hi \<Longrightarrow> matches_range img k' lo hi"
  by (auto simp: later_def matches_range_def)

lemma later_bs: "later img k k' \<Longrightarrow> bs_of (ck_cache k') = bs_of (ck_cache k)"
  by (simp add: later_def bs_of_def)

lemma later_phase: "later img k k' \<Longrightarrow> phase_ok img k s ph \<Longrightarrow> phase_ok img k' s ph"
  by (cases "(img, k, s, ph)" rule: phase_ok.cases) (auto intro: later_range)

lemma later_session: "later img k k' \<Longrightarrow> session_ok img k s \<Longrightarrow> session_ok img k' s"
  using later_bs [of img k k'] by (auto simp: session_ok_def intro: later_range)

lemma matches_range_mono: "matches_range img k lo hi \<Longrightarrow> lo \<le> lo' \<Longrightarrow> hi' \<le> hi \<Longrightarrow> matches_range img k lo' hi'"
  by (auto simp: matches_range_def)

lemma matches_range_empty [simp]: "hi \<le> lo \<Longrightarrow> matches_range img k lo hi"
  by (auto simp: matches_range_def)

lemma matches_range_join:
  "matches_range img k lo mid \<Longrightarrow> matches_range img k mid hi \<Longrightarrow> matches_range img k lo hi"
  unfolding matches_range_def by (metis not_le)

section \<open>The steps of a fetch\<close>

text \<open>A goroutine that changes its own session and phase only.\<close>

lemma chunk_inv_own:
  fixes ft :: "FrameTable option"
  assumes inv: "chunk_inv R mem img k" and i: "i < length (ck_heap k)"
    and s: "s_chunkOff s = s_chunkOff (ck_heap k ! i)" "s_chunkLen s = s_chunkLen (ck_heap k ! i)"
      "unat (s_bytesReady s) \<le> unat (s_chunkLen s)" "matches_range img k (unat (s_chunkOff s)) (unat (s_chunkOff s) + unat (s_bytesReady s))"
    and ph: "phase_ok img k s ph" and act: "set act \<subseteq> set (ck_fetchSessions k)"
  defines "k' \<equiv> k\<lparr>ck_heap := (ck_heap k)[i := s], ck_runs := (ck_runs k)[i := (ft, ph)], ck_fetchSessions := act\<rparr>"
  shows "chunk_inv R mem img k' \<and> later img k k'"
proof -
  have l: "later img k k'" using s i by (auto simp: later_def k'_def matches_def nth_list_update)
  have m: "matches_range img k' lo hi = matches_range img k lo hi" for lo hi by (simp add: matches_range_def matches_def k'_def)
  have so: "session_ok img k (ck_heap k ! i)" using inv i by (simp add: chunk_inv_def)
  then have "session_ok img k s" using s by (simp add: session_ok_def)
  then have "session_ok img k' (ck_heap k' ! j) \<and> phase_ok img k' (ck_heap k' ! j) (snd (ck_runs k' ! j))"
    if "j < length (ck_heap k')" for j
    using inv that ph i later_session [OF l] later_phase [OF l] by (auto simp: chunk_inv_def k'_def nth_list_update)
  moreover have "cache_ok R mem img k'" using inv m unfolding chunk_inv_def cache_ok_def by (simp add: k'_def)
  ultimately show ?thesis using inv l act by (auto simp: chunk_inv_def k'_def)
qed

text \<open>Bytes of the file stored in the mapping.\<close>

lemma chunk_inv_fill:
  assumes inv: "chunk_inv R mem img k" and bs: "bs = take (length bs) (drop pos img)" "pos + length bs \<le> length img"
  defines "k' \<equiv> fill_mmap pos bs k"
  shows "chunk_inv R mem img k' \<and> later img k k' \<and> matches_range img k' pos (pos + length bs)"
proof -
  let ?m = "mapped_bytes (ck_cache k)"
  have c: "c_mmap (ck_cache k) = Some ?m" "length ?m = length img" "cache_ok R mem img k"
    using inv by (auto simp: chunk_inv_def cache_ok_def mapped_bytes_def)
  have m': "mapped_bytes (ck_cache k') = overwrite ?m pos bs"
    using inv unfolding k'_def fill_mmap_def by (auto simp: chunk_inv_def cache_ok_def mapped_bytes_def)
  have nth: "overwrite ?m pos bs ! p = (if pos \<le> p \<and> p < pos + length bs then img ! p else ?m ! p)" for p
  proof (cases "pos \<le> p \<and> p < pos + length bs")
    case True
    then have "overwrite ?m pos bs ! p = bs ! (p - pos)" using bs c(2) by (auto simp: overwrite_def nth_append)
    also have "\<dots> = take (length bs) (drop pos img) ! (p - pos)" using bs(1) by (rule arg_cong)
    also have "\<dots> = drop pos img ! (p - pos)" using True by (intro nth_take) linarith
    also have "\<dots> = img ! p" using True bs(2) by (subst nth_drop) simp_all
    finally show ?thesis using True by simp
  qed (use bs c(2) in \<open>auto simp: overwrite_def nth_append\<close>)
  have shape: "ck_size k' = ck_size k" "c_size (ck_cache k') = c_size (ck_cache k)" "c_blockSize (ck_cache k') = c_blockSize (ck_cache k)"
    "ck_heap k' = ck_heap k" "ck_runs k' = ck_runs k" "ck_fetchSessions k' = ck_fetchSessions k"
    "c_tracker (ck_cache k') = c_tracker (ck_cache k)" "c_closed (ck_cache k') = c_closed (ck_cache k)"
    "c_dirtyFile (ck_cache k') = c_dirtyFile (ck_cache k)" "c_mmap (ck_cache k') \<noteq> None"
    using c(1) by (simp_all add: k'_def fill_mmap_def)
  have l: "later img k k'" using nth by (simp add: later_def shape matches_def m')
  have "sized (ck_cache k')" using c(3) shape by (simp add: cache_ok_def sized_def bs_of_def)
  then have "cache_ok R mem img k'"
    using c bs(2) shape(10) later_range [OF l] unfolding cache_ok_def shape(1-9) later_bs [OF l] m' by auto
  moreover have "matches_range img k' pos (pos + length bs)" using nth by (simp add: matches_range_def matches_def m')
  ultimately show ?thesis using inv l later_session [OF l] later_phase [OF l] by (simp add: chunk_inv_def shape)
qed

lemma own_step:
  assumes "chunk_inv R mem img k" "i < length (ck_heap k)"
    and "s_chunkOff (f (ck_heap k ! i)) = s_chunkOff (ck_heap k ! i)" "s_chunkLen (f (ck_heap k ! i)) = s_chunkLen (ck_heap k ! i)"
    and "s_bytesReady (f (ck_heap k ! i)) = s_bytesReady (ck_heap k ! i) \<or>
      unat (s_bytesReady (f (ck_heap k ! i))) \<le> unat (s_chunkLen (ck_heap k ! i)) \<and>
      matches_range img k (unat (s_chunkOff (ck_heap k ! i))) (unat (s_chunkOff (ck_heap k ! i)) + unat (s_bytesReady (f (ck_heap k ! i))))"
    and "phase_ok img k (f (ck_heap k ! i)) ph"
  shows "chunk_inv R mem img (goto_phase i ph (with_session i f k)) \<and> later img k (goto_phase i ph (with_session i f k))"
proof -
  have eq: "goto_phase i ph (with_session i f k) = k\<lparr>ck_heap := (ck_heap k)[i := f (ck_heap k ! i)],
      ck_runs := (ck_runs k)[i := (fst (ck_runs k ! i), ph)], ck_fetchSessions := ck_fetchSessions k\<rparr>"
    by (simp add: goto_phase_def with_session_def)
  have "session_ok img k (ck_heap k ! i)" using assms(1,2) by (simp add: chunk_inv_def)
  then show ?thesis unfolding eq using assms by (intro chunk_inv_own) (auto simp: session_ok_def)
qed

lemma goto_step:
  assumes "chunk_inv R mem img k" "i < length (ck_heap k)" "phase_ok img k (ck_heap k ! i) ph"
  shows "chunk_inv R mem img (goto_phase i ph k) \<and> later img k (goto_phase i ph k)"
  using own_step [OF assms(1,2), where f = "\<lambda>s. s" and ph = ph] assms(3) by (simp add: with_session_def)

text \<open>The bytes of the file: what an upstream that is not corrupt delivers.\<close>

definition of_file :: "byte list \<Rightarrow> nat \<Rightarrow> byte list \<Rightarrow> bool" where
  "of_file img pos bs \<longleftrightarrow> bs = take (length bs) (drop pos img)"

text \<open>A session and the counters of its goroutine are small numbers.\<close>

lemma session_small:
  assumes "chunk_inv R mem img k" "i < length (ck_heap k)"
  defines "s \<equiv> ck_heap k ! i"
  shows "unat (s_chunkOff s) + unat (s_chunkLen s) \<le> length img" "length img < 2 ^ 44"
    "sint (s_chunkLen s) = int (unat (s_chunkLen s))" "sint (s_chunkOff s) = int (unat (s_chunkOff s))"
    "unat (s_chunkOff s + s_chunkLen s) = unat (s_chunkOff s) + unat (s_chunkLen s)"
    "sint (s_bytesReady s) = int (unat (s_bytesReady s))"
proof -
  have so: "session_ok img k s" and N: "length img < 2 ^ 44"
    using assms by (auto simp: chunk_inv_def cache_ok_def sized_def)
  then show "unat (s_chunkOff s) + unat (s_chunkLen s) \<le> length img" "length img < 2 ^ 44" by (simp_all add: session_ok_def)
  have small: "unat (s_chunkOff s) + unat (s_chunkLen s) < 2 ^ 44" "unat (s_bytesReady s) < 2 ^ 44"
    using so N by (auto simp: session_ok_def)
  then show "sint (s_chunkLen s) = int (unat (s_chunkLen s))" "sint (s_chunkOff s) = int (unat (s_chunkOff s))"
    "sint (s_bytesReady s) = int (unat (s_bytesReady s))" by (simp_all add: sint_small_u64)
  show "unat (s_chunkOff s + s_chunkLen s) = unat (s_chunkOff s) + unat (s_chunkLen s)"
    using small by (subst unat_add_u64) simp_all
qed

lemma phase_start_inv:
  assumes inv: "chunk_inv R mem img k" "i < length (ck_heap k)" and k': "phase_start i a k = Some k'"
  shows "chunk_inv R mem img k' \<and> later img k k'"
proof -
  have *: "chunk_inv R mem img (goto_phase i (Exiting e) (with_session i (session_fail e' \<circ> setSource src) k)) \<and>
      later img k (goto_phase i (Exiting e) (with_session i (session_fail e' \<circ> setSource src) k))" for e e' src
    by (rule own_step [OF inv]) (simp_all add: session_fail_def setSource_def)
  have "chunk_inv R mem img (goto_phase i (Exiting e) (with_session i (session_fail e') k)) \<and>
      later img k (goto_phase i (Exiting e) (with_session i (session_fail e') k))" for e e'
    by (rule own_step [OF inv]) (simp_all add: session_fail_def)
  moreover have "chunk_inv R mem img (goto_phase i (Streaming 0) (with_session i (setSource src) k)) \<and>
      later img k (goto_phase i (Streaming 0) (with_session i (setSource src) k))" for src
    by (rule own_step [OF inv]) (simp_all add: setSource_def)
  moreover have "chunk_inv R mem img (goto_phase i (Exiting e) k) \<and> later img k (goto_phase i (Exiting e) k)" for e
    by (rule goto_step [OF inv]) simp
  ultimately show ?thesis using k' * by (auto simp: phase_start_def Let_def split: sum.splits answer.splits if_splits)
qed

lemma phase_read_inv:
  assumes inv: "chunk_inv R mem img k" "i < length (ck_heap k)" and ph: "phase_ok img k (ck_heap k ! i) (Streaming t)"
    and k': "phase_read readBatch i t a k = Some k'"
    and good: "\<And>bs e. a = Delivered bs e \<Longrightarrow> of_file img (unat (s_chunkOff (ck_heap k ! i)) + unat t) bs"
  shows "chunk_inv R mem img k' \<and> later img k k'"
proof -
  let ?s = "ck_heap k ! i"
  note small = session_small [OF inv]
  have t: "unat t \<le> unat (s_chunkLen ?s)" "matches_range img k (unat (s_chunkOff ?s)) (unat (s_chunkOff ?s) + unat t)"
    using ph by simp_all
  have st: "sint t = int (unat t)" using t(1) small(1,2) by (simp add: sint_small_u64)
  show ?thesis
  proof (cases "sint t < sint (s_chunkLen ?s)")
    case False
    then have "unat t = unat (s_chunkLen ?s)" using t(1) small(3) st by linarith
    then show ?thesis using False k' t(2) goto_step [OF inv, of "Closing None"] by (simp add: phase_read_def)
  next
    case True
    obtain bs e where a: "a = Delivered bs e" using True k' by (auto simp: phase_read_def Let_def split: answer.splits)
    let ?pos = "unat (s_chunkOff ?s) + unat t" and ?re = "i64_min (t + readBatch) (s_chunkLen ?s)"
    have k'': "k' = goto_phase i (Stored (length bs) (t + word_of_nat (length bs)) e) (fill_mmap ?pos bs k)"
      and len: "length bs \<le> nat (sint ?re - sint t)"
      using True k' a by (auto simp: phase_read_def Let_def split: if_splits)
    have "sint ?re \<le> sint (s_chunkLen ?s)" by (simp add: i64_min_def)
    then have n: "unat t + length bs \<le> unat (s_chunkLen ?s)" using len st small(3) t(1) by linarith
    have fill: "chunk_inv R mem img (fill_mmap ?pos bs k)" "later img k (fill_mmap ?pos bs k)"
        "matches_range img (fill_mmap ?pos bs k) ?pos (?pos + length bs)"
      using chunk_inv_fill [OF inv(1), of bs ?pos] good [OF a] n small(1) by (auto simp: of_file_def)
    have tn: "unat (t + word_of_nat (length bs)) = unat t + length bs"
      using n small(1,2) by (subst unat_add_u64) (simp_all add: unat_word_of_nat_u64)
    have h: "ck_heap (fill_mmap ?pos bs k) = ck_heap k" by (simp add: fill_mmap_def)
    have "phase_ok img (fill_mmap ?pos bs k) ?s (Stored (length bs) (t + word_of_nat (length bs)) e)"
      using n matches_range_join [OF later_range [OF fill(2) t(2)] fill(3)] by (simp add: tn add.assoc)
    with goto_step [OF fill(1)] inv(2) h later_trans [OF fill(2)] show ?thesis unfolding k'' by metis
  qed
qed

lemma phase_stored_inv:
  assumes inv: "chunk_inv R mem img k" "i < length (ck_heap k)" and ph: "phase_ok img k (ck_heap k ! i) (Stored n t e)"
  shows "chunk_inv R mem img (phase_stored i n t e k) \<and> later img k (phase_stored i n t e k)"
proof -
  let ?s = "ck_heap k ! i"
  note small = session_small [OF inv]
  have st: "sint t = int (unat t)" using ph small(1,2) by (simp add: sint_small_u64)
  have "unat t = unat (s_chunkLen ?s)" if "sint t \<ge> sint (s_chunkLen ?s)" using that ph st small(3) by simp
  then have next_ok: "phase_ok img k ?s (case e of None \<Rightarrow> Streaming t
      | Some x \<Rightarrow> if sint t \<ge> sint (s_chunkLen ?s) then Closing None else Closing (Some (ChunkRead x)))"
    using ph by (auto split: option.splits)
  have "phase_ok img k (session_advance t ?s) ph = phase_ok img k ?s ph" for ph
    by (cases "(img, k, ?s, ph)" rule: phase_ok.cases) (simp_all add: session_advance_def)
  then have "chunk_inv R mem img (goto_phase i ph' (with_session i (session_advance t) k)) \<and>
      later img k (goto_phase i ph' (with_session i (session_advance t) k))" if "phase_ok img k ?s ph'" for ph'
    using that ph by (intro own_step [OF inv]) (simp_all add: session_advance_def)
  then show ?thesis using next_ok goto_step [OF inv]
    by (cases "0 < n \<and> \<not> IsCompressed (fst (ck_runs k ! i))") (auto simp: phase_stored_def Let_def split: option.splits if_splits)
qed

lemma phase_close_inv:
  assumes inv: "chunk_inv R mem img k" "i < length (ck_heap k)" and ph: "phase_ok img k (ck_heap k ! i) (Closing e)"
  shows "chunk_inv R mem img (phase_close i e ce k) \<and> later img k (phase_close i e ce k)"
proof -
  have "chunk_inv R mem img (goto_phase i (Exiting x) (with_session i (session_fail x') k)) \<and>
      later img k (goto_phase i (Exiting x) (with_session i (session_fail x') k))" for x x'
    by (rule own_step [OF inv]) (simp_all add: session_fail_def)
  then show ?thesis using ph goto_step [OF inv, of Verified] by (auto simp: phase_close_def split: option.splits)
qed

context roaring
begin

lemma phase_mark_inv:
  assumes inv: "chunk_inv R mem img k" "i < length (ck_heap k)" and ph: "phase_ok img k (ck_heap k ! i) Verified"
    and k': "phase_mark R i k = Some k'"
  shows "chunk_inv R mem img k' \<and> later img k k'"
proof -
  let ?s = "ck_heap k ! i" and ?c = "ck_cache k" and ?B = "bs_of (ck_cache k)"
  have co: "cache_ok R mem img k" and so: "session_ok img k ?s" using inv by (simp_all add: chunk_inv_def)
  have sz: "sized ?c" and dj: "disjoint_bitmaps mem (c_tracker ?c)" using co by (simp_all add: cache_ok_def)
  obtain o' m where om: "unat (s_chunkOff ?s) = o' * ?B" "unat (s_chunkLen ?s) = m * ?B"
    using so unfolding session_ok_def by (metis dvdE mult.commute)
  have "(o' + m) * ?B \<le> blocks_of ?c * ?B"
    using so co sized_blocks(1) [OF sz] by (simp add: session_ok_def cache_ok_def om add_mult_distrib)
  then have le: "o' + m \<le> blocks_of ?c" using sized_blocks(3) [OF sz] by simp
  let ?a = "ucast (BlockIdx (s_chunkOff ?s) (c_blockSize ?c)) :: u32"
  let ?e = "ucast (BlockCeilIdx (s_chunkOff ?s + s_chunkLen ?s) (c_blockSize ?c)) :: u32"
  let ?t = "SetRange R ?a ?e Dirty (c_tracker ?c)"
  have idx: "unat ?a = o'" "unat ?e = o' + m"
    using sized_offset(3) [OF sz _ om(1)] sized_offset(4) [OF sz le sized_end(1) [OF sz le om]] le by simp_all
  have k'': "k' = goto_phase i Marked (k\<lparr>ck_cache := ?c\<lparr>c_tracker := ?t\<rparr>\<rparr>)"
    using k' by (auto simp: phase_mark_def Let_def setIsCached_def split: if_splits)
  let ?k = "k\<lparr>ck_cache := ?c\<lparr>c_tracker := ?t\<rparr>\<rparr>"
  have m: "matches_range img ?k lo hi = matches_range img k lo hi" for lo hi
    by (simp add: matches_range_def matches_def mapped_bytes_def)
  have l: "later img k ?k" by (simp add: later_def matches_def mapped_bytes_def)
  have new: "matches_range img k (unat w * ?B) (Suc (unat w) * ?B)" if "stateOf R ?t w \<noteq> NotPresent" for w
  proof (cases "?a \<le> w \<and> w < ?e")
    case True
    then have "o' * ?B \<le> unat w * ?B" "Suc (unat w) * ?B \<le> (o' + m) * ?B"
      using idx by (intro mult_le_mono1; simp add: word_le_nat_alt word_less_nat_alt)+
    then show ?thesis using ph om by (auto intro: matches_range_mono simp: add_mult_distrib)
  next
    case False
    then have "stateOf R ?t w = stateOf R (c_tracker ?c) w" unfolding SetRange_ok(2) [OF dj] spec_SetRange_def by (rule if_not_P)
    then show ?thesis using that co by (simp add: cache_ok_def)
  qed
  have "cache_ok R mem img ?k"
    using co new SetRange_ok(1) [OF dj] unfolding cache_ok_def m by (simp add: mapped_bytes_def sized_def bs_of_def)
  then have inv': "chunk_inv R mem img ?k"
    using inv(1) later_session [OF l] later_phase [OF l] by (simp add: chunk_inv_def)
  have "phase_ok img ?k (ck_heap ?k ! i) Marked" using ph m by simp
  with goto_step [OF inv' _ this] inv(2) later_trans [OF l] show ?thesis unfolding k'' by auto
qed

lemma releaseSession_subset: "set (releaseSession i act) \<subseteq> set act"
proof -
  have "set (act[j := List.last act]) \<subseteq> set act" if "i \<in> set act" for j
  proof -
    have "List.last act \<in> set act" using that by (intro last_in_set) auto
    then show ?thesis using set_update_subset_insert [of act j "List.last act"] by auto
  qed
  then show ?thesis unfolding releaseSession_def by (auto dest!: in_set_butlastD)
qed

lemma runFetch_inv:
  assumes inv: "chunk_inv R mem img k" "i < length (ck_heap k)" and k': "runFetch R readBatch i a k = Some k'"
    and good: "\<And>bs e t. a = Delivered bs e \<Longrightarrow> snd (ck_runs k ! i) = Streaming t \<Longrightarrow>
      of_file img (unat (s_chunkOff (ck_heap k ! i)) + unat t) bs"
  shows "chunk_inv R mem img k' \<and> later img k k'"
proof (cases "\<exists>m. a = Panic m")
  case True
  then show ?thesis using k' goto_step [OF inv] by (auto simp: runFetch_def split: if_splits)
next
  case False
  let ?s = "ck_heap k ! i" and ?ph = "snd (ck_runs k ! i)"
  have ph: "phase_ok img k ?s ?ph" using inv by (simp add: chunk_inv_def)
  have run: "runFetch R readBatch i a k = next_phase R readBatch i a k" using False by (cases a) (simp_all add: runFetch_def)
  note run = run [unfolded next_phase_def]
  show ?thesis
  proof (cases ?ph)
    case Starting
    then show ?thesis using phase_start_inv [OF inv] k' run by simp
  next
    case (Streaming t)
    then show ?thesis using phase_read_inv [OF inv _ _ good [OF _ Streaming]] k' run ph by simp
  next
    case (Stored n t e)
    then show ?thesis using phase_stored_inv [OF inv] k' run ph by auto
  next
    case (Closing e)
    then show ?thesis using phase_close_inv [OF inv] k' run ph by (auto split: answer.splits)
  next
    case Verified
    then show ?thesis using phase_mark_inv [OF inv] k' run ph by simp
  next
    case Marked
    then have "matches_range img k (unat (s_chunkOff ?s)) (unat (s_chunkOff ?s) + unat (s_chunkLen ?s))" using ph by simp
    then show ?thesis using own_step [OF inv, of setDone "Exiting FetchExited"] k' run Marked by (auto simp: setDone_def)
  next
    case (Exiting e)
    then show ?thesis using own_step [OF inv, of "failIfRunning e" Releasing] k' run by (auto simp: failIfRunning_def)
  next
    case Releasing
    have so: "session_ok img k ?s" using inv by (simp add: chunk_inv_def)
    have "k' = k\<lparr>ck_heap := (ck_heap k)[i := ?s], ck_runs := (ck_runs k)[i := (fst (ck_runs k ! i), Released)],
        ck_fetchSessions := releaseSession i (ck_fetchSessions k)\<rparr>"
      using k' run Releasing by (auto simp: goto_phase_def)
    then show ?thesis using chunk_inv_own [OF inv, of ?s Released] so releaseSession_subset [of i]
      by (simp add: session_ok_def)
  next
    case Released
    then show ?thesis using k' run by simp
  qed
qed

end

section \<open>Chunks\<close>

lemma sint_nonneg_eq: "0 \<le> sint (x :: i64) \<Longrightarrow> sint x = int (unat x)"
  using sint_neg_u64 [of x] sint_small_u64 [of x] by linarith

text \<open>A frame table that fits the file: its frames are ordered, inside the file, and cut it at block boundaries.\<close>

definition ft_fits :: "nat \<Rightarrow> nat \<Rightarrow> FrameTable option \<Rightarrow> bool" where
  "ft_fits B N ft \<longleftrightarrow> (case ft of None \<Rightarrow> True | Some t \<Rightarrow> frames_ok 0 0 (ft_entries t) \<and>
     (\<forall>e \<in> set (ft_entries t). int B dvd sint (StartU e) \<and> int B dvd sint (SizeU e) \<and> sint (StartU e) + sint (SizeU e) \<le> int N))"

definition is_chunk :: "nat \<Rightarrow> nat \<Rightarrow> i64 \<Rightarrow> i64 \<Rightarrow> bool" where
  "is_chunk B N co cl \<longleftrightarrow> 0 < unat cl \<and> unat co + unat cl \<le> N \<and> B dvd unat co \<and> B dvd unat cl"

lemma locateChunk_sized:
  assumes N: "N < 2 ^ 44" "unat (ck_size k) = N" "B dvd N" and B: "B dvd 4194304" and ft: "ft_fits B N ft"
    and off: "unat off < N" and loc: "locateChunk k off ft = Inr (c, l)"
  shows "is_chunk B N c l \<and> unat c \<le> unat off \<and> unat off < unat c + unat l"
proof (cases "IsCompressed ft")
  case True
  then obtain t where t: "ft = Some t" by (auto simp: IsCompressed_def split: option.splits)
  obtain e where e: "locate ft off = Inr e" "c = StartU e" "l = scast (SizeU e)"
    using loc True by (auto simp: locateChunk_def LocateUncompressed_def bind_res_eq_Inr split: sum.splits)
  have fo: "frames_ok 0 0 (ft_entries t)" using ft t by (simp add: ft_fits_def)
  have in_e: "e \<in> set (ft_entries t)" "startU_i e \<le> sint off" "sint off < endU_i e"
    using e(1) locate_iff [OF fo] t by auto
  have pos: "0 \<le> startU_i e" "startU_i e < endU_i e" using frames_ok_nth [OF fo] in_e(1) by (auto simp: in_set_conv_nth)
  have dv: "int (B) dvd startU_i e" "int (B) dvd sint (SizeU e)" "endU_i e \<le> int (N)"
    using ft t in_e(1) by (auto simp: ft_fits_def)
  have so: "sint off = int (unat off)" using off N(1) by (simp add: sint_small_u64)
  have "sint l = sint (SizeU e)" using e(3) by (simp add: sint_scast_i32)
  moreover have "sint c = int (unat c)" "sint l = int (unat l)"
    using sint_nonneg_eq [of c] sint_nonneg_eq [of l] pos calculation e(2) by simp_all
  ultimately show ?thesis using dv in_e(2,3) pos so e(2) by (auto simp: is_chunk_def simp flip: int_dvd_int_iff)
next
  case False
  let ?M = "4194304 :: nat"
  have M: "unat MemoryChunkSize = ?M" by (simp add: MemoryChunkSize_def)
  have c: "c = i64_div off MemoryChunkSize * MemoryChunkSize" "l = i64_min MemoryChunkSize (ck_size k - c)"
    using loc False by (auto simp: locateChunk_def Let_def)
  have "unat (i64_div off MemoryChunkSize) = unat off div ?M" using off N M by (subst i64_div_nonneg) simp_all
  moreover have le: "unat off div ?M * ?M \<le> unat off" by (rule div_times_less_eq_dividend)
  ultimately have uc: "unat c = unat off div ?M * ?M" using off N M unfolding c(1) by (subst unat_mult_lem [THEN iffD1]) simp_all
  have "unat (ck_size k - c) = N - unat c" using uc le off N by (subst unat_sub_u64) (simp_all add: word_le_nat_alt)
  then have ul: "unat l = min ?M (N - unat c)" unfolding c(2) using N M by (subst i64_min_nat) simp_all
  have "B dvd unat c" using B uc by simp
  moreover have "B dvd unat l" using B N(3) calculation ul by (auto simp: min_def intro: dvd_diff_nat)
  moreover have "unat off < unat c + ?M" using uc dividend_less_div_times [of ?M "unat off"] by (simp add: add.commute)
  ultimately show ?thesis using uc le off ul by (auto simp: is_chunk_def)
qed

lemma locateChunk_ok:
  assumes co: "cache_ok R mem img k" and B: "bs_of (ck_cache k) dvd 4194304" and ft: "ft_fits (bs_of (ck_cache k)) (length img) ft"
    and off: "unat off < length img" and loc: "locateChunk k off ft = Inr (c, l)"
  shows "is_chunk (bs_of (ck_cache k)) (length img) c l \<and> unat c \<le> unat off \<and> unat off < unat c + unat l"
  using co by (intro locateChunk_sized [OF _ _ _ B ft off loc]) (auto simp: cache_ok_def sized_def)

lemma getOrCreateSession_inv:
  assumes inv: "chunk_inv R mem img k" and ch: "is_chunk (bs_of (ck_cache k)) (length img) c l"
    and g: "getOrCreateSession R c l ft k = (k', r)"
  shows "chunk_inv R mem img k' \<and> later img k k' \<and>
    (case r of None \<Rightarrow> k' = k \<and> isCached R (ck_cache k) c l = Some True
     | Some i \<Rightarrow> i < length (ck_heap k') \<and> session_contains (ck_heap k' ! i) c l)"
proof (cases "find (\<lambda>i. session_contains (ck_heap k ! i) c l) (ck_fetchSessions k)")
  case (Some i)
  then have "i \<in> set (ck_fetchSessions k)" "session_contains (ck_heap k ! i) c l"
    by (auto simp: find_Some_iff)
  moreover have "k' = k" "r = Some i" using g Some by (simp_all add: getOrCreateSession_def)
  ultimately show ?thesis using inv by (auto simp: chunk_inv_def)
next
  case None
  show ?thesis
  proof (cases "isCached R (ck_cache k) c l = Some True")
    case True
    then show ?thesis using inv g None by (auto simp: getOrCreateSession_def)
  next
    case False
    let ?s = "newFetchSession c l"
    let ?k = "k\<lparr>ck_heap := ck_heap k @ [?s], ck_runs := ck_runs k @ [(ft, Starting)],
        ck_fetchSessions := ck_fetchSessions k @ [length (ck_heap k)]\<rparr>"
    have k': "k' = ?k" "r = Some (length (ck_heap k))" using g None False by (auto simp: getOrCreateSession_def)
    have l: "later img k ?k" by (auto simp: later_def matches_def nth_append)
    have m: "matches_range img ?k lo hi = matches_range img k lo hi" for lo hi by (simp add: matches_range_def matches_def)
    have "session_ok img ?k ?s" using ch by (simp add: session_ok_def newFetchSession_def is_chunk_def)
    moreover have "session_ok img ?k (ck_heap k ! i) \<and> phase_ok img ?k (ck_heap k ! i) (snd (ck_runs k ! i))" if "i < length (ck_heap k)" for i
      using inv that later_session [OF l] later_phase [OF l] by (simp add: chunk_inv_def)
    moreover have "cache_ok R mem img ?k" using inv unfolding chunk_inv_def cache_ok_def m by simp
    ultimately have "chunk_inv R mem img ?k"
      using inv by (auto simp: chunk_inv_def nth_append less_Suc_eq)
    then show ?thesis using l k' by (simp add: session_contains_def newFetchSession_def)
  qed
qed

section \<open>Interleavings keep the invariant\<close>

text \<open>A world whose upstream delivers bytes of the file and whose frame tables fit it.\<close>

definition honest_world :: "'bm roaring_ops \<Rightarrow> byte list \<Rightarrow> nat \<Rightarrow> 'bm world \<Rightarrow> bool" where
  "honest_world R img B W \<longleftrightarrow> w_ops W = R \<and> w_good W = of_file img \<and> B dvd 4194304 \<and> (\<forall>ft \<in> w_fts W. ft_fits B (length img) ft)"

context roaring
begin

lemma moves_inv:
  assumes "moves W k k'" and "honest_world R img (bs_of (ck_cache k)) W" and "chunk_inv R mem img k"
  shows "chunk_inv R mem img k' \<and> later img k k'"
  using assms(1)
proof induction
  case (further k1 k2)
  have bs: "bs_of (ck_cache k1) = bs_of (ck_cache k)" using further.IH later_bs by blast
  from further.hyps(2) have "chunk_inv R mem img k2 \<and> later img k1 k2"
  proof (cases rule: chunk_step.cases)
    case (fetch_moves i a)
    then show ?thesis using further.IH assms(2) by (intro runFetch_inv [where a = a]) (auto simp: honest_world_def)
  next
    case (other_reader ft off c l)
    have ft: "ft_fits (bs_of (ck_cache k1)) (length img) ft" "bs_of (ck_cache k1) dvd 4194304"
      using assms(2) other_reader(2) bs by (auto simp: honest_world_def)
    have co: "cache_ok R mem img k1" using further.IH by (simp add: chunk_inv_def)
    have "unat off < length img"
      using other_reader(3,4) sint_nonneg_eq [of off] co sint_small_u64 [of "ck_size k1"] by (auto simp: cache_ok_def sized_def)
    from locateChunk_ok [OF co ft(2,1) this other_reader(5)]
    have "is_chunk (bs_of (ck_cache k1)) (length img) c l" by blast
    from getOrCreateSession_inv [OF conjunct1 [OF further.IH] this prod.collapse [symmetric]] other_reader(1) assms(2)
    show ?thesis by (simp add: honest_world_def)
  qed
  then show ?case using further.IH later_trans by blast
qed (use assms(3) in simp)

end

section \<open>Readers\<close>

lemma ceil_idx:
  assumes "unat x < 2 ^ 45" "0 < unat bs" "unat bs < 2 ^ 44"
  shows "unat (BlockCeilIdx x bs) = (unat x + unat bs - 1) div unat bs"
proof -
  have a: "unat (x + bs) = unat x + unat bs" using assms by (subst unat_add_u64) simp_all
  then have "unat (x + bs - 1) = unat x + unat bs - 1" using assms by (subst unat_sub_u64) (simp_all add: word_le_nat_alt)
  then show ?thesis using assms unfolding BlockCeilIdx_def by (subst i64_div_nonneg) simp_all
qed

lemma below_ceil: "(p :: nat) < e \<Longrightarrow> 0 < B \<Longrightarrow> p div B < (e + B - 1) div B"
proof -
  assume "p < e" "0 < B"
  then have "p + B \<le> e + B - 1" by simp
  then have "(p + B) div B \<le> (e + B - 1) div B" by (rule div_le_mono)
  then show ?thesis using div_add_self2 [of B p] \<open>0 < B\<close> by linarith
qed

context roaring
begin

lemma isCached_matches:
  assumes co: "cache_ok R mem img k" and c: "isCached R (ck_cache k) off len = Some True" and small: "unat off + unat len < 2 ^ 45"
  shows "matches_range img k (unat off) (min (unat off + unat len) (length img))"
proof -
  let ?c = "ck_cache k" and ?B = "bs_of (ck_cache k)" and ?hi = "min (unat off + unat len) (length img)"
  have sz: "sized ?c" and dj: "disjoint_bitmaps mem (c_tracker ?c)" and N: "length img = unat (c_size ?c)" "length img < 2 ^ 44"
    using co by (auto simp: cache_ok_def sized_def)
  note B = sized_blocks [OF sz]
  have B': "unat (c_blockSize ?c) = ?B" "?B < 2 ^ 44" using sz by (simp_all add: bs_of_def sized_def)
  have "unat (off + len) = unat off + unat len" using small by (subst unat_add_u64) simp_all
  then have hi: "unat (i64_min (off + len) (c_size ?c)) = ?hi" using small N by (subst i64_min_nat) simp_all
  let ?a = "ucast (BlockIdx off (c_blockSize ?c)) :: u32" and ?e = "ucast (BlockCeilIdx (i64_min (off + len) (c_size ?c)) (c_blockSize ?c)) :: u32"
  have "unat (BlockIdx off (c_blockSize ?c)) = unat off div ?B" unfolding BlockIdx_def using small B' by (subst i64_div_nonneg) simp_all
  then have a: "unat ?a = unat off div ?B" if "unat off div ?B < 2 ^ 32" using that by (simp add: unat_ucast_u64_u32)
  have ce: "unat (BlockCeilIdx (i64_min (off + len) (c_size ?c)) (c_blockSize ?c)) = (?hi + ?B - 1) div ?B"
    using hi B' B(3) N(2) by (subst ceil_idx) simp_all
  have "(?hi + ?B - 1) div ?B \<le> (blocks_of ?c * ?B + ?B - 1) div ?B" using B(1) N(1) by (intro div_le_mono) simp
  also have "\<dots> = blocks_of ?c" using B(3) by (intro div_nat_eqI) (simp_all add: mult.commute)
  finally have e: "unat ?e = (?hi + ?B - 1) div ?B" using ce B(2) by (simp add: unat_ucast_u64_u32)
  have present: "Present R ?a ?e (c_tracker ?c)" using c by (auto simp: isCached_def Let_def split: if_splits)
  have "matches img k p" if p: "unat off \<le> p" "p < ?hi" for p
  proof -
    have "p div ?B < blocks_of ?c" using p(2) N(1) B by (simp add: div_less_iff_less_mult)
    then have pB: "unat (word_of_nat (p div ?B) :: u32) = p div ?B" using B(2) by (simp add: unat_of_nat take_bit_nat_eq_self)
    have "p div ?B < unat ?e" using below_ceil [OF p(2) B(3)] e by simp
    moreover have le: "unat off div ?B \<le> p div ?B" using p(1) by (rule div_le_mono)
    moreover have "unat ?a = unat off div ?B" using a le \<open>p div ?B < blocks_of ?c\<close> B(2) by simp
    ultimately have "?a < ?e" "?a \<le> word_of_nat (p div ?B)" "word_of_nat (p div ?B) < ?e"
      using pB by (simp_all add: word_le_nat_alt word_less_nat_alt)
    then have "stateOf R (c_tracker ?c) (word_of_nat (p div ?B)) \<noteq> NotPresent"
      using present unfolding Present_ok [OF dj \<open>?a < ?e\<close>] by blast
    then have "matches_range img k (p div ?B * ?B) (Suc (p div ?B) * ?B)" using co pB unfolding cache_ok_def by metis
    then show ?thesis using dividend_less_div_times [OF B(3), of p] by (simp add: matches_range_def add.commute)
  qed
  then show ?thesis by (simp add: matches_range_def)
qed

text \<open>A wait that returns without error: the part of the block that the session covers is there.\<close>

lemma registerAndWait_ok:
  assumes "registerAndWait W i b k k' None" and W: "honest_world R img (bs_of (ck_cache k)) W" and inv: "chunk_inv R mem img k"
    and i: "i < length (ck_heap k)"
  defines "ce \<equiv> unat (s_chunkOff (ck_heap k ! i)) + unat (s_chunkLen (ck_heap k ! i))"
  shows "chunk_inv R mem img k' \<and> later img k k' \<and> matches_range img k' (unat b) (min (unat b + bs_of (ck_cache k)) ce)"
  using assms(1)
proof (cases rule: registerAndWait.cases)
  case (woken ctx)
  note inv' = moves_inv [OF woken(2) W inv]
  have same: "s_chunkOff (ck_heap k' ! i) = s_chunkOff (ck_heap k ! i)" "s_chunkLen (ck_heap k' ! i) = s_chunkLen (ck_heap k ! i)"
    "i < length (ck_heap k')" "c_blockSize (ck_cache k') = c_blockSize (ck_cache k)"
    using conjunct2 [OF inv'] i by (auto simp: later_def)
  let ?s = "ck_heap k' ! i" and ?B = "bs_of (ck_cache k)"
  note small = session_small [OF conjunct1 [OF inv'] same(3)]
  have so: "session_ok img k' ?s" and co: "cache_ok R mem img k'" using inv' same(3) by (simp_all add: chunk_inv_def)
  have ce: "ce = unat (s_chunkOff ?s) + unat (s_chunkLen ?s)" by (simp add: ce_def same)
  have "sint (s_chunkOff ?s) \<le> sint b" "sint b < sint (s_chunkOff ?s + s_chunkLen ?s)"
    using woken(1) by (auto simp: wait_args_def same split: if_splits)
  moreover have "sint (s_chunkOff ?s + s_chunkLen ?s) = int ce" using small(1,2,5) ce by (subst sint_small_u64) simp_all
  ultimately have b: "unat (s_chunkOff ?s) \<le> unat b" "unat b < ce" using small(4) sint_nonneg_eq [of b] by auto
  have B: "unat (c_blockSize (ck_cache k')) = ?B" "?B < 2 ^ 44" using same(4) co by (auto simp: bs_of_def cache_ok_def sized_def)
  have ceN: "ce \<le> length img" "length img < 2 ^ 44" using small ce by simp_all
  have eb: "unat (end_byte (c_blockSize (ck_cache k')) ?s b) = min (unat b + ?B - unat (s_chunkOff ?s)) (unat (s_chunkLen ?s))"
  proof -
    have s: "unat (b + c_blockSize (ck_cache k')) = unat b + ?B" using b ceN B by (subst unat_add_u64) simp_all
    then have "unat (b + c_blockSize (ck_cache k') - s_chunkOff ?s) = unat b + ?B - unat (s_chunkOff ?s)"
      using b(1) by (subst unat_sub_u64) (simp_all add: word_le_nat_alt)
    then show ?thesis unfolding end_byte_def using b ceN B small(1) by (subst i64_min_nat) simp_all
  qed
  then have seb: "sint (end_byte (c_blockSize (ck_cache k')) ?s b) = int (min (unat b + ?B - unat (s_chunkOff ?s)) (unat (s_chunkLen ?s)))"
    using small(1,2) by (subst sint_small_u64) simp_all
  consider (ready) "unat (s_bytesReady ?s) \<ge> min (unat b + ?B - unat (s_chunkOff ?s)) (unat (s_chunkLen ?s))"
    | (cached) "isCached R (ck_cache k') b (c_blockSize (ck_cache k')) = Some True"
    using woken(3) W seb small(6) by (auto simp: wait_check_def honest_world_def split: if_splits option.splits)
  then have "matches_range img k' (unat b) (min (unat b + ?B) ce)"
  proof cases
    case ready
    then show ?thesis using so b ce unfolding session_ok_def by (auto intro: matches_range_mono)
  next
    case cached
    from isCached_matches [OF co this] b ceN B show ?thesis by (auto intro: matches_range_mono)
  qed
  then show ?thesis using inv' by blast
qed

lemma wait_blocks_ok:
  assumes "wait_blocks W i ce fb b k k' e" and "e = None" and "honest_world R img (bs_of (ck_cache k)) W" "chunk_inv R mem img k"
    and "i < length (ck_heap k)" "ce = chunk_end (ck_heap k ! i)" "bs_of (ck_cache k) dvd unat b" "bs_of (ck_cache k) dvd unat fb"
    and "unat b < 2 ^ 45" "unat fb < 2 ^ 44"
  shows "chunk_inv R mem img k' \<and> later img k k' \<and> matches_range img k' (unat b) (min (unat fb + bs_of (ck_cache k)) (unat ce))"
  using assms
proof (induction rule: wait_blocks.induct)
  case (past_end b fb i ce k)
  have "unat fb < unat b" using past_end by (simp add: sint_small_u64)
  then have "unat fb + bs_of (ck_cache k) \<le> unat b" using past_end.prems(6,7)
    by (metis add.commute dvd_diff_nat dvd_imp_le le_add_diff_inverse2 less_imp_le_nat nat_add_left_cancel_le zero_less_diff)
  then show ?case using past_end.prems(3) by simp
next
  case (tail b fb ce i k)
  have "unat ce \<le> unat b"
    using tail.hyps(2) tail.prems session_small(1,2,5) [OF tail.prems(3,4)] by (simp add: sint_small_u64 chunk_end_def)
  then show ?case using tail.prems by simp
next
  case (ready b fb ce i k k1 k2 e)
  note r = registerAndWait_ok [OF ready.hyps(3) ready.prems(2-4)]
  have s: "bs_of (ck_cache k1) = bs_of (ck_cache k)" "i < length (ck_heap k1)" "ce = chunk_end (ck_heap k1 ! i)"
    using r later_bs [of img k k1] ready.prems(4,5) by (auto simp: later_def chunk_end_def)
  have uce: "unat ce = unat (s_chunkOff (ck_heap k ! i)) + unat (s_chunkLen (ck_heap k ! i))"
    using session_small(5) [OF ready.prems(3,4)] ready.prems(5) by (simp add: chunk_end_def)
  have B: "unat (c_blockSize (ck_cache k)) = bs_of (ck_cache k)" "bs_of (ck_cache k) < 2 ^ 44"
    using ready.prems(3) by (auto simp: bs_of_def chunk_inv_def cache_ok_def sized_def)
  have fb: "unat b \<le> unat fb" using ready.hyps(1) ready.prems(8,9) by (simp add: sint_small_u64)
  have bB: "unat (b + c_blockSize (ck_cache k)) = unat b + bs_of (ck_cache k)" using B ready.prems(8) by (subst unat_add_u64) simp_all
  have "chunk_inv R mem img k2 \<and> later img k1 k2 \<and>
      matches_range img k2 (unat b + bs_of (ck_cache k)) (min (unat fb + bs_of (ck_cache k)) (unat ce))"
    using ready.IH r s bB B fb ready.prems(1,2,6,7,9) by simp
  moreover have "matches_range img k2 (unat b) (min (unat b + bs_of (ck_cache k)) (unat ce))"
    using calculation r later_range uce by metis
  ultimately show ?case using r later_trans [of img k k1 k2]
    unfolding matches_range_def by (metis min_less_iff_conj not_le)
qed simp

end

lemma block_floor:
  assumes "unat off < 2 ^ 45" "0 < unat bs" "unat bs < 2 ^ 44"
  shows "unat bs dvd unat (i64_div off bs * bs)" "unat (i64_div off bs * bs) \<le> unat off"
    "unat off < unat (i64_div off bs * bs) + unat bs"
proof -
  have le: "unat off div unat bs * unat bs \<le> unat off" by (rule div_times_less_eq_dividend)
  have "unat (i64_div off bs) = unat off div unat bs" using assms by (subst i64_div_nonneg) simp_all
  moreover have "unat off div unat bs * unat bs < 2 ^ 64" using le_less_trans [OF le assms(1)] by simp
  ultimately have u: "unat (i64_div off bs * bs) = unat off div unat bs * unat bs"
    by (subst unat_mult_lem [THEN iffD1]) simp_all
  show "unat (i64_div off bs * bs) \<le> unat off" "unat bs dvd unat (i64_div off bs * bs)" using le u by simp_all
  show "unat off < unat (i64_div off bs * bs) + unat bs"
    using dividend_less_div_times [OF assms(2), of "unat off"] u by (simp add: add.commute)
qed

text \<open>The blocks of a range.\<close>

lemma range_blocks:
  assumes N: "N < 2 ^ 44" "unat off + unat len \<le> N" and len: "0 < unat len"
    and B: "unat (c_blockSize (ck_cache k)) = B" "0 < B" "B < 2 ^ 44"
  shows "B dvd unat (first_block k off)" "unat (first_block k off) \<le> unat off" "B dvd unat (final_block k off len)"
    "unat (final_block k off len) < 2 ^ 44" "unat off + unat len \<le> unat (final_block k off len) + B"
    "unat (final_block k off len + c_blockSize (ck_cache k)) = unat (final_block k off len) + B"
proof -
  have "unat (off + len) = unat off + unat len" using N by (subst unat_add_u64) simp_all
  then have l1: "unat (off + len - 1) = unat off + unat len - 1" using len by (subst unat_sub_u64) (simp_all add: word_le_nat_alt)
  have small: "unat (off + len - 1) < 2 ^ 45" "unat off < 2 ^ 45" "0 < unat (c_blockSize (ck_cache k))" "unat (c_blockSize (ck_cache k)) < 2 ^ 44"
    using l1 N B by simp_all
  note f = block_floor [OF small(1,3,4), folded final_block_def, unfolded B(1) l1]
    and g = block_floor [OF small(2-4), folded first_block_def, unfolded B(1)]
  show "B dvd unat (first_block k off)" "unat (first_block k off) \<le> unat off" "B dvd unat (final_block k off len)"
    using f g by blast+
  show "unat (final_block k off len) < 2 ^ 44" and "unat off + unat len \<le> unat (final_block k off len) + B" using f N len by linarith+
  then show "unat (final_block k off len + c_blockSize (ck_cache k)) = unat (final_block k off len) + B"
    using B by (subst unat_add_u64) simp_all
qed

context roaring
begin

text \<open>The session that serves a chunk covers it, in numbers.\<close>

lemma contains_range:
  assumes "chunk_inv R mem img k" "i < length (ck_heap k)" "session_contains (ck_heap k ! i) c l" "is_chunk B (length img) c l"
  shows "unat (s_chunkOff (ck_heap k ! i)) \<le> unat c" "unat c + unat l \<le> unat (chunk_end (ck_heap k ! i))"
proof -
  note small = session_small [OF assms(1,2)]
  have cl: "unat (c + l) = unat c + unat l" "unat c + unat l < 2 ^ 44"
    using assms(4) small(2) unat_add_u64 [of c l] by (auto simp: is_chunk_def)
  have "sint (c + l) = int (unat c + unat l)" "sint c = int (unat c)" using cl by (simp_all add: sint_small_u64)
  moreover have "sint (chunk_end (ck_heap k ! i)) = int (unat (chunk_end (ck_heap k ! i)))"
    using small(1,2,5) by (simp add: chunk_end_def sint_small_u64)
  ultimately show "unat (s_chunkOff (ck_heap k ! i)) \<le> unat c" "unat c + unat l \<le> unat (chunk_end (ck_heap k ! i))"
    using assms(3) small(4) by (auto simp: session_contains_def chunk_end_def)
qed

text \<open>Entering a session: the reader takes the lock at some later moment.\<close>

lemma session_entered:
  assumes W: "honest_world R img (bs_of (ck_cache k)) W" and inv: "chunk_inv R mem img k"
    and chunk: "is_chunk (bs_of (ck_cache k)) (length img) c l"
    and m: "moves W k k1" "getOrCreateSession (w_ops W) c l ft k1 = (k2, r)"
  shows "chunk_inv R mem img k2" "later img k k2" "honest_world R img (bs_of (ck_cache k2)) W"
    "case r of None \<Rightarrow> isCached R (ck_cache k2) c l = Some True
     | Some i \<Rightarrow> i < length (ck_heap k2) \<and> session_contains (ck_heap k2 ! i) c l"
proof -
  note m1 = moves_inv [OF m(1) W inv]
  have "is_chunk (bs_of (ck_cache k1)) (length img) c l" using chunk later_bs m1 by metis
  moreover have "getOrCreateSession R c l ft k1 = (k2, r)" using m(2) W by (simp add: honest_world_def)
  ultimately have g: "chunk_inv R mem img k2 \<and> later img k1 k2 \<and> (case r of None \<Rightarrow> k2 = k1 \<and> isCached R (ck_cache k1) c l = Some True
     | Some i \<Rightarrow> i < length (ck_heap k2) \<and> session_contains (ck_heap k2 ! i) c l)"
    using getOrCreateSession_inv [OF conjunct1 [OF m1]] by blast
  then show "chunk_inv R mem img k2" and l: "later img k k2" using conjunct2 [OF m1] later_trans by blast+
  show "honest_world R img (bs_of (ck_cache k2)) W" using W later_bs [OF l] by simp
  show "case r of None \<Rightarrow> isCached R (ck_cache k2) c l = Some True
     | Some i \<Rightarrow> i < length (ck_heap k2) \<and> session_contains (ck_heap k2 ! i) c l"
    using g by (auto split: option.splits)
qed

text \<open>The fast path of \<open>fetch\<close>: the progress counter is past the last byte that is needed.\<close>

lemma streamed_range:
  assumes inv: "chunk_inv R mem img k" and i: "i < length (ck_heap k)" and x: "unat x < 2 ^ 45"
    and le: "unat (s_chunkOff (ck_heap k ! i)) \<le> unat x"
    and r: "sint (i64_min x (chunk_end (ck_heap k ! i)) - s_chunkOff (ck_heap k ! i)) \<le> sint (s_bytesReady (ck_heap k ! i))"
  shows "matches_range img k (unat (s_chunkOff (ck_heap k ! i))) (min (unat x) (unat (chunk_end (ck_heap k ! i))))"
proof -
  let ?s = "ck_heap k ! i" let ?m = "min (unat x) (unat (chunk_end ?s))"
  note small = session_small [OF inv i]
  have ce: "unat (chunk_end ?s) = unat (s_chunkOff ?s) + unat (s_chunkLen ?s)" using small(5) by (simp add: chunk_end_def)
  have mm: "unat (i64_min x (chunk_end ?s)) = ?m" using x ce small(1,2) by (subst i64_min_nat) simp_all
  then have "unat (i64_min x (chunk_end ?s) - s_chunkOff ?s) = ?m - unat (s_chunkOff ?s)"
    using le ce by (subst unat_sub_u64) (simp_all add: word_le_nat_alt)
  then have "sint (i64_min x (chunk_end ?s) - s_chunkOff ?s) = int (?m - unat (s_chunkOff ?s))"
    using x by (subst sint_small_u64) simp_all
  then have "?m - unat (s_chunkOff ?s) \<le> unat (s_bytesReady ?s)" using r small(6) by simp
  moreover have "session_ok img k ?s" using inv i by (simp add: chunk_inv_def)
  ultimately show ?thesis by (auto simp: session_ok_def elim!: matches_range_mono)
qed

lemma fetch_ok:
  assumes "fetch W ft off len k k' None" and W: "honest_world R img (bs_of (ck_cache k)) W" and inv: "chunk_inv R mem img k"
    and ft: "ft \<in> w_fts W" and off: "unat off < length img" and len: "0 < unat len"
    and loc: "locateChunk k off ft = Inr (c, l)" "unat off + unat len \<le> unat c + unat l"
  shows "chunk_inv R mem img k' \<and> later img k k' \<and> matches_range img k' (unat off) (unat off + unat len)"
proof -
  let ?B = "bs_of (ck_cache k)" and ?fb = "final_block k off len" and ?sb = "first_block k off"
  have co: "cache_ok R mem img k" using inv by (simp add: chunk_inv_def)
  have fits: "ft_fits ?B (length img) ft" "?B dvd 4194304" using W ft by (auto simp: honest_world_def)
  have chunk: "is_chunk ?B (length img) c l" "unat c \<le> unat off"
    using locateChunk_ok [OF co fits(2,1) off loc(1)] by simp_all
  have N: "length img < 2 ^ 44" "unat off + unat len \<le> length img" using co loc(2) chunk(1) by (auto simp: cache_ok_def sized_def is_chunk_def)
  have B: "unat (c_blockSize (ck_cache k)) = ?B" "0 < ?B" "?B < 2 ^ 44" using co by (auto simp: bs_of_def cache_ok_def sized_def)
  note blocks = range_blocks [OF N len B]
  note entered = session_entered [OF W inv chunk(1)]
  from assms(1) show ?thesis
  proof (cases rule: fetch.cases)
    case (just_cached c' l' k1)
    have cl: "c' = c" "l' = l" using just_cached(1) loc(1) by simp_all
    note e = entered [OF just_cached(2) just_cached(3) [unfolded cl]]
    have "cache_ok R mem img k'" using e(1) by (simp add: chunk_inv_def)
    from isCached_matches [OF this, of c l]
    have "matches_range img k' (unat c) (unat c + unat l)" using e(4) chunk(1) N(1) by (simp add: is_chunk_def)
    then have "matches_range img k' (unat off) (unat off + unat len)"
      by (rule matches_range_mono) (use chunk N(2) loc(2) in simp_all)
    then show ?thesis using e by blast
  next
    case (streamed c' l' k1 k2 i)
    have cl: "c' = c" "l' = l" using streamed(1) loc(1) by simp_all
    note e = entered [OF streamed(2) streamed(3) [unfolded cl]]
    note m = moves_inv [OF streamed(4) e(3,1)]
    have s': "i < length (ck_heap k')" "s_chunkOff (ck_heap k' ! i) = s_chunkOff (ck_heap k2 ! i)"
      "chunk_end (ck_heap k' ! i) = chunk_end (ck_heap k2 ! i)" using m e(4) by (auto simp: later_def chunk_end_def)
    note r = contains_range [OF e(1) _ _ chunk(1), of i]
    have "matches_range img k' (unat (s_chunkOff (ck_heap k' ! i)))
        (min (unat (?fb + c_blockSize (ck_cache k))) (unat (chunk_end (ck_heap k' ! i))))"
      using streamed_range [OF conjunct1 [OF m] s'(1), of "?fb + c_blockSize (ck_cache k)"] streamed(5) s' r e(4) blocks B(3) chunk(2)
      by simp
    then have "matches_range img k' (unat off) (unat off + unat len)"
      using s' r e(4) blocks chunk(2) loc(2) by (auto elim!: matches_range_mono)
    then show ?thesis using m e(2) later_trans by blast
  next
    case (waited c' l' k1 k2 i k3)
    have cl: "c' = c" "l' = l" using waited(1) loc(1) by simp_all
    note e = entered [OF waited(2) waited(3) [unfolded cl]]
    note m = moves_inv [OF waited(4) e(3,1)] and r = contains_range [OF e(1) _ _ chunk(1), of i]
    have s: "bs_of (ck_cache k3) = ?B" "i < length (ck_heap k3)" "chunk_end (ck_heap k2 ! i) = chunk_end (ck_heap k3 ! i)"
      using m e later_bs [of img k2 k3] later_bs [of img k k2] by (auto simp: later_def chunk_end_def)
    have w: "chunk_inv R mem img k' \<and> later img k3 k' \<and>
        matches_range img k' (unat ?sb) (min (unat ?fb + ?B) (unat (chunk_end (ck_heap k2 ! i))))"
      using wait_blocks_ok [OF waited(5) refl _ conjunct1 [OF m] s(2,3)] W s(1) blocks N off by simp
    have "matches_range img k' (unat off) (unat off + unat len)"
      using matches_range_mono [OF conjunct2 [OF conjunct2 [OF w]]] r e(4) blocks loc(2) by simp
    then show ?thesis using m w e(2) later_trans by blast
  qed
qed

end

context roaring
begin

lemma fetch_chunks_ok:
  assumes "fetch_chunks W ft hi cur k k' e" and "e = None" and "honest_world R img (bs_of (ck_cache k)) W" "chunk_inv R mem img k"
    and "ft \<in> w_fts W" "unat hi \<le> length img" "unat cur \<le> length img"
  shows "chunk_inv R mem img k' \<and> later img k k' \<and> matches_range img k' (unat cur) (unat hi)"
  using assms
proof (induction rule: fetch_chunks.induct)
  case (all_fetched cur k)
  have "length img < 2 ^ 44" using all_fetched.prems(3) by (simp add: chunk_inv_def cache_ok_def sized_def)
  then have "unat hi \<le> unat cur" using all_fetched by (simp add: sint_small_u64)
  then show ?case using all_fetched.prems by simp
next
  case (next_chunk cur k c l k1 k2 e)
  have co: "cache_ok R mem img k" and N: "length img < 2 ^ 44" using next_chunk.prems(3) by (auto simp: chunk_inv_def cache_ok_def sized_def)
  have lt: "unat cur < unat hi" using next_chunk.hyps(1) next_chunk.prems(5,6) N by (simp add: sint_small_u64)
  have fits: "ft_fits (bs_of (ck_cache k)) (length img) ft" "bs_of (ck_cache k) dvd 4194304"
    using next_chunk.prems(2,4) by (auto simp: honest_world_def)
  have "unat cur < length img" using lt next_chunk.prems(5) by simp
  note loc = locateChunk_ok [OF co fits(2,1) this next_chunk.hyps(2)]
  have cl: "unat (c + l) = unat c + unat l" "unat c + unat l \<le> length img" "unat cur < unat c + unat l"
    using loc N unat_add_u64 [of c l] by (auto simp: is_chunk_def)
  let ?re = "i64_min hi (c + l)"
  have re: "unat ?re = min (unat hi) (unat c + unat l)" using cl N next_chunk.prems(5) by (subst i64_min_nat) simp_all
  then have d: "unat (?re - cur) = min (unat hi) (unat c + unat l) - unat cur" using lt cl(3)
    by (subst unat_sub_u64) (simp_all add: word_le_nat_alt)
  have f: "chunk_inv R mem img k1 \<and> later img k k1 \<and> matches_range img k1 (unat cur) (min (unat hi) (unat c + unat l))"
    using fetch_ok [OF next_chunk.hyps(3) next_chunk.prems(2,3,4) \<open>unat cur < length img\<close> _ next_chunk.hyps(2)] d lt cl by simp
  have "chunk_inv R mem img k2 \<and> later img k1 k2 \<and> matches_range img k2 (unat c + unat l) (unat hi)"
    using next_chunk.IH f next_chunk.prems later_bs [of img k k1] cl by simp
  moreover have "matches_range img k2 (unat cur) (min (unat hi) (unat c + unat l))" using calculation f later_range by blast
  ultimately show ?case using f later_trans [of img k k1 k2] unfolding matches_range_def by (metis min_less_iff_conj not_le)
qed simp_all

lemma mmap_slice_matches:
  assumes co: "cache_ok R mem img k" and m: "matches_range img k (unat off) (unat off + unat len)" and le: "unat off + unat len \<le> length img"
  shows "mmap_slice (ck_cache k) off (i64_min (off + len) (c_size (ck_cache k))) = Inr (take (unat len) (drop (unat off) img))"
proof -
  let ?mm = "mapped_bytes (ck_cache k)"
  have c: "c_mmap (ck_cache k) = Some ?mm" "length ?mm = length img" "unat (c_size (ck_cache k)) = length img" "length img < 2 ^ 44"
    using co by (auto simp: cache_ok_def mapped_bytes_def sized_def)
  have ol: "unat (off + len) = unat off + unat len" using le c(4) by (subst unat_add_u64) simp_all
  then have e: "unat (i64_min (off + len) (c_size (ck_cache k))) = unat off + unat len" using le c by (subst i64_min_nat) simp_all
  have "take (unat len) (drop (unat off) ?mm) = take (unat len) (drop (unat off) img)"
    using m le c(2) by (intro nth_equalityI) (auto simp: matches_range_def matches_def)
  then show ?thesis using c le e unfolding mmap_slice_def by (simp add: go_slice_nat)
qed

lemma Slice_ok:
  assumes "Chunker_Slice W ft off len k k' (Inr b)" and W: "honest_world R img (bs_of (ck_cache k)) W" and inv: "chunk_inv R mem img k"
    and ft: "ft \<in> w_fts W" and le: "unat off + unat len \<le> length img" and off: "unat off < length img"
  shows "b = take (unat len) (drop (unat off) img)"
proof -
  have R: "w_ops W = R" using W by (simp add: honest_world_def)
  have co: "cache_ok R mem img k" and N: "length img < 2 ^ 44" using inv by (auto simp: chunk_inv_def cache_ok_def sized_def)
  have ol: "unat (off + len) = unat off + unat len" using le N by (subst unat_add_u64) simp_all
  from assms(1) show ?thesis
  proof (cases rule: Chunker_Slice.cases)
    case cached
    have "isCached R (ck_cache k) off len = Some True" "Cache_Slice R (ck_cache k) off len = mmap_slice (ck_cache k) off (i64_min (off + len) (c_size (ck_cache k)))"
      using cached(2) co R by (auto simp: Cache_Slice_def cache_ok_def isClosed_def split: if_splits option.splits bool.splits)
    then show ?thesis using mmap_slice_matches [OF co _ le] isCached_matches [OF co, of off len] le N cached(2) R by (simp add: min_def)
  next
    case (fetched k1 k2)
    note m1 = moves_inv [OF fetched(3) W inv]
    have W1: "honest_world R img (bs_of (ck_cache k1)) W" using m1 W later_bs [of img k k1] by simp
    have f: "chunk_inv R mem img k2 \<and> later img k1 k2 \<and> matches_range img k2 (unat off) (unat off + unat len)"
      using fetch_chunks_ok [OF fetched(4) refl W1 conjunct1 [OF m1] ft] ol le off by simp
    have W2: "honest_world R img (bs_of (ck_cache k2)) W" using f W1 later_bs [of img k1 k2] by simp
    note m3 = moves_inv [OF fetched(5) W2 conjunct1 [OF f]]
    have co3: "cache_ok R mem img k'" using m3 by (simp add: chunk_inv_def)
    have "matches_range img k' (unat off) (unat off + unat len)" using f m3 later_range by blast
    note s = mmap_slice_matches [OF co3 this le]
    have "\<not> isClosed (ck_cache k')" "c_mmap (ck_cache k') \<noteq> None" using co3 by (auto simp: cache_ok_def isClosed_def)
    then show ?thesis using fetched(1) s by (auto simp: sliceDirect_def split: if_splits)
  qed
qed

end

end
