(* ===== verification/Chunker_Ends.thy ===== *)
theory Chunker_Ends
  imports Chunker_Reads
begin

text \<open>
  The steps that a fetch has left, whatever the upstream does, and two properties of the chunker: what a \<open>Slice\<close> returns, and what happens to
  a \<open>Slice\<close> that reaches past the end of the file.
\<close>

section \<open>Steps left\<close>

fun phase_left :: "nat \<Rightarrow> phase \<Rightarrow> nat" where
  "phase_left L Starting = 2 * L + 9"
| "phase_left L (Stored n t None) = 2 * (L - unat t) + 7"
| "phase_left L (Streaming t) = 2 * (L - unat t) + 6"
| "phase_left L (Stored n t (Some e)) = 6"
| "phase_left L (Closing e) = 5"
| "phase_left L Verified = 4"
| "phase_left L Marked = 3"
| "phase_left L (Exiting e) = 2"
| "phase_left L Releasing = 1"
| "phase_left L Released = 0"

definition run_left :: "'bm Chunker \<Rightarrow> nat \<Rightarrow> nat" where
  "run_left k i = phase_left (unat (s_chunkLen (ck_heap k ! i))) (snd (ck_runs k ! i))"

text \<open>What holds of a session and its goroutine whatever is delivered: the counters are in range, the
  deferred functions have run in order, and the bytes of a compressed frame are not released before the end.\<close>

fun ended :: "phase \<Rightarrow> bool" where
  "ended Releasing = True"
| "ended Released = True"
| "ended _ = False"

fun phase_count :: "phase \<Rightarrow> i64" where
  "phase_count (Streaming t) = t"
| "phase_count (Stored n t e) = t"
| "phase_count _ = 0"

definition run_ok :: "fetchSession \<Rightarrow> FrameTable option \<times> phase \<Rightarrow> bool" where
  "run_ok s r \<longleftrightarrow> unat (s_chunkLen s) < 2 ^ 44 \<and> unat (phase_count (snd r)) \<le> unat (s_chunkLen s) \<and>
     (ended (snd r) \<longrightarrow> s_done s) \<and>
     (fetching (snd r) \<longrightarrow> \<not> s_done s \<and> s_fetchErr s = None) \<and>
     (IsCompressed (fst r) \<and> s_bytesReady s \<noteq> 0 \<longrightarrow> \<not> fetching (snd r) \<and> s_done s \<and> s_fetchErr s = None)"

definition runs_inv :: "nat \<Rightarrow> nat \<Rightarrow> 'bm Chunker \<Rightarrow> bool" where
  "runs_inv B N k \<longleftrightarrow> unat (ck_size k) = N \<and> length (ck_runs k) = length (ck_heap k) \<and> distinct (ck_fetchSessions k) \<and>
     set (ck_fetchSessions k) \<subseteq> {..<length (ck_heap k)} \<and>
     (\<forall>i < length (ck_heap k). run_ok (ck_heap k ! i) (ck_runs k ! i) \<and>
        (snd (ck_runs k ! i) = Released \<longrightarrow> i \<notin> set (ck_fetchSessions k)))"

text \<open>A step of goroutine \<open>i\<close> touches its own session and run, the cache, and, at its end, the active list.\<close>

definition own_change :: "nat \<Rightarrow> 'bm Chunker \<Rightarrow> 'bm Chunker \<Rightarrow> fetchSession \<Rightarrow> phase \<Rightarrow> bool" where
  "own_change i k k' s ph \<longleftrightarrow> ck_size k' = ck_size k \<and> ck_heap k' = (ck_heap k)[i := s] \<and>
     ck_runs k' = (ck_runs k)[i := (fst (ck_runs k ! i), ph)] \<and>
     ck_fetchSessions k' = (if ph = Released then releaseSession i (ck_fetchSessions k) else ck_fetchSessions k)"

lemma own_change_goto:
  "ph \<noteq> Released \<Longrightarrow> own_change i k (goto_phase i ph (with_session i f k)) (f (ck_heap k ! i)) ph"
  "ph \<noteq> Released \<Longrightarrow> own_change i k (goto_phase i ph k) (ck_heap k ! i) ph"
  "ph \<noteq> Released \<Longrightarrow> own_change i k (goto_phase i ph (fill_mmap p bs k)) (ck_heap k ! i) ph"
  "ph \<noteq> Released \<Longrightarrow> own_change i k (goto_phase i ph (k\<lparr>ck_cache := c\<rparr>)) (ck_heap k ! i) ph"
  "own_change i k (goto_phase i Released (k\<lparr>ck_fetchSessions := releaseSession i (ck_fetchSessions k)\<rparr>)) (ck_heap k ! i) Released"
  by (simp_all add: own_change_def goto_phase_def with_session_def fill_mmap_def)

text \<open>Every step of a goroutine: the session and phase it leaves, in range and with less to do.\<close>

definition good_move :: "fetchSession \<Rightarrow> FrameTable option \<Rightarrow> phase \<Rightarrow> fetchSession \<Rightarrow> phase \<Rightarrow> bool" where
  "good_move s ft ph s' ph' \<longleftrightarrow> s_chunkOff s' = s_chunkOff s \<and> s_chunkLen s' = s_chunkLen s \<and> run_ok s' (ft, ph') \<and>
     phase_left (unat (s_chunkLen s)) ph' < phase_left (unat (s_chunkLen s)) ph"

lemma read_move:
  assumes ok: "run_ok s (ft, Streaming t)" and b: "0 < unat batch" "unat batch < 2 ^ 44" and lt: "sint t < sint (s_chunkLen s)"
    and m: "length bs \<le> nat (sint (i64_min (t + batch) (s_chunkLen s)) - sint t)"
      "e = None \<longrightarrow> length bs = nat (sint (i64_min (t + batch) (s_chunkLen s)) - sint t)"
  shows "good_move s ft (Streaming t) s (Stored (length bs) (t + word_of_nat (length bs)) e)"
proof -
  have L: "unat (s_chunkLen s) < 2 ^ 44" "unat t \<le> unat (s_chunkLen s)" using ok by (simp_all add: run_ok_def)
  have lt': "unat t < unat (s_chunkLen s)" using lt L by (simp add: sint_small_u64)
  have "unat (t + batch) = unat t + unat batch" using L b by (subst unat_add_u64) simp_all
  then have "unat (i64_min (t + batch) (s_chunkLen s)) = min (unat t + unat batch) (unat (s_chunkLen s))"
    using L b by (subst i64_min_nat) simp_all
  then have d: "nat (sint (i64_min (t + batch) (s_chunkLen s)) - sint t) = min (unat t + unat batch) (unat (s_chunkLen s)) - unat t"
    using L b by (subst (1 2) sint_small_u64) simp_all
  then have n: "unat t + length bs \<le> unat (s_chunkLen s)" "e = None \<longrightarrow> 0 < length bs" using m lt' b by auto
  have "unat (t + word_of_nat (length bs)) = unat t + length bs"
    using n(1) L by (subst unat_add_u64) (simp_all add: unat_word_of_nat_u64)
  moreover have "2 * (unat (s_chunkLen s) - (unat t + length bs)) + 7 < 2 * (unat (s_chunkLen s) - unat t) + 6" if "e = None"
    using n that by linarith
  ultimately show ?thesis using ok n(1) lt' by (cases e) (auto simp: good_move_def run_ok_def)
qed

lemma panic_move: "run_ok s (ft, ph) \<Longrightarrow> fetching ph \<Longrightarrow> good_move s ft ph s (Exiting e)"
  by (cases "(unat (s_chunkLen s), ph)" rule: phase_left.cases) (auto simp: good_move_def run_ok_def)

lemma fail_move: "run_ok s (ft, ph) \<Longrightarrow> fetching ph \<Longrightarrow> good_move s ft ph (session_fail e s) (Exiting e')"
  by (cases "(unat (s_chunkLen s), ph)" rule: phase_left.cases) (auto simp: good_move_def run_ok_def session_fail_def)

definition moved :: "nat \<Rightarrow> 'bm Chunker \<Rightarrow> 'bm Chunker \<Rightarrow> bool" where
  "moved i k k' \<longleftrightarrow>
     (\<exists>s' ph'. own_change i k k' s' ph' \<and> good_move (ck_heap k ! i) (fst (ck_runs k ! i)) (snd (ck_runs k ! i)) s' ph')"

lemma movedI:
  "ck_runs k ! i = (ft, ph) \<Longrightarrow> good_move (ck_heap k ! i) ft ph (f (ck_heap k ! i)) ph' \<Longrightarrow> ph' \<noteq> Released \<Longrightarrow>
     moved i k (goto_phase i ph' (with_session i f k))"
  "ck_runs k ! i = (ft, ph) \<Longrightarrow> good_move (ck_heap k ! i) ft ph (ck_heap k ! i) ph' \<Longrightarrow> ph' \<noteq> Released \<Longrightarrow>
     moved i k (goto_phase i ph' k)"
  "ck_runs k ! i = (ft, ph) \<Longrightarrow> good_move (ck_heap k ! i) ft ph (ck_heap k ! i) ph' \<Longrightarrow> ph' \<noteq> Released \<Longrightarrow>
     moved i k (goto_phase i ph' (fill_mmap p bs k))"
  "ck_runs k ! i = (ft, ph) \<Longrightarrow> good_move (ck_heap k ! i) ft ph (ck_heap k ! i) ph' \<Longrightarrow> ph' \<noteq> Released \<Longrightarrow>
     moved i k (goto_phase i ph' (k\<lparr>ck_cache := c\<rparr>))"
  "ck_runs k ! i = (ft, ph) \<Longrightarrow> good_move (ck_heap k ! i) ft ph (ck_heap k ! i) Released \<Longrightarrow>
     moved i k (goto_phase i Released (k\<lparr>ck_fetchSessions := releaseSession i (ck_fetchSessions k)\<rparr>))"
  using own_change_goto unfolding moved_def by (metis fst_conv snd_conv)+

lemma start_move:
  assumes ok: "run_ok (ck_heap k ! i) (ft, Starting)" and r: "ck_runs k ! i = (ft, Starting)" and k': "phase_start i a k = Some k'"
  shows "moved i k k'"
proof -
  let ?s = "ck_heap k ! i"
  have "run_ok (setSource src ?s) (ft, Starting)" for src using ok by (simp add: run_ok_def setSource_def)
  from fail_move [OF this] have f: "good_move ?s ft Starting ((session_fail e \<circ> setSource src) ?s) (Exiting e')" for src e e'
    by (simp add: good_move_def setSource_def)
  have o: "good_move ?s ft Starting (setSource src ?s) (Streaming 0)" for src
    using ok by (simp add: good_move_def run_ok_def setSource_def)
  have e: "good_move ?s ft Starting (session_fail e ?s) (Exiting e')" for e e' using fail_move [OF ok] by simp
  have mv: "moved i k (goto_phase i (Exiting e') (with_session i (session_fail e \<circ> setSource src) k))"
    "moved i k (goto_phase i (Exiting e') (with_session i (session_fail e) k))"
    "moved i k (goto_phase i (Streaming 0) (with_session i (setSource src) k))" for e e' src
    using movedI(1) [OF r, where f = "session_fail e \<circ> setSource src"] movedI(1) [OF r, where f = "session_fail e"]
      movedI(1) [OF r, where f = "setSource src"] f e o by simp_all
  show ?thesis
  proof (cases "addressBytes (ck_cache k) (s_chunkOff ?s) (s_chunkLen ?s)")
    case (Inl x)
    have "moved i k (goto_phase i (Exiting e') k)" for e' using movedI(2) [OF r panic_move [OF ok]] by simp
    then show ?thesis using k' mv Inl by (auto simp: phase_start_def Let_def split: if_splits)
  next
    case (Inr x)
    then show ?thesis using k' mv by (cases a) (auto simp: phase_start_def Let_def)
  qed
qed

lemma streaming_move:
  assumes ok: "run_ok (ck_heap k ! i) (ft, Streaming t)" and r: "ck_runs k ! i = (ft, Streaming t)"
    and b: "0 < unat batch" "unat batch < 2 ^ 44" and k': "phase_read batch i t a k = Some k'"
  shows "moved i k k'"
proof -
  let ?s = "ck_heap k ! i"
  show ?thesis
  proof (cases "sint t < sint (s_chunkLen ?s)")
    case True
    obtain bs e where a: "a = Delivered bs e" using k' True by (cases a) (simp_all add: phase_read_def)
    have m: "length bs \<le> nat (sint (i64_min (t + batch) (s_chunkLen ?s)) - sint t)"
      "e = None \<longrightarrow> length bs = nat (sint (i64_min (t + batch) (s_chunkLen ?s)) - sint t)"
      and k'': "k' = goto_phase i (Stored (length bs) (t + word_of_nat (length bs)) e) (fill_mmap (unat (s_chunkOff ?s) + unat t) bs k)"
      using k' True a by (auto simp: phase_read_def Let_def split: if_splits)
    show ?thesis unfolding k'' by (rule movedI(3) [OF r read_move [OF ok b True m]]) simp
  next
    case False
    have "good_move ?s ft (Streaming t) ?s (Closing None)" using ok by (simp add: good_move_def run_ok_def)
    from movedI(2) [OF r this] show ?thesis using k' False by (simp add: phase_read_def)
  qed
qed

lemma stored_move:
  assumes ok: "run_ok (ck_heap k ! i) (ft, Stored n t e)" and r: "ck_runs k ! i = (ft, Stored n t e)"
  shows "moved i k (phase_stored i n t e k)"
proof -
  let ?s = "ck_heap k ! i"
  let ?ph = "case e of None \<Rightarrow> Streaming t | Some x \<Rightarrow> if sint (s_chunkLen ?s) \<le> sint t then Closing None else Closing (Some (ChunkRead x))"
  have n: "?ph \<noteq> Released" by (auto split: option.splits)
  have g: "good_move ?s ft (Stored n t e) ?s ?ph" "0 < n \<and> \<not> IsCompressed ft \<Longrightarrow> good_move ?s ft (Stored n t e) (session_advance t ?s) ?ph"
    using ok by (auto simp: good_move_def run_ok_def session_advance_def split: option.splits)
  have "phase_stored i n t e k = (if 0 < n \<and> \<not> IsCompressed ft then goto_phase i ?ph (with_session i (session_advance t) k) else goto_phase i ?ph k)"
    using r by (auto simp: phase_stored_def Let_def split: option.splits)
  then show ?thesis using movedI(1) [OF r, where f = "session_advance t"] movedI(2) [OF r g(1) n] g(2) n by auto
qed

lemma runFetch_move:
  assumes ok: "run_ok (ck_heap k ! i) (ck_runs k ! i)" and b: "0 < unat batch" "unat batch < 2 ^ 44"
    and k': "runFetch R batch i a k = Some k'"
  shows "moved i k k'"
proof -
  let ?s = "ck_heap k ! i"
  obtain ft ph where r: "ck_runs k ! i = (ft, ph)" by (cases "ck_runs k ! i")
  have ok': "run_ok ?s (ft, ph)" using ok r by simp
  show ?thesis
  proof (cases "\<exists>m. a = Panic m")
    case True
    then show ?thesis using k' r movedI(2) [OF r panic_move [OF ok']] by (auto simp: runFetch_def split: if_splits)
  next
    case False
    then have np: "next_phase R batch i a k = Some k'" using k' by (cases a) (simp_all add: runFetch_def)
    note np = np [unfolded next_phase_def r snd_conv]
    have fl: "fetching ph \<Longrightarrow> moved i k (goto_phase i (Exiting e') (with_session i (session_fail e) k))" for e e'
      using movedI(1) [OF r, where f = "session_fail e"] fail_move [OF ok'] by simp
    show ?thesis
    proof (cases ph)
      case Starting
      then show ?thesis using start_move ok' r np by simp
    next
      case (Streaming t)
      then show ?thesis using streaming_move [OF _ _ b] ok' r np by simp
    next
      case (Stored n t e)
      then show ?thesis using stored_move ok' r np by auto
    next
      case (Closing e)
      have "good_move ?s ft ph ?s Verified" using ok' Closing by (auto simp: good_move_def run_ok_def)
      then show ?thesis using np Closing fl movedI(2) [OF r] by (auto simp: phase_close_def split: answer.splits option.splits)
    next
      case Verified
      have "good_move ?s ft ph ?s Marked" using ok' Verified by (auto simp: good_move_def run_ok_def)
      then show ?thesis using np Verified movedI(4) [OF r] by (auto simp: phase_mark_def Let_def split: option.splits)
    next
      case Marked
      have "good_move ?s ft ph (setDone ?s) (Exiting FetchExited)" using ok' Marked by (auto simp: good_move_def run_ok_def setDone_def)
      then show ?thesis using np Marked movedI(1) [OF r, where f = setDone] by auto
    next
      case (Exiting e)
      have "good_move ?s ft ph (failIfRunning e ?s) Releasing"
        using ok' Exiting by (auto simp: good_move_def run_ok_def failIfRunning_def terminated_def)
      then show ?thesis using np Exiting movedI(1) [OF r, where f = "failIfRunning e"] by auto
    next
      case Releasing
      have "good_move ?s ft ph ?s Released" using ok' Releasing by (auto simp: good_move_def run_ok_def)
      then show ?thesis using np Releasing movedI(5) [OF r] by auto
    qed (use np in simp)
  qed
qed

section \<open>Every fetch ends\<close>

lemma releaseSession_distinct:
  assumes "distinct act"
  shows "distinct (releaseSession i act)" "i \<notin> set (releaseSession i act)" "set (releaseSession i act) \<subseteq> set act"
proof -
  have "distinct (releaseSession i act) \<and> set (releaseSession i act) = set act - {i}"
  proof (cases "i \<in> set act")
    case True
    obtain ys zs where a: "act = ys @ i # zs" "i \<notin> set ys" using split_list_first [OF True] by blast
    then have tw: "takeWhile (\<lambda>a. a \<noteq> i) act = ys" by (auto simp: takeWhile_append)
    show ?thesis
    proof (cases zs rule: rev_cases)
      case Nil
      then show ?thesis using True a tw assms by (auto simp: releaseSession_def butlast_append)
    next
      case (snoc zs' z)
      then have "releaseSession i act = ys @ z # zs'" using True a tw
        by (simp add: releaseSession_def list_update_append butlast_append)
      then show ?thesis using assms a snoc by auto
    qed
  qed (use assms in \<open>simp add: releaseSession_def\<close>)
  then show "distinct (releaseSession i act)" "i \<notin> set (releaseSession i act)" "set (releaseSession i act) \<subseteq> set act" by auto
qed

lemma moved_inv:
  assumes inv: "runs_inv B N k" and i: "i < length (ck_heap k)" and m: "moved i k k'"
  shows "runs_inv B N k'" "run_left k' i < run_left k i" "j < length (ck_heap k) \<Longrightarrow> j \<noteq> i \<Longrightarrow> run_left k' j = run_left k j"
    "length (ck_heap k') = length (ck_heap k)"
proof -
  obtain s ph where c: "own_change i k k' s ph" and g: "good_move (ck_heap k ! i) (fst (ck_runs k ! i)) (snd (ck_runs k ! i)) s ph"
    using m by (auto simp: moved_def)
  have len: "length (ck_runs k) = length (ck_heap k)" and d: "distinct (ck_fetchSessions k)" using inv by (simp_all add: runs_inv_def)
  show "length (ck_heap k') = length (ck_heap k)" using c by (simp add: own_change_def)
  show "run_left k' i < run_left k i" using c g i len by (simp add: own_change_def good_move_def run_left_def)
  show "run_left k' j = run_left k j" if "j < length (ck_heap k)" "j \<noteq> i"
    using c that by (simp add: own_change_def run_left_def)
  show "runs_inv B N k'"
    using c g inv i releaseSession_distinct [OF d, of i]
    by (auto simp: runs_inv_def own_change_def good_move_def nth_list_update split: if_splits)
qed

lemma opened_inv:
  fixes R :: "'bm roaring_ops" and ft :: "FrameTable option"
  assumes inv: "runs_inv B N k" and c: "is_chunk B N c l" and N: "N < 2 ^ 44"
  defines "k' \<equiv> fst (getOrCreateSession R c l ft k)"
  shows "runs_inv B N k'" "i < length (ck_heap k) \<Longrightarrow> run_left k' i = run_left k i" "length (ck_heap k) \<le> length (ck_heap k')"
proof -
  have ok: "run_ok (newFetchSession c l) (ft, Starting)" using c N by (simp add: run_ok_def newFetchSession_def is_chunk_def)
  have len: "length (ck_runs k) = length (ck_heap k)" using inv by (simp add: runs_inv_def)
  show "runs_inv B N k'"
    using inv ok unfolding k'_def
    by (auto simp: getOrCreateSession_def runs_inv_def nth_append less_Suc_eq split: option.splits if_splits)
  show "run_left k' i = run_left k i" if "i < length (ck_heap k)"
    using that len by (auto simp: k'_def getOrCreateSession_def run_left_def nth_append split: option.splits)
  show "length (ck_heap k) \<le> length (ck_heap k')" by (auto simp: k'_def getOrCreateSession_def split: option.splits)
qed

text \<open>A world with any upstream: frame tables that fit, and a read batch in range.\<close>

definition any_world :: "nat \<Rightarrow> nat \<Rightarrow> 'bm world \<Rightarrow> bool" where
  "any_world B N W \<longleftrightarrow> N < 2 ^ 44 \<and> B dvd N \<and> B dvd 4194304 \<and> 0 < unat (w_batch W) \<and> unat (w_batch W) < 2 ^ 44 \<and>
     (\<forall>ft \<in> w_fts W. ft_fits B N ft)"

abbreviation steps :: "'bm world \<Rightarrow> 'bm Chunker \<Rightarrow> 'bm Chunker \<Rightarrow> bool" where
  "steps W \<equiv> chunk_step (w_ops W) (w_batch W) (w_good W) (w_fts W)"

lemma steps_inv:
  assumes "steps W k k'" and W: "any_world B N W" and inv: "runs_inv B N k"
  shows "runs_inv B N k' \<and> length (ck_heap k) \<le> length (ck_heap k') \<and> (\<forall>i < length (ck_heap k). run_left k' i \<le> run_left k i)"
  using assms(1)
proof (cases rule: chunk_step.cases)
  case (fetch_moves i a)
  have "run_ok (ck_heap k ! i) (ck_runs k ! i)" using inv fetch_moves(1) by (simp add: runs_inv_def)
  from moved_inv [OF inv fetch_moves(1) runFetch_move [OF this _ _ fetch_moves(2)]] W show ?thesis
    unfolding any_world_def by (metis less_imp_le_nat order_refl)
next
  case (other_reader ft off c l)
  have N: "N < 2 ^ 44" "unat (ck_size k) = N" "B dvd N" "B dvd 4194304" "ft_fits B N ft"
    using W inv other_reader(2) by (auto simp: any_world_def runs_inv_def)
  have "unat off < N" using other_reader(3,4) N sint_nonneg_eq [of off] sint_small_u64 [of "ck_size k"] by simp
  from locateChunk_sized [OF N this other_reader(5)] have "is_chunk B N c l" by blast
  from opened_inv [OF inv this N(1)] other_reader(1) show ?thesis by simp
qed

lemma moves_runs_inv:
  assumes "moves W k k'" and "any_world B N W" "runs_inv B N k"
  shows "runs_inv B N k'"
  using assms
proof induction
  case (further k1 k2)
  then show ?case using steps_inv by blast
qed

section \<open>Properties\<close>

lemma new_runs_inv: "NewChunker R oe te mp sz bs path = Inr k \<Longrightarrow> runs_inv B (unat sz) k"
  by (auto simp: NewChunker_def runs_inv_def split: sum.splits)

lemma new_chunk_inv:
  assumes "roaring R mem" and k: "NewChunker R None None (Inr mm) sz bs path = Inr k"
    and sz: "unat bs dvd unat sz" "0 < unat sz" "unat sz < 2 ^ 44" "4096 \<le> unat bs" "unat bs < 2 ^ 44"
    and img: "length mm = unat sz" "length img = unat sz"
  shows "chunk_inv R mem img k" "bs_of (ck_cache k) = unat bs"
proof -
  have k': "k = \<lparr>ck_cache = \<lparr>c_filePath = path, c_size = sz, c_blockSize = bs, c_mmap = Some mm, c_tracker = NewTracker R,
      c_dirtyFile = False, c_closed = False\<rparr>, ck_size = sz, ck_heap = [], ck_runs = [], ck_fetchSessions = []\<rparr>"
  proof -
    have "sz \<noteq> 0" using sz(2) by auto
    then show ?thesis using k by (simp add: NewChunker_def NewCache_def)
  qed
  show "bs_of (ck_cache k) = unat bs" by (simp add: k' bs_of_def)
  show "chunk_inv R mem img k" using sz img roaring.new_ok [OF assms(1)]
    by (simp add: k' chunk_inv_def cache_ok_def sized_def bs_of_def mapped_bytes_def)
qed

text \<open>
  C5. Reads through the chunker: starting from a new chunker, after any interleaving of fetches and other readers, with an
  upstream that may deliver in any portions, stop, fail or panic, and with any mix of frame tables that fit the file, a
  \<open>Slice\<close> that returns data returns the bytes of the file at that place, while fetches and readers go on between
  all its accesses.
\<close>

theorem Slice_reads_file:
  assumes "roaring R mem" and "NewChunker R None None (Inr mm) sz bs path = Inr k0"
    and "unat bs dvd unat sz" "0 < unat sz" "unat sz < 2 ^ 44" "4096 \<le> unat bs" "unat bs < 2 ^ 44"
    and "length mm = unat sz" "length img = unat sz"
    and "honest_world R img (unat bs) W" "moves W k0 k" "ft \<in> w_fts W"
    and "unat off + unat len \<le> unat sz" "unat off < unat sz" "Chunker_Slice W ft off len k k' (Inr b)"
  shows "b = take (unat len) (drop (unat off) img)"
proof -
  note k0 = new_chunk_inv [OF assms(1-9)]
  have m: "chunk_inv R mem img k \<and> later img k0 k" using roaring.moves_inv [OF assms(1,11) _ k0(1)] k0(2) assms(10) by simp
  have "bs_of (ck_cache k) = unat bs" using m later_bs k0(2) by metis
  then show ?thesis using roaring.Slice_ok [OF assms(1,15) _ conjunct1 [OF m] assms(12)] assms(9,10,13,14) by simp
qed

section \<open>Past the end of the file\<close>

lemma runFetch_size: "runFetch R batch i a k = Some k' \<Longrightarrow> ck_size k' = ck_size k"
  by (auto simp: runFetch_def next_phase_def phase_start_def phase_read_def phase_stored_def phase_close_def phase_mark_def Let_def
    goto_phase_def with_session_def fill_mmap_def split: answer.splits phase.splits sum.splits option.splits if_splits)

lemma getOrCreate_size: "ck_size (fst (getOrCreateSession R c l ft k)) = ck_size k"
  by (simp add: getOrCreateSession_def split: option.splits)

lemma moves_size: "moves W k k' \<Longrightarrow> ck_size k' = ck_size k"
  by (induction rule: chunk_reaches.induct) (auto elim!: chunk_step.cases simp: runFetch_size getOrCreate_size)

lemma wait_size: "registerAndWait W i b k k' e \<Longrightarrow> ck_size k' = ck_size k"
  by (auto elim!: registerAndWait.cases simp: moves_size)

lemma wait_blocks_size: "wait_blocks W i ce fb b k k' e \<Longrightarrow> ck_size k' = ck_size k"
  by (induction rule: wait_blocks.induct) (simp_all add: wait_size)

lemma fetch_size: "fetch W ft off len k k' e \<Longrightarrow> ck_size k' = ck_size k"
  by (auto elim!: fetch.cases dest!: moves_size wait_blocks_size)
    (metis fst_conv getOrCreate_size)+


text \<open>Without compression the chunk of an offset inside the file, or at its end, stops at the end of the file at the latest.\<close>

lemma uncompressed_chunk:
  assumes "\<not> IsCompressed ft" "locateChunk k cur ft = Inr (c, l)" "unat (ck_size k) < 2 ^ 44" "unat cur \<le> unat (ck_size k)"
  shows "unat (c + l) \<le> unat (ck_size k)"
proof -
  let ?M = "4194304 :: nat" and ?N = "unat (ck_size k)"
  have M: "unat MemoryChunkSize = ?M" by (simp add: MemoryChunkSize_def)
  have c: "c = i64_div cur MemoryChunkSize * MemoryChunkSize" "l = i64_min MemoryChunkSize (ck_size k - c)"
    using assms(1,2) by (auto simp: locateChunk_def Let_def)
  have uc: "unat c \<le> unat cur" using block_floor(2) [of cur MemoryChunkSize] assms(3,4) M c(1) by simp
  then have "unat (ck_size k - c) = ?N - unat c" using assms(4) by (subst unat_sub_u64) (simp_all add: word_le_nat_alt)
  then have "unat l = min ?M (?N - unat c)" unfolding c(2) using assms(3) M by (subst i64_min_nat) simp_all
  then show ?thesis using uc assms(3,4) by (subst unat_add_u64) simp_all
qed

lemma fetch_chunks_past_end:
  assumes "fetch_chunks W ft hi cur k k' e" and "\<not> IsCompressed ft" "unat (ck_size k) < 2 ^ 44"
    and "unat cur \<le> unat (ck_size k)" "unat (ck_size k) < unat hi" "unat hi < 2 ^ 45"
  shows "\<exists>x c n k1 k2. e = Some x \<and> fetch W ft c n k1 k2 (Some x)"
  using assms
proof (induction rule: fetch_chunks.induct)
  case (all_fetched cur k)
  then show ?case by (simp add: sint_small_u64)
next
  case (no_chunk cur k e)
  then show ?case by (simp add: locateChunk_def Let_def)
next
  case (next_chunk cur k c l k1 k2 e)
  show ?case
    using next_chunk.IH next_chunk.prems fetch_size [OF next_chunk.hyps(3)]
      uncompressed_chunk [OF next_chunk.prems(1) next_chunk.hyps(2) next_chunk.prems(2,3)] by simp
qed blast

text \<open>
  C23. A read past the end: without a frame table, a \<open>Slice\<close> of a range that is not all cached and reaches past the end of the
  file never returns data. Its loop over the chunks stops moving at the end of the file, \<open>cur = chunkEnd\<close> being the same
  offset again, so it can only be ended by an error of one of its fetches.
\<close>

theorem Slice_past_end:
  assumes "Chunker_Slice W ft off len k k' r" and "\<not> IsCompressed ft" and "unat (ck_size k) < 2 ^ 44"
    and "unat off \<le> unat (ck_size k)" "unat (ck_size k) < unat off + unat len" "unat off + unat len < 2 ^ 45"
    and "Cache_Slice (w_ops W) (ck_cache k) off len = Inl BytesNotAvailableError"
  shows "\<exists>x c n k1 k2. r = Inl x \<and> fetch W ft c n k1 k2 (Some x)"
proof -
  have hi: "unat (off + len) = unat off + unat len" using assms(6) by (subst unat_add_u64) simp_all
  have stuck: "\<exists>x c n k1 k2. e = Some x \<and> fetch W ft c n k1 k2 (Some x)"
    if "moves W k ka" "fetch_chunks W ft (off + len) off ka kb e" for ka kb e
    using fetch_chunks_past_end [OF that(2)] moves_size [OF that(1)] assms(2-6) hi by simp
  from assms(1) show ?thesis
  proof (cases rule: Chunker_Slice.cases)
    case (not_fetched k1 e)
    from stuck [OF not_fetched(3,4)] show ?thesis using not_fetched(1) by auto
  next
    case (fetched k1 k2)
    from stuck [OF fetched(3,4)] show ?thesis by simp
  qed (use assms(7) in simp_all)
qed

section \<open>A file of one block\<close>

definition tiny_world :: "byte list \<Rightarrow> u32 set world" where
  "tiny_world img = \<lparr>w_ops = set_roaring, w_batch = 4096, w_good = of_file img, w_fts = {None}\<rparr>"

definition tiny_cache :: "byte list \<Rightarrow> u32 set Cache" where
  "tiny_cache mm = \<lparr>c_filePath = ''c'', c_size = 4096, c_blockSize = 4096, c_mmap = Some mm,
     c_tracker = NewTracker set_roaring, c_dirtyFile = False, c_closed = False\<rparr>"

definition tiny :: "byte list \<Rightarrow> (fetchSession \<times> phase) list \<Rightarrow> u32 set Chunker" where
  "tiny mm rs = \<lparr>ck_cache = tiny_cache mm, ck_size = 4096, ck_heap = map fst rs,
     ck_runs = map (\<lambda>r. (None, snd r)) rs, ck_fetchSessions = [0..<length rs]\<rparr>"

lemma tiny_new: "NewChunker set_roaring None None (Inr mm) 4096 4096 ''c'' = Inr (tiny mm [])"
  by (simp add: NewChunker_def NewCache_def tiny_def tiny_cache_def)

lemma tiny_not_cached:
  assumes "unat len \<in> {4096, 8192}"
  shows "isCached set_roaring (tiny_cache mm) 0 len = Some False"
    "Cache_Slice set_roaring (tiny_cache mm) 0 len = Inl BytesNotAvailableError"
proof -
  have "i64_min len 4096 = 4096"
    using assms by (intro unat_inject [THEN iffD1]) (subst i64_min_nat, auto)
  then have "isCached set_roaring (tiny_cache mm) 0 len = Some (Present set_roaring 0 1 (NewTracker set_roaring))"
    by (simp add: isCached_def tiny_cache_def BlockIdx_def BlockCeilIdx_def i64_div_def signed_divide_int_def Let_def)
  then show c: "isCached set_roaring (tiny_cache mm) 0 len = Some False"
    using sets.Present_ok [OF sets.new_ok(1), of 0 1] by (auto simp: sets.new_ok intro: exI [of _ 0])
  then show "Cache_Slice set_roaring (tiny_cache mm) 0 len = Inl BytesNotAvailableError"
    by (simp add: Cache_Slice_def) (simp add: tiny_cache_def isClosed_def)
qed

lemma tiny_locate: "locateChunk (tiny mm rs) 0 None = Inr (0, 4096)"
  by (simp add: locateChunk_def IsCompressed_def tiny_def MemoryChunkSize_def i64_div_def signed_divide_int_def i64_min_def)

lemma tiny_open: "getOrCreateSession set_roaring 0 4096 None (tiny mm []) = (tiny mm [(newFetchSession 0 4096, Starting)], Some 0)"
  using tiny_not_cached(1) [of 4096 mm] by (simp add: getOrCreateSession_def tiny_def)

abbreviation tiny_session :: fetchSession where "tiny_session \<equiv> newFetchSession 0 4096"

lemma tiny_address: "length mm = 4096 \<Longrightarrow> addressBytes (tiny_cache mm) 0 4096 = Inr mm"
  by (simp add: addressBytes_def tiny_cache_def isClosed_def mmap_slice_def go_slice_def i64_min_def)

lemma tiny_runs:
  assumes "length mm = 4096" "length img = 4096"
  shows "runFetch set_roaring 4096 0 (Opened 0) (tiny mm [(tiny_session, Starting)]) = Some (tiny mm [(tiny_session, Streaming 0)])"
    "runFetch set_roaring 4096 0 (Delivered img None) (tiny mm [(tiny_session, Streaming 0)]) =
       Some (tiny img [(tiny_session, Stored 4096 4096 None)])"
    "runFetch set_roaring 4096 0 NoAnswer (tiny img [(tiny_session, Stored 4096 4096 None)]) =
       Some (tiny img [(session_advance 4096 tiny_session, Streaming 4096)])"
    "runFetch set_roaring 4096 0 (OpenFailed 0 ''x'') (tiny mm [(tiny_session, Starting)]) =
       Some (tiny mm [(session_fail (ChunkOpen ''x'') tiny_session, Exiting FetchExited)])"
proof -
  note a = tiny_address [OF assms(1)]
  have s: "setSource 0 tiny_session = tiny_session" "s_chunkOff tiny_session = 0" "s_chunkLen tiny_session = 4096"
    by (simp_all add: setSource_def newFetchSession_def)
  show "runFetch set_roaring 4096 0 (Opened 0) (tiny mm [(tiny_session, Starting)]) = Some (tiny mm [(tiny_session, Streaming 0)])"
    "runFetch set_roaring 4096 0 (OpenFailed 0 ''x'') (tiny mm [(tiny_session, Starting)]) =
       Some (tiny mm [(session_fail (ChunkOpen ''x'') tiny_session, Exiting FetchExited)])"
    using a s by (simp_all add: runFetch_def next_phase_def phase_start_def tiny_def goto_phase_def with_session_def)
  have "overwrite mm 0 img = img" using assms by (simp add: overwrite_def)
  then have "tiny_cache mm\<lparr>c_mmap := map_option (\<lambda>m. overwrite m 0 img) (c_mmap (tiny_cache mm))\<rparr> = tiny_cache img"
    by (simp add: tiny_cache_def)
  then show "runFetch set_roaring 4096 0 (Delivered img None) (tiny mm [(tiny_session, Streaming 0)]) =
       Some (tiny img [(tiny_session, Stored 4096 4096 None)])"
    using a s assms by (simp add: runFetch_def next_phase_def phase_read_def tiny_def goto_phase_def fill_mmap_def i64_min_def)
  show "runFetch set_roaring 4096 0 NoAnswer (tiny img [(tiny_session, Stored 4096 4096 None)]) =
       Some (tiny img [(session_advance 4096 tiny_session, Streaming 4096)])"
    by (simp add: runFetch_def next_phase_def phase_stored_def tiny_def goto_phase_def with_session_def IsCompressed_def)
qed

lemma tiny_step:
  assumes "runFetch set_roaring 4096 0 a (tiny mm [(s, ph)]) = Some k'"
    and "\<And>bs e t. a = Delivered bs e \<Longrightarrow> of_file img (unat (s_chunkOff s) + unat t) bs \<or> ph \<noteq> Streaming t"
  shows "steps (tiny_world img) (tiny mm [(s, ph)]) k'"
  using chunk_step.fetch_moves [of 0 "tiny mm [(s, ph)]" set_roaring 4096 a k' "of_file img" "{None}"] assms
  by (auto simp: tiny_def tiny_world_def)

lemma tiny_streamed:
  assumes "length mm = 4096" "length img = 4096"
  shows "moves (tiny_world img) (tiny mm [(tiny_session, Starting)]) (tiny img [(session_advance 4096 tiny_session, Streaming 4096)])"
proof -
  note r = tiny_runs [OF assms]
  have g: "of_file img (unat (s_chunkOff tiny_session) + unat (0 :: i64)) img" using assms by (simp add: of_file_def newFetchSession_def)
  have s1: "steps (tiny_world img) (tiny mm [(tiny_session, Starting)]) (tiny mm [(tiny_session, Streaming 0)])"
    by (rule tiny_step [OF r(1)]) simp
  have s2: "steps (tiny_world img) (tiny mm [(tiny_session, Streaming 0)]) (tiny img [(tiny_session, Stored 4096 4096 None)])"
    by (rule tiny_step [OF r(2)]) (use g in auto)
  have s3: "steps (tiny_world img) (tiny img [(tiny_session, Stored 4096 4096 None)]) (tiny img [(session_advance 4096 tiny_session, Streaming 4096)])"
    by (rule tiny_step [OF r(3)]) simp
  show ?thesis by (rule chunk_reaches.further [OF chunk_reaches.further [OF chunk_reaches.further [OF chunk_reaches.here s1] s2] s3])
qed

lemma tiny_slice:
  assumes "length mm = 4096" "length img = 4096"
  shows "Chunker_Slice (tiny_world img) None 0 4096 (tiny mm []) (tiny img [(session_advance 4096 tiny_session, Streaming 4096)]) (Inr img)"
proof -
  let ?W = "tiny_world img" and ?k = "tiny img [(session_advance 4096 tiny_session, Streaming 4096)]"
  have W: "w_ops ?W = set_roaring" by (simp add: tiny_world_def)
  have c: "ck_cache (tiny m rs) = tiny_cache m" for m rs by (simp add: tiny_def)
  have "fetch ?W None 0 4096 (tiny mm []) ?k None"
  proof (rule fetch.streamed [OF tiny_locate chunk_reaches.here])
    show "getOrCreateSession (w_ops ?W) 0 4096 None (tiny mm []) = (tiny mm [(tiny_session, Starting)], Some 0)"
      unfolding W by (rule tiny_open)
    show "moves ?W (tiny mm [(tiny_session, Starting)]) ?k" by (rule tiny_streamed [OF assms])
  qed (simp add: tiny_def tiny_cache_def final_block_def chunk_end_def newFetchSession_def session_advance_def i64_min_def i64_div_def signed_divide_int_def)
  then have "fetch ?W None 0 (i64_min (0 + 4096) (0 + 4096) - 0) (tiny mm []) ?k None" by (simp add: i64_min_def)
  from fetch_chunks.next_chunk [OF _ tiny_locate this fetch_chunks.all_fetched]
  have f: "fetch_chunks ?W None (0 + 4096) 0 (tiny mm []) ?k None" by simp
  have "Cache_Slice (w_ops ?W) (ck_cache (tiny mm [])) 0 4096 = Inl BytesNotAvailableError"
    unfolding W c by (rule tiny_not_cached) simp
  from Chunker_Slice.fetched [OF this chunk_reaches.here f chunk_reaches.here]
  have "Chunker_Slice ?W None 0 4096 (tiny mm []) ?k (map_sum ChunkCache id (sliceDirect (ck_cache ?k) 0 4096))" .
  moreover have "sliceDirect (tiny_cache img) 0 4096 = Inr img"
    using assms by (simp add: sliceDirect_def tiny_cache_def isClosed_def mmap_slice_def go_slice_def i64_min_def)
  ultimately show ?thesis by (simp add: c)
qed

theorem Slice_reads_file_witness:
  "\<exists>k' b. Chunker_Slice (tiny_world (replicate 4096 7)) None 0 4096 (tiny (replicate 4096 0) []) k' (Inr b) \<and>
     b = take 4096 (drop 0 (replicate 4096 7))"
proof -
  let ?img = "replicate 4096 7 :: byte list" and ?mm = "replicate 4096 0 :: byte list"
  obtain k' b where s: "Chunker_Slice (tiny_world ?img) None 0 4096 (tiny ?mm []) k' (Inr b)"
    using tiny_slice [of ?mm ?img] by fastforce
  have W: "honest_world set_roaring ?img (unat (4096 :: i64)) (tiny_world ?img)" "None \<in> w_fts (tiny_world ?img)"
    by (simp_all add: honest_world_def tiny_world_def ft_fits_def)
  have "b = take (unat (4096 :: i64)) (drop (unat (0 :: i64)) ?img)"
    by (rule Slice_reads_file [OF sets.roaring_axioms tiny_new _ _ _ _ _ _ _ W(1) chunk_reaches.here W(2) _ _ s]) simp_all
  then show ?thesis using s by auto
qed

theorem Slice_past_end_witness:
  "\<exists>k' x. Chunker_Slice (tiny_world (replicate 4096 7)) None 0 8192 (tiny (replicate 4096 0) []) k' (Inl x) \<and>
     (\<exists>c n k1 k2. fetch (tiny_world (replicate 4096 7)) None c n k1 k2 (Some x))"
proof -
  let ?img = "replicate 4096 7 :: byte list" and ?mm = "replicate 4096 0 :: byte list"
  let ?W = "tiny_world ?img" and ?x = "FetchFailed (ChunkOpen ''x'')"
  let ?k = "tiny ?mm [(session_fail (ChunkOpen ''x'') tiny_session, Exiting FetchExited)]"
  have W: "w_ops ?W = set_roaring" by (simp add: tiny_world_def)
  have c: "ck_cache (tiny m rs) = tiny_cache m" for m rs by (simp add: tiny_def)
  have nc: "Cache_Slice (w_ops ?W) (ck_cache (tiny ?mm [])) 0 8192 = Inl BytesNotAvailableError"
    unfolding W c by (rule tiny_not_cached) simp
  have bs: "c_blockSize (tiny_cache m) = 4096" for m by (simp add: tiny_cache_def)
  have "steps ?W (tiny ?mm [(tiny_session, Starting)]) ?k" using tiny_runs(4) [of ?mm ?img] by (intro tiny_step) simp_all
  from chunk_reaches.further [OF chunk_reaches.here this] have m: "moves ?W (tiny ?mm [(tiny_session, Starting)]) ?k" .
  have "wait_check (w_ops ?W) (ck_cache ?k) False (ck_heap ?k ! 0) 0 = Some (Some ?x)"
    using tiny_not_cached(1) [of 4096 ?mm]
    by (simp add: wait_check_def W c bs) (simp add: tiny_def session_fail_def newFetchSession_def end_byte_def i64_min_def terminated_def)
  moreover have "wait_args (c_blockSize (ck_cache (tiny ?mm [(tiny_session, Starting)]))) (ck_heap (tiny ?mm [(tiny_session, Starting)]) ! 0) 0 = None"
    unfolding c bs by (simp add: wait_args_def tiny_def newFetchSession_def i64_mod_def signed_modulo_int_def)
  ultimately have w: "registerAndWait ?W 0 0 (tiny ?mm [(tiny_session, Starting)]) ?k (Some ?x)"
    using registerAndWait.woken [OF _ m] by blast
  have "fetch ?W None 0 4096 (tiny ?mm []) ?k (Some ?x)"
  proof (rule fetch.waited [OF tiny_locate chunk_reaches.here _ chunk_reaches.here])
    show "getOrCreateSession (w_ops ?W) 0 4096 None (tiny ?mm []) = (tiny ?mm [(tiny_session, Starting)], Some 0)"
      unfolding W by (rule tiny_open)
    have fb: "first_block (tiny ?mm []) 0 = 0" "final_block (tiny ?mm []) 0 4096 = 0"
      "chunk_end (ck_heap (tiny ?mm [(tiny_session, Starting)]) ! 0) = 4096"
      by (simp_all add: first_block_def final_block_def c bs i64_div_def signed_divide_int_def) (simp add: tiny_def chunk_end_def newFetchSession_def)
    show "wait_blocks ?W 0 (chunk_end (ck_heap (tiny ?mm [(tiny_session, Starting)]) ! 0)) (final_block (tiny ?mm []) 0 4096)
        (first_block (tiny ?mm []) 0) (tiny ?mm [(tiny_session, Starting)]) ?k (Some ?x)"
      unfolding fb by (rule wait_blocks.failed [OF _ _ w]) simp_all
  qed
  then have "fetch ?W None 0 (i64_min (0 + 8192) (0 + 4096) - 0) (tiny ?mm []) ?k (Some ?x)" by (simp add: i64_min_def)
  from fetch_chunks.fetch_failed [OF _ tiny_locate this] have "fetch_chunks ?W None (0 + 8192) 0 (tiny ?mm []) ?k (Some ?x)" by simp
  from Chunker_Slice.not_fetched [OF nc chunk_reaches.here this]
  have s: "Chunker_Slice ?W None 0 8192 (tiny ?mm []) ?k (Inl ?x)" .
  have "ck_size (tiny ?mm []) = 4096" by (simp add: tiny_def)
  with Slice_past_end [OF s _ _ _ _ _ nc] have "\<exists>c n k1 k2. fetch ?W None c n k1 k2 (Some ?x)" by (auto simp: IsCompressed_def)
  then show ?thesis using s by blast
qed

end
