(* ===== verification/Chunker_Trace.thy ===== *)
theory Chunker_Trace
  imports Chunker_Ends
begin

text \<open>
  The whole life of a fetch (\<open>runFetch\<close> and \<open>progressiveFetch\<close> of \<open>streaming_chunk.go\<close>): the goroutines' moves are recorded in a trace with the
  phase they start from and what the upstream answered. A fetch ends and releases its waiters, whatever the upstream does; it
  takes every answer that a reader of the interface may give; and the trace shows that nothing is marked as cached, and no byte of a compressed frame released,
  before the reader's \<open>Close\<close> has returned without an error.
\<close>

section \<open>Traces\<close>

type_synonym event = "nat \<times> phase \<times> answer"

inductive chunk_trace :: "'bm world \<Rightarrow> 'bm Chunker \<Rightarrow> event list \<Rightarrow> 'bm Chunker \<Rightarrow> bool" for W k0 where
  start: "chunk_trace W k0 [] k0"
| fetch_moves: "chunk_trace W k0 tr k \<Longrightarrow> i < length (ck_heap k) \<Longrightarrow> runFetch (w_ops W) (w_batch W) i a k = Some k' \<Longrightarrow>
    (\<And>bs e t. a = Delivered bs e \<Longrightarrow> snd (ck_runs k ! i) = Streaming t \<Longrightarrow> w_good W (unat (s_chunkOff (ck_heap k ! i)) + unat t) bs) \<Longrightarrow>
    chunk_trace W k0 (tr @ [(i, snd (ck_runs k ! i), a)]) k'"
| other_reader: "chunk_trace W k0 tr k \<Longrightarrow> ft \<in> w_fts W \<Longrightarrow> 0 \<le> sint off \<Longrightarrow> sint off < sint (ck_size k) \<Longrightarrow>
    locateChunk k off ft = Inr (chunkOff, chunkLen) \<Longrightarrow>
    chunk_trace W k0 tr (fst (getOrCreateSession (w_ops W) chunkOff chunkLen ft k))"

text \<open>The traces are those of the interleavings of \<open>moves\<close>.\<close>

lemma moves_iff_trace: "moves W k0 k \<longleftrightarrow> (\<exists>tr. chunk_trace W k0 tr k)"
proof
  show "\<exists>tr. chunk_trace W k0 tr k" if "moves W k0 k"
    using that
  proof induction
    case (further k k')
    from further(2) show ?case
      by cases (use further(3) chunk_trace.fetch_moves chunk_trace.other_reader in blast)+
  qed (blast intro: chunk_trace.start)
  have "moves W k0 k" if "chunk_trace W k0 tr k" for tr
    using that
  proof induction
    case (fetch_moves tr k i a k')
    then have "steps W k k'" by (intro chunk_step.fetch_moves) auto
    then show ?case by (rule chunk_reaches.further [OF fetch_moves.IH])
  next
    case (other_reader tr k ft off c l)
    then show ?case by (intro chunk_reaches.further [OF other_reader.IH] chunk_step.other_reader)
  qed (rule chunk_reaches.here)
  then show "moves W k0 k" if "\<exists>tr. chunk_trace W k0 tr k" using that by blast
qed

section \<open>What the upstream may answer\<close>

text \<open>The results of \<open>OpenRangeReader\<close>, of \<open>io.ReadFull\<close> (the whole buffer, or less and an error) and of \<open>Close\<close>, none of them a panic; the other
  phases call nothing of the upstream.\<close>

fun upstream_may :: "i64 \<Rightarrow> i64 \<Rightarrow> phase \<Rightarrow> answer \<Rightarrow> bool" where
  "upstream_may readBatch chunkLen Starting a \<longleftrightarrow> (case a of Opened _ \<Rightarrow> True | OpenFailed _ _ \<Rightarrow> True | _ \<Rightarrow> False)"
| "upstream_may readBatch chunkLen (Streaming t) a \<longleftrightarrow>
     (if sint t < sint chunkLen then
        (case a of Delivered bs e \<Rightarrow>
           (let m = nat (sint (i64_min (t + readBatch) chunkLen) - sint t) in length bs \<le> m \<and> (e = None \<longrightarrow> length bs = m))
         | _ \<Rightarrow> False)
      else a = NoAnswer)"
| "upstream_may readBatch chunkLen (Closing e) a \<longleftrightarrow> (case a of ClosedWith _ \<Rightarrow> True | _ \<Rightarrow> False)"
| "upstream_may readBatch chunkLen Released a \<longleftrightarrow> False"
| "upstream_may readBatch chunkLen _ a \<longleftrightarrow> a = NoAnswer"

lemma upstream_may_ex: "ph \<noteq> Released \<Longrightarrow> \<exists>a. upstream_may batch l ph a"
proof (cases ph)
  case (Streaming t)
  let ?m = "nat (sint (i64_min (t + batch) l) - sint t)"
  have "upstream_may batch l ph (if sint t < sint l then Delivered (replicate ?m 0) None else NoAnswer)"
    using Streaming by simp
  then show ?thesis by blast
qed (auto intro: exI [of _ "Opened 0"] exI [of _ "ClosedWith None"])

section \<open>The mapping\<close>

text \<open>The mapping of the file stays open and of its size, and every session is a chunk inside the file: no slice expression of a fetch is out of range.\<close>

definition mapped_ok :: "'bm Chunker \<Rightarrow> bool" where
  "mapped_ok k \<longleftrightarrow> c_size (ck_cache k) = ck_size k \<and> unat (ck_size k) < 2 ^ 44 \<and> \<not> c_closed (ck_cache k) \<and> c_blockSize (ck_cache k) \<noteq> 0 \<and>
     (ck_size k \<noteq> 0 \<longrightarrow> (\<exists>mm. c_mmap (ck_cache k) = Some mm \<and> length mm = unat (ck_size k))) \<and>
     (\<forall>s \<in> set (ck_heap k). 0 < unat (s_chunkLen s) \<and> unat (s_chunkOff s) + unat (s_chunkLen s) \<le> unat (ck_size k))"

lemma mapped_address:
  assumes k: "mapped_ok k" and s: "s \<in> set (ck_heap k)"
  shows "\<exists>mm. addressBytes (ck_cache k) (s_chunkOff s) (s_chunkLen s) = Inr mm \<and> length mm = unat (s_chunkLen s)"
proof -
  let ?o = "s_chunkOff s" and ?l = "s_chunkLen s" and ?N = "ck_size k"
  have b: "0 < unat ?l" "unat ?o + unat ?l \<le> unat ?N" "unat ?N < 2 ^ 44" using k s by (auto simp: mapped_ok_def)
  then obtain mm where mm: "c_mmap (ck_cache k) = Some mm" "length mm = unat ?N" using k by (auto simp: mapped_ok_def)
  have e: "unat (?o + ?l) = unat ?o + unat ?l" using b by (subst unat_add_u64) simp_all
  then have "unat (i64_min (?o + ?l) ?N) = unat (?o + ?l)" using b by (subst i64_min_nat) simp_all
  then have m: "i64_min (?o + ?l) ?N = ?o + ?l" by simp
  have "go_slice mm ?o (?o + ?l) = Some (take (unat ?l) (drop (unat ?o) mm))" using b e mm(2) by (subst go_slice_nat) simp_all
  moreover have "sint ?o < sint ?N" using b by (simp add: sint_small_u64)
  ultimately show ?thesis
    using k mm m b by (auto simp: addressBytes_def mapped_ok_def isClosed_def mmap_slice_def)
qed

text \<open>What a step of a goroutine may do to the cache.\<close>

lemma cache_simps: "ck_cache (goto_phase i ph k) = ck_cache k" "ck_cache (with_session i f k) = ck_cache k"
  by (simp_all add: goto_phase_def with_session_def)

lemma runFetch_cache:
  assumes "runFetch R batch i a k = Some k'"
  shows "ck_cache k' = ck_cache k \<or>
    (\<exists>t bs e. snd (ck_runs k ! i) = Streaming t \<and> a = Delivered bs e \<and> upstream_may batch (s_chunkLen (ck_heap k ! i)) (Streaming t) a \<and>
       ck_cache k' = ck_cache (fill_mmap (unat (s_chunkOff (ck_heap k ! i)) + unat t) bs k)) \<or>
    snd (ck_runs k ! i) = Verified \<and> (\<exists>tr. ck_cache k' = (ck_cache k)\<lparr>c_tracker := tr\<rparr>)"
proof (cases "snd (ck_runs k ! i)")
  case Starting
  then show ?thesis using assms
    by (auto simp: runFetch_def next_phase_def phase_start_def Let_def cache_simps split: answer.splits sum.splits if_splits)
next
  case (Streaming t)
  then show ?thesis using assms
    by (auto simp: runFetch_def next_phase_def phase_read_def Let_def cache_simps split: answer.splits if_splits)
next
  case (Stored n t e)
  then show ?thesis using assms
    by (auto simp: runFetch_def next_phase_def phase_stored_def Let_def cache_simps split: answer.splits option.splits)
next
  case (Closing e)
  then show ?thesis using assms
    by (auto simp: runFetch_def next_phase_def phase_close_def cache_simps split: answer.splits option.splits)
next
  case Verified
  then show ?thesis using assms
    by (auto simp: runFetch_def next_phase_def phase_mark_def setIsCached_def Let_def cache_simps split: answer.splits option.splits if_splits)
qed (use assms in \<open>auto simp: runFetch_def next_phase_def cache_simps split: answer.splits\<close>)

lemma read_bound:
  assumes "upstream_may batch l (Streaming t) (Delivered bs e)" "unat l < 2 ^ 44" "unat t \<le> unat l"
  shows "unat t + length bs \<le> unat l"
proof -
  have "sint (i64_min (t + batch) l) \<le> sint l" by (simp add: i64_min_def)
  moreover have "sint l = int (unat l)" "sint t = int (unat t)" using assms(2,3) by (simp_all add: sint_small_u64)
  ultimately show ?thesis using assms(1) by (auto simp: Let_def split: if_splits)
qed

lemma runFetch_mapped:
  assumes inv: "runs_inv B N k" and i: "i < length (ck_heap k)" and b: "0 < unat batch" "unat batch < 2 ^ 44"
    and k': "runFetch R batch i a k = Some k'" and m: "mapped_ok k"
  shows "mapped_ok k'"
proof -
  let ?s = "ck_heap k ! i"
  have ok: "run_ok ?s (ck_runs k ! i)" using inv i by (simp add: runs_inv_def)
  obtain s' ph' where c: "own_change i k k' s' ph'" and g: "good_move ?s (fst (ck_runs k ! i)) (snd (ck_runs k ! i)) s' ph'"
    using runFetch_move [OF ok b k'] by (auto simp: moved_def)
  have s: "0 < unat (s_chunkLen ?s)" "unat (s_chunkOff ?s) + unat (s_chunkLen ?s) \<le> unat (ck_size k)"
    using m i by (auto simp: mapped_ok_def)
  have "0 < unat (s_chunkLen x) \<and> unat (s_chunkOff x) + unat (s_chunkLen x) \<le> unat (ck_size k)" if "x \<in> set ((ck_heap k)[i := s'])" for x
  proof -
    have "x = s' \<or> x \<in> set (ck_heap k)" using that set_update_subset_insert [of "ck_heap k" i s'] by blast
    then show ?thesis using g s m by (auto simp: good_move_def mapped_ok_def)
  qed
  then have heap: "\<forall>x \<in> set (ck_heap k'). 0 < unat (s_chunkLen x) \<and> unat (s_chunkOff x) + unat (s_chunkLen x) \<le> unat (ck_size k')"
    and sz: "ck_size k' = ck_size k" using c by (auto simp: own_change_def)
  from runFetch_cache [OF k'] show ?thesis
  proof (elim disjE exE conjE)
    fix t bs e
    assume t: "snd (ck_runs k ! i) = Streaming t" and a: "a = Delivered bs e" "upstream_may batch (s_chunkLen ?s) (Streaming t) a"
      and f: "ck_cache k' = ck_cache (fill_mmap (unat (s_chunkOff ?s) + unat t) bs k)"
    have "unat t + length bs \<le> unat (s_chunkLen ?s)"
      using ok t a by (intro read_bound [where batch = batch and e = e]) (simp_all add: run_ok_def)
    then have "unat (s_chunkOff ?s) + unat t + length bs \<le> unat (ck_size k)" using s by linarith
    then show ?thesis using m heap sz f by (auto simp: mapped_ok_def fill_mmap_def length_overwrite)
  qed (use m heap sz in \<open>auto simp: mapped_ok_def\<close>)
qed

lemma opened_mapped:
  assumes "mapped_ok k" "is_chunk B (unat (ck_size k)) c l"
  shows "mapped_ok (fst (getOrCreateSession R c l ft k))"
  using assms by (auto simp: mapped_ok_def getOrCreateSession_def newFetchSession_def is_chunk_def split: option.splits)

lemma fetch_progress:
  assumes m: "mapped_ok k" and i: "i < length (ck_heap k)" and a: "upstream_may batch (s_chunkLen (ck_heap k ! i)) (snd (ck_runs k ! i)) a"
  shows "\<exists>k'. runFetch R batch i a k = Some k'"
proof -
  let ?s = "ck_heap k ! i"
  have s: "?s \<in> set (ck_heap k)" using i by simp
  obtain mm where mm: "addressBytes (ck_cache k) (s_chunkOff ?s) (s_chunkLen ?s) = Inr mm" "length mm = unat (s_chunkLen ?s)"
    using mapped_address [OF m s] by blast
  have "unat (s_chunkLen ?s) < 2 ^ 44" using m s by (auto simp: mapped_ok_def)
  then have l: "sint (s_chunkLen ?s) = int (length mm)" using mm(2) by (simp add: sint_small_u64)
  show ?thesis
  proof (cases "snd (ck_runs k ! i)")
    case Starting
    then show ?thesis using a mm by (auto simp: runFetch_def next_phase_def phase_start_def Let_def split: answer.splits)
  next
    case (Streaming t)
    have "sint (i64_min (t + batch) (s_chunkLen ?s)) \<le> sint (s_chunkLen ?s)" by (simp add: i64_min_def)
    then show ?thesis using a mm(1) l Streaming
      by (auto simp: runFetch_def next_phase_def phase_read_def Let_def split: answer.splits if_splits)
  next
    case (Closing e)
    then show ?thesis using a by (auto simp: runFetch_def next_phase_def split: answer.splits)
  next
    case Verified
    then show ?thesis using a m by (auto simp: runFetch_def next_phase_def phase_mark_def setIsCached_def mapped_ok_def Let_def)
  qed (use a in \<open>auto simp: runFetch_def next_phase_def\<close>)
qed

section \<open>Nothing before Close\<close>

text \<open>What the trace tells of session \<open>i\<close>: after an error of \<open>Close\<close> the session has failed, and it only gets to marking its chunk, or to its end
  without an error, through a \<open>Close\<close> without one.\<close>

definition trace_ok :: "event list \<Rightarrow> nat \<Rightarrow> fetchSession \<Rightarrow> phase \<Rightarrow> bool" where
  "trace_ok tr i s ph \<longleftrightarrow>
     (\<forall>e c. (i, Closing e, ClosedWith (Some c)) \<in> set tr \<longrightarrow> s_fetchErr s \<noteq> None) \<and>
     (ph = Verified \<or> ph = Marked \<or> s_done s \<and> s_fetchErr s = None \<longrightarrow> (i, Closing None, ClosedWith None) \<in> set tr)"

lemma moved_simps:
  assumes "i < length (ck_heap k)" "length (ck_runs k) = length (ck_heap k)"
  shows "ck_heap (goto_phase i ph x) = ck_heap x" "ck_heap (with_session i f k) ! i = f (ck_heap k ! i)" "ck_heap (fill_mmap p bs k) = ck_heap k"
    "snd (ck_runs (goto_phase i ph k) ! i) = ph" "snd (ck_runs (goto_phase i ph (with_session i f k)) ! i) = ph"
    "snd (ck_runs (goto_phase i ph (fill_mmap p bs k)) ! i) = ph" "snd (ck_runs (goto_phase i ph (k\<lparr>ck_cache := c\<rparr>)) ! i) = ph"
    "snd (ck_runs (goto_phase i ph (k\<lparr>ck_fetchSessions := act\<rparr>)) ! i) = ph"
  using assms by (simp_all add: goto_phase_def with_session_def fill_mmap_def)

lemma runFetch_trace:
  assumes i: "i < length (ck_heap k)" "length (ck_runs k) = length (ck_heap k)"
    and ok: "run_ok (ck_heap k ! i) (ck_runs k ! i)" and tr: "trace_ok tr i (ck_heap k ! i) (snd (ck_runs k ! i))"
    and k': "runFetch R batch i a k = Some k'"
  shows "trace_ok (tr @ [(i, snd (ck_runs k ! i), a)]) i (ck_heap k' ! i) (snd (ck_runs k' ! i))"
proof (cases "\<exists>m. a = Panic m")
  case True
  then show ?thesis using k' ok tr i
    by (auto simp: runFetch_def trace_ok_def run_ok_def moved_simps split: if_splits)
next
  case False
  then have np: "next_phase R batch i a k = Some k'" using k' by (cases a) (simp_all add: runFetch_def)
  note S = moved_simps [OF i]
  note D = trace_ok_def run_ok_def next_phase_def
  show ?thesis
  proof (cases "snd (ck_runs k ! i)")
    case Starting
    then show ?thesis using np ok tr
      by (auto simp: D S phase_start_def session_fail_def setSource_def Let_def split: answer.splits sum.splits if_splits)
  next
    case (Streaming t)
    then show ?thesis using np ok tr
      by (auto simp: D S phase_read_def Let_def split: answer.splits if_splits)
  next
    case (Stored n t e)
    then show ?thesis using np ok tr
      by (auto simp: D S phase_stored_def session_advance_def Let_def split: option.splits if_splits)
  next
    case (Closing e)
    then show ?thesis using np ok tr
      by (auto simp: D S phase_close_def session_fail_def split: answer.splits option.splits)
  next
    case Verified
    then show ?thesis using np ok tr by (auto simp: D S phase_mark_def Let_def split: option.splits)
  next
    case Marked
    then show ?thesis using np ok tr by (auto simp: D S setDone_def)
  next
    case (Exiting e)
    then show ?thesis using np ok tr by (auto simp: D S failIfRunning_def terminated_def split: if_splits)
  next
    case Releasing
    then show ?thesis using np ok tr by (auto simp: D S)
  qed (use np in \<open>simp add: next_phase_def\<close>)
qed

section \<open>Whole runs\<close>

definition life_inv :: "nat \<Rightarrow> nat \<Rightarrow> event list \<Rightarrow> 'bm Chunker \<Rightarrow> bool" where
  "life_inv B N tr k \<longleftrightarrow> runs_inv B N k \<and> mapped_ok k \<and> (\<forall>x \<in> set tr. fst x < length (ck_heap k)) \<and>
     (\<forall>i < length (ck_heap k). trace_ok tr i (ck_heap k ! i) (snd (ck_runs k ! i)))"

lemma life_moves:
  assumes inv: "life_inv B N tr k" and W: "any_world B N W" and i: "i < length (ck_heap k)"
    and k': "runFetch (w_ops W) (w_batch W) i a k = Some k'"
  shows "life_inv B N (tr @ [(i, snd (ck_runs k ! i), a)]) k'"
proof -
  have r: "runs_inv B N k" "mapped_ok k" "length (ck_runs k) = length (ck_heap k)" and b: "0 < unat (w_batch W)" "unat (w_batch W) < 2 ^ 44"
    using inv W by (simp_all add: life_inv_def any_world_def runs_inv_def)
  have ok: "run_ok (ck_heap k ! i) (ck_runs k ! i)" using r(1) i by (simp add: runs_inv_def)
  note mv = runFetch_move [OF ok b k']
  note m = moved_inv [OF r(1) i mv]
  have "trace_ok (tr @ [(i, snd (ck_runs k ! i), a)]) j (ck_heap k' ! j) (snd (ck_runs k' ! j))" if j: "j < length (ck_heap k')" for j
  proof (cases "j = i")
    case True
    have "trace_ok tr i (ck_heap k ! i) (snd (ck_runs k ! i))" using inv i by (simp add: life_inv_def)
    from runFetch_trace [OF i r(3) ok this k'] show ?thesis using True by simp
  next
    case False
    then have "ck_heap k' ! j = ck_heap k ! j" "ck_runs k' ! j = ck_runs k ! j" using mv by (auto simp: moved_def own_change_def)
    moreover have "trace_ok tr j (ck_heap k ! j) (snd (ck_runs k ! j))" using inv j m(4) by (simp add: life_inv_def)
    ultimately show ?thesis using False by (simp add: trace_ok_def)
  qed
  then show ?thesis using inv i m(1,4) runFetch_mapped [OF r(1) i b k' r(2)] by (simp add: life_inv_def)
qed

lemma life_opened:
  fixes R :: "'bm roaring_ops"
  assumes inv: "life_inv B N tr k" and c: "is_chunk B N c l" and N: "N < 2 ^ 44"
  shows "life_inv B N tr (fst (getOrCreateSession R c l ft k))" (is "life_inv B N tr ?k")
proof -
  have r: "runs_inv B N k" "mapped_ok k" "unat (ck_size k) = N" "length (ck_runs k) = length (ck_heap k)"
    using inv by (simp_all add: life_inv_def runs_inv_def)
  have "trace_ok tr (length (ck_heap k)) (newFetchSession c l) Starting"
    using inv by (force simp: trace_ok_def newFetchSession_def life_inv_def)
  then have "\<forall>j < length (ck_heap ?k). trace_ok tr j (ck_heap ?k ! j) (snd (ck_runs ?k ! j))"
    using inv r(4) by (auto simp: getOrCreateSession_def life_inv_def nth_append less_Suc_eq split: option.splits)
  moreover have "length (ck_heap k) \<le> length (ck_heap ?k)" "runs_inv B N ?k" using opened_inv [OF r(1) c N] by simp_all
  moreover have "mapped_ok ?k" using opened_mapped [OF r(2), of B c l] c r(3) by simp
  ultimately show ?thesis using inv by (force simp: life_inv_def)
qed

lemma trace_life:
  assumes "chunk_trace W k0 tr k" and W: "any_world B N W" and "life_inv B N [] k0"
  shows "life_inv B N tr k"
  using assms(1)
proof induction
  case (fetch_moves tr k i a k')
  then show ?case using life_moves [OF _ W] by blast
next
  case (other_reader tr k ft off c l)
  have N: "N < 2 ^ 44" "unat (ck_size k) = N" "B dvd N" "B dvd 4194304" "ft_fits B N ft"
    using W other_reader by (auto simp: any_world_def life_inv_def runs_inv_def)
  have "unat off < N" using other_reader N sint_nonneg_eq [of off] sint_small_u64 [of "ck_size k"] by simp
  from locateChunk_sized [OF N this other_reader(5)] have "is_chunk B N c l" by blast
  from life_opened [OF other_reader.IH this N(1)] show ?case .
qed (rule assms(3))

lemma new_life:
  assumes "NewChunker R oe te (Inr mm) sz bs path = Inr k" "length mm = unat sz" "any_world (unat bs) (unat sz) W"
  shows "life_inv (unat bs) (unat sz) [] k"
proof -
  have "bs \<noteq> 0" "unat sz < 2 ^ 44" using assms(3) by (auto simp: any_world_def)
  then show ?thesis using assms(1,2) new_runs_inv [OF assms(1), of "unat bs"]
    by (auto simp: life_inv_def mapped_ok_def NewChunker_def NewCache_def split: sum.splits option.splits if_splits)
qed

text \<open>
  C6. Every fetch ends, with any upstream, corrupt ones included. As long as its goroutine has not released the session the upstream has an answer to give, and the
  goroutine takes every answer that the upstream may give, without a panic of its own; each of its moves, panics of the upstream included, leaves fewer to make, and no
  one else's adds any; when it has released the session the session is terminated and off the active list, and no waiter waits any longer.
  Nothing is released before it is verified: a move that marks blocks as cached comes after a read loop that ended without error and a \<open>Close\<close> of the reader that
  returned none; so does every release of bytes of a compressed frame, which happens only when the fetch has ended without error; and
  after an error of \<open>Close\<close> the session has failed, with no byte of a compressed frame released.
\<close>

theorem fetch_always_ends:
  assumes "NewChunker R oe te (Inr mm) sz bs path = Inr k0" and "length mm = unat sz" and "any_world (unat bs) (unat sz) W"
    and "chunk_trace W k0 tr k" and "i < length (ck_heap k)"
  shows "(snd (ck_runs k ! i) \<noteq> Released \<longrightarrow> (\<exists>a. upstream_may (w_batch W) (s_chunkLen (ck_heap k ! i)) (snd (ck_runs k ! i)) a)) \<and>
    (\<forall>a. upstream_may (w_batch W) (s_chunkLen (ck_heap k ! i)) (snd (ck_runs k ! i)) a \<longrightarrow>
       (\<exists>k'. runFetch (w_ops W) (w_batch W) i a k = Some k')) \<and>
    (\<forall>a k'. runFetch (w_ops W) (w_batch W) i a k = Some k' \<longrightarrow> run_left k' i < run_left k i) \<and>
    (\<forall>k'. steps W k k' \<longrightarrow> run_left k' i \<le> run_left k i) \<and>
    (snd (ck_runs k ! i) = Released \<longrightarrow> s_done (ck_heap k ! i) \<and> i \<notin> set (ck_fetchSessions k) \<and>
       (\<forall>ctxDone b. wait_check (w_ops W) (ck_cache k) ctxDone (ck_heap k ! i) b \<noteq> None)) \<and>
    (\<forall>a k'. runFetch (w_ops W) (w_batch W) i a k = Some k' \<and> c_tracker (ck_cache k') \<noteq> c_tracker (ck_cache k) \<longrightarrow>
       (i, Closing None, ClosedWith None) \<in> set tr) \<and>
    (IsCompressed (fst (ck_runs k ! i)) \<and> s_bytesReady (ck_heap k ! i) \<noteq> 0 \<longrightarrow>
       \<not> fetching (snd (ck_runs k ! i)) \<and> s_done (ck_heap k ! i) \<and> s_fetchErr (ck_heap k ! i) = None \<and>
       (i, Closing None, ClosedWith None) \<in> set tr) \<and>
    (\<forall>e c. (i, Closing e, ClosedWith (Some c)) \<in> set tr \<longrightarrow> s_fetchErr (ck_heap k ! i) \<noteq> None \<and>
       (IsCompressed (fst (ck_runs k ! i)) \<longrightarrow> s_bytesReady (ck_heap k ! i) = 0))"
proof -
  have life: "life_inv (unat bs) (unat sz) tr k" using trace_life [OF assms(4,3)] new_life [OF assms(1-3)] by blast
  then have inv: "runs_inv (unat bs) (unat sz) k" and m: "mapped_ok k" and tr: "trace_ok tr i (ck_heap k ! i) (snd (ck_runs k ! i))"
    using assms(5) by (simp_all add: life_inv_def)
  have ok: "run_ok (ck_heap k ! i) (ck_runs k ! i)" using inv assms(5) by (simp add: runs_inv_def)
  have b: "0 < unat (w_batch W)" "unat (w_batch W) < 2 ^ 44" using assms(3) by (simp_all add: any_world_def)
  have dec: "run_left k' i < run_left k i" if "runFetch (w_ops W) (w_batch W) i a k = Some k'" for a k'
    using moved_inv(2) [OF inv assms(5) runFetch_move [OF ok b that]] .
  have others: "run_left k' i \<le> run_left k i" if "steps W k k'" for k' using steps_inv [OF that assms(3) inv] assms(5) by blast
  have rel: "s_done (ck_heap k ! i)" "i \<notin> set (ck_fetchSessions k)" if "snd (ck_runs k ! i) = Released"
    using that inv assms(5) ok by (auto simp: runs_inv_def run_ok_def)
  have waits: "wait_check (w_ops W) (ck_cache k) ctxDone (ck_heap k ! i) b \<noteq> None" if "s_done (ck_heap k ! i)" for ctxDone b
    using that by (auto simp: wait_check_def terminated_def split: option.splits)
  have marks: "(i, Closing None, ClosedWith None) \<in> set tr"
    if "runFetch (w_ops W) (w_batch W) i a k = Some k'" "c_tracker (ck_cache k') \<noteq> c_tracker (ck_cache k)" for a k'
    using runFetch_cache [OF that(1)] that(2) tr by (auto simp: trace_ok_def fill_mmap_def)
  have clean: "(i, Closing None, ClosedWith None) \<in> set tr" if "s_done (ck_heap k ! i)" "s_fetchErr (ck_heap k ! i) = None"
    using that tr by (simp add: trace_ok_def)
  have failed: "s_fetchErr (ck_heap k ! i) \<noteq> None" if "(i, Closing e, ClosedWith (Some c)) \<in> set tr" for e c
    using that tr by (auto simp: trace_ok_def)
  have released: "\<not> fetching (snd (ck_runs k ! i)) \<and> s_done (ck_heap k ! i) \<and> s_fetchErr (ck_heap k ! i) = None"
    if "IsCompressed (fst (ck_runs k ! i))" "s_bytesReady (ck_heap k ! i) \<noteq> 0"
    using ok that by (simp add: run_ok_def)
  show ?thesis
  proof (intro conjI allI impI, goal_cases)
    case 1
    then show ?case by (rule upstream_may_ex)
  next
    case (2 a)
    then show ?case by (rule fetch_progress [OF m assms(5)])
  next
    case (3 a k')
    then show ?case by (rule dec)
  next
    case (4 k')
    then show ?case by (rule others)
  next
    case (7 ctxDone b)
    then show ?case using rel(1) by (intro waits)
  next
    case (8 a k')
    then show ?case using marks by blast
  next
    case 12
    then show ?case using released clean by blast
  next
    case (14 e c)
    then show ?case using failed released by blast
  qed (use rel failed released in blast)+
qed

section \<open>A compressed frame\<close>

text \<open>A file of one block in one compressed frame, with an upstream that may deliver anything.\<close>

definition one_frame :: FrameTable where
  "one_frame = \<lparr>compressionType = CompressionLZ4, ft_entries = [\<lparr>StartU = 0, StartC = 0, SizeU = 4096, SizeC = 100\<rparr>]\<rparr>"

definition framed_world :: "u32 set world" where
  "framed_world = \<lparr>w_ops = set_roaring, w_batch = 4096, w_good = \<lambda>_ _. True, w_fts = {Some one_frame}\<rparr>"

definition framed :: "u32 set Cache \<Rightarrow> fetchSession \<Rightarrow> phase \<Rightarrow> u32 set Chunker" where
  "framed c s ph = \<lparr>ck_cache = c, ck_size = 4096, ck_heap = [s], ck_runs = [(Some one_frame, ph)], ck_fetchSessions = [0]\<rparr>"

lemma framed_any: "any_world (unat (4096 :: i64)) (unat (4096 :: i64)) framed_world"
  by (simp add: any_world_def framed_world_def ft_fits_def one_frame_def)

lemma framed_locate: "locateChunk (tiny mm []) 0 (Some one_frame) = Inr (0, 4096)"
proof -
  have "LocateUncompressed (Some one_frame) 0 = Inr \<lparr>rg_Offset = 0, rg_Length = 4096\<rparr>" by code_simp
  then show ?thesis by (simp add: locateChunk_def IsCompressed_def one_frame_def)
qed

lemma framed_step:
  assumes "chunk_trace framed_world k0 tr (framed c s ph)" "runFetch set_roaring 4096 0 a (framed c s ph) = Some k'"
  shows "chunk_trace framed_world k0 (tr @ [(0, ph, a)]) k'"
  using chunk_trace.fetch_moves [OF assms(1), of 0 a k'] assms(2) by (simp add: framed_world_def framed_def)

lemma framed_read:
  assumes "length mm = 4096" "length img = 4096"
  shows "\<exists>tr. chunk_trace framed_world (tiny mm []) tr (framed (tiny_cache img) tiny_session (Closing None))"
proof -
  note a = tiny_address [OF assms(1)]
  have s: "setSource 0 tiny_session = tiny_session" "s_chunkOff tiny_session = 0" "s_chunkLen tiny_session = 4096"
    by (simp_all add: setSource_def newFetchSession_def)
  have "fst (getOrCreateSession set_roaring 0 4096 (Some one_frame) (tiny mm [])) = framed (tiny_cache mm) tiny_session Starting"
    using tiny_not_cached(1) [of 4096 mm] by (simp add: getOrCreateSession_def tiny_def framed_def)
  then have t0: "chunk_trace framed_world (tiny mm []) [] (framed (tiny_cache mm) tiny_session Starting)"
    using chunk_trace.other_reader [OF chunk_trace.start [of framed_world "tiny mm []"] _ _ _ framed_locate]
    by (simp add: framed_world_def tiny_def)
  have "runFetch set_roaring 4096 0 (Opened 0) (framed (tiny_cache mm) tiny_session Starting) = Some (framed (tiny_cache mm) tiny_session (Streaming 0))"
    using a s by (simp add: runFetch_def next_phase_def phase_start_def framed_def goto_phase_def with_session_def)
  note t1 = framed_step [OF t0 this]
  have "overwrite mm 0 img = img" using assms by (simp add: overwrite_def)
  then have "tiny_cache mm\<lparr>c_mmap := map_option (\<lambda>m. overwrite m 0 img) (c_mmap (tiny_cache mm))\<rparr> = tiny_cache img"
    by (simp add: tiny_cache_def)
  then have "runFetch set_roaring 4096 0 (Delivered img None) (framed (tiny_cache mm) tiny_session (Streaming 0)) =
      Some (framed (tiny_cache img) tiny_session (Stored 4096 4096 None))"
    using a s assms by (simp add: runFetch_def next_phase_def phase_read_def framed_def goto_phase_def fill_mmap_def i64_min_def)
  note t2 = framed_step [OF t1 this]
  have "runFetch set_roaring 4096 0 NoAnswer (framed (tiny_cache img) tiny_session (Stored 4096 4096 None)) =
      Some (framed (tiny_cache img) tiny_session (Streaming 4096))"
    by (simp add: runFetch_def next_phase_def phase_stored_def framed_def goto_phase_def IsCompressed_def one_frame_def)
  note t3 = framed_step [OF t2 this]
  have "runFetch set_roaring 4096 0 NoAnswer (framed (tiny_cache img) tiny_session (Streaming 4096)) =
      Some (framed (tiny_cache img) tiny_session (Closing None))"
    using s by (simp add: runFetch_def next_phase_def phase_read_def framed_def goto_phase_def)
  from framed_step [OF t3 this] show ?thesis by blast
qed

lemma framed_closed:
  assumes "length mm = 4096" "length img = 4096"
  shows "\<exists>tr. chunk_trace framed_world (tiny mm []) (tr @ [(0, Closing None, ClosedWith (Some ''crc''))])
      (framed (tiny_cache img) (session_fail (ChunkClose ''crc'') tiny_session) (Exiting FetchExited))"
    and "\<exists>tr c. chunk_trace framed_world (tiny mm []) tr (framed c (setDone tiny_session) (Exiting FetchExited))"
proof -
  obtain tr where tr: "chunk_trace framed_world (tiny mm []) tr (framed (tiny_cache img) tiny_session (Closing None))"
    using framed_read [OF assms] by blast
  have "runFetch set_roaring 4096 0 (ClosedWith (Some ''crc'')) (framed (tiny_cache img) tiny_session (Closing None)) =
      Some (framed (tiny_cache img) (session_fail (ChunkClose ''crc'') tiny_session) (Exiting FetchExited))"
    by (simp add: runFetch_def next_phase_def phase_close_def framed_def goto_phase_def with_session_def)
  from framed_step [OF tr this] show "\<exists>tr. chunk_trace framed_world (tiny mm []) (tr @ [(0, Closing None, ClosedWith (Some ''crc''))])
      (framed (tiny_cache img) (session_fail (ChunkClose ''crc'') tiny_session) (Exiting FetchExited))" by blast
  have "runFetch set_roaring 4096 0 (ClosedWith None) (framed (tiny_cache img) tiny_session (Closing None)) =
      Some (framed (tiny_cache img) tiny_session Verified)"
    by (simp add: runFetch_def next_phase_def phase_close_def framed_def goto_phase_def)
  note t1 = framed_step [OF tr this]
  have "c_blockSize (tiny_cache img) \<noteq> 0" by (simp add: tiny_cache_def)
  then obtain c where "runFetch set_roaring 4096 0 NoAnswer (framed (tiny_cache img) tiny_session Verified) = Some (framed c tiny_session Marked)"
    by (auto simp: runFetch_def next_phase_def phase_mark_def setIsCached_def framed_def goto_phase_def Let_def)
  note t2 = framed_step [OF t1 this]
  have "runFetch set_roaring 4096 0 NoAnswer (framed c tiny_session Marked) = Some (framed c (setDone tiny_session) (Exiting FetchExited))"
    by (simp add: runFetch_def next_phase_def framed_def goto_phase_def with_session_def)
  from framed_step [OF t2 this] show "\<exists>tr c. chunk_trace framed_world (tiny mm []) tr (framed c (setDone tiny_session) (Exiting FetchExited))" by blast
qed

theorem fetch_always_ends_witness:
  "(\<exists>tr k. chunk_trace framed_world (tiny (replicate 4096 0) []) tr k \<and> IsCompressed (fst (ck_runs k ! 0)) \<and>
      s_bytesReady (ck_heap k ! 0) = 4096 \<and> (0, Closing None, ClosedWith None) \<in> set tr) \<and>
   (\<exists>tr k. chunk_trace framed_world (tiny (replicate 4096 0) []) tr k \<and> IsCompressed (fst (ck_runs k ! 0)) \<and>
      (0, Closing None, ClosedWith (Some ''crc'')) \<in> set tr \<and> s_fetchErr (ck_heap k ! 0) \<noteq> None \<and> s_bytesReady (ck_heap k ! 0) = 0)"
proof (intro conjI)
  let ?img = "replicate 4096 7 :: byte list" and ?mm = "replicate 4096 0 :: byte list"
  have l: "length ?mm = 4096" "length ?img = 4096" "length ?mm = unat (4096 :: i64)" by simp_all
  note ends = fetch_always_ends [OF tiny_new l(3) framed_any]
  have f: "IsCompressed (fst (ck_runs (framed c s ph) ! 0))" "0 < length (ck_heap (framed c s ph))" "ck_heap (framed c s ph) ! 0 = s" for c s ph
    by (simp_all add: framed_def IsCompressed_def one_frame_def)
  obtain tr c where t: "chunk_trace framed_world (tiny ?mm []) tr (framed c (setDone tiny_session) (Exiting FetchExited))"
    using framed_closed(2) [OF l(1,2)] by blast
  have b: "s_bytesReady (setDone tiny_session) = 4096" by (simp add: setDone_def newFetchSession_def)
  then have "(0, Closing None, ClosedWith None) \<in> set tr" using ends [OF t f(2)] f by simp
  then show "\<exists>tr k. chunk_trace framed_world (tiny ?mm []) tr k \<and> IsCompressed (fst (ck_runs k ! 0)) \<and>
      s_bytesReady (ck_heap k ! 0) = 4096 \<and> (0, Closing None, ClosedWith None) \<in> set tr" using t f b by metis
  obtain tr where t: "chunk_trace framed_world (tiny ?mm []) (tr @ [(0, Closing None, ClosedWith (Some ''crc''))])
      (framed (tiny_cache ?img) (session_fail (ChunkClose ''crc'') tiny_session) (Exiting FetchExited))"
    using framed_closed(1) [OF l(1,2)] by blast
  have "(0, Closing None, ClosedWith (Some ''crc'')) \<in> set (tr @ [(0, Closing None, ClosedWith (Some ''crc''))])" by simp
  moreover from this have "s_fetchErr (session_fail (ChunkClose ''crc'') tiny_session) \<noteq> None"
    "s_bytesReady (session_fail (ChunkClose ''crc'') tiny_session) = 0"
    using ends [OF t f(2)] f by (metis (no_types))+
  ultimately show "\<exists>tr k. chunk_trace framed_world (tiny ?mm []) tr k \<and> IsCompressed (fst (ck_runs k ! 0)) \<and>
      (0, Closing None, ClosedWith (Some ''crc'')) \<in> set tr \<and> s_fetchErr (ck_heap k ! 0) \<noteq> None \<and> s_bytesReady (ck_heap k ! 0) = 0"
    using t f by metis
qed

end
