(* ===== verification/Build_File.thy ===== *)
theory Build_File
  imports Header
begin

text \<open>
  Reading a sandbox's disk or memory (\<open>File\<close> of \<open>packages/orchestrator/pkg/sandbox/build/build.go\<close>): a read is planned
  with the header, zero regions are cleared in place, every other region becomes a segment of a build's diff, and the segments
  are read in order or in parallel. When a diff was evicted between planning and reading the whole read is planned
  again. The header may be swapped at any time. The theory shows that reads give the bytes of the image that the headers
  describe.
\<close>

section \<open>Data\<close>

text \<open>An error is its innermost cause, as \<open>errors.As\<close> finds it; a panic of the header is the header's error \<open>HPanic\<close>.\<close>

datatype file_error = GetMapping header_error | CacheClosed | DiffFailed string | UnexpectedEOF | EOF | NegativeMake

record 'd read_segment =
  dstOff :: nat
  srcOff :: i64
  seg_length :: i64
  seg_diff :: 'd
  seg_ft :: "FrameTable option"

text \<open>What a read sees of the rest of the program: the header that is installed when it looks, what the diff store and the
  diffs answer, and in which order parallel segments are read. Every answer depends on the time of the call, which
  counts the calls of the read; other goroutines act in between. A memory fault is an error of the diff, as
  \<open>RunFaultSafe\<close> reports it.\<close>

record 'd env =
  e_header :: "nat \<Rightarrow> Header"
  e_getBuild :: "nat \<Rightarrow> uuid \<Rightarrow> file_error + 'd"
  e_ReadAt :: "nat \<Rightarrow> 'd \<Rightarrow> byte list \<Rightarrow> i64 \<Rightarrow> FrameTable option \<Rightarrow> byte list \<times> (file_error + nat)"
  e_Slice :: "nat \<Rightarrow> 'd \<Rightarrow> i64 \<Rightarrow> i64 \<Rightarrow> FrameTable option \<Rightarrow> file_error + byte list"
  e_Lookup :: "nat \<Rightarrow> uuid \<Rightarrow> 'd option"
  e_IsCached :: "nat \<Rightarrow> 'd \<Rightarrow> (i64 \<Rightarrow> i64 \<Rightarrow> bool) option"
  e_order :: "nat \<Rightarrow> nat \<Rightarrow> nat list"

section \<open>Planning\<close>

definition buildCacheSize :: nat where "buildCacheSize = 16"

definition cachedBuild ::
  "'d env \<Rightarrow> nat \<Rightarrow> uuid \<Rightarrow> (uuid \<times> 'd) list \<Rightarrow> nat \<times> (file_error + 'd \<times> (uuid \<times> 'd) list)" where
  "cachedBuild E t buildID cache =
     (case map_of cache buildID of
        Some d \<Rightarrow> (t, Inr (d, cache))
      | None \<Rightarrow>
          (case e_getBuild E t buildID of
             Inl e \<Rightarrow> (Suc t, Inl e)
           | Inr d \<Rightarrow> (Suc t, Inr (d, if length cache < buildCacheSize then cache @ [(buildID, d)] else cache))))"

lemma read_length_bound:
  assumes "0 < sint (i64_min a (word_of_nat x))"
  shows "0 < unat (i64_min a (word_of_nat x))" "unat (i64_min a (word_of_nat x)) \<le> x" "unat (i64_min a (word_of_nat x)) \<le> unat a"
proof -
  let ?w = "word_of_nat x :: i64"
  have pos: "sint w = int (unat w)" if "0 < sint w" for w :: i64
    using that sint_neg_u64 [of w] by (cases "unat w < 2 ^ 63") (auto simp: sint_small_u64)
  have le: "sint w \<le> int (unat w)" for w :: i64
    using sint_neg_u64 [of w] by (cases "unat w < 2 ^ 63") (auto simp: sint_small_u64)
  have "unat ?w \<le> x" by (simp add: unat_of_nat)
  with assms pos [OF assms] le [of ?w] le [of a]
  show "0 < unat (i64_min a ?w)" "unat (i64_min a ?w) \<le> x" "unat (i64_min a ?w) \<le> unat a"
    by (auto simp: i64_min_def split: if_splits)
qed

text \<open>\<open>planRead\<close> from byte \<open>n\<close> on: the buffer with its zero regions cleared, the time, and the segments, the number of
  bytes covered and the number of distinct builds.\<close>

function plan_loop ::
  "'d env \<Rightarrow> i64 \<Rightarrow> byte list \<Rightarrow> nat \<Rightarrow> nat \<Rightarrow> 'd read_segment list \<Rightarrow> (uuid \<times> 'd) list \<Rightarrow>
   byte list \<times> nat \<times> (file_error + 'd read_segment list \<times> nat \<times> nat)" where
  "plan_loop E off p t n segments cache =
     (if \<not> n < length p then (p, t, Inr (segments, n, length cache))
      else
        let h = e_header E t in
        case GetShiftedMapping h (off + word_of_nat n) of
          Inl e \<Rightarrow> (p, Suc t, Inl (GetMapping e))
        | Inr m \<Rightarrow>
            let readLength = i64_min (Length m) (word_of_nat (length p - n)) in
            if sint readLength \<le> 0 then (p, Suc t, Inr (segments, n, length cache))
            else if BuildId m = uuid_Nil then
              plan_loop E off (overwrite p n (replicate (unat readLength) 0)) (Suc t) (n + unat readLength) segments cache
            else
              (case cachedBuild E (Suc t) (BuildId m) cache of
                 (t', Inl e) \<Rightarrow> (p, t', Inl e)
               | (t', Inr (d, cache')) \<Rightarrow>
                   plan_loop E off p t' (n + unat readLength)
                     (segments @ [\<lparr>dstOff = n, srcOff = Offset m, seg_length = readLength, seg_diff = d,
                                  seg_ft = GetBuildFrameData h (BuildId m)\<rparr>]) cache'))"
  by pat_completeness auto
termination
proof (relation "measure (\<lambda>(E, off, p, t, n, segments, cache). length p - n)", goal_cases)
  case (2 E off p t n segments cache h m r)
  then show ?case using read_length_bound [of "Length m" "length p - n"] by (simp add: not_le)
next
  case (3 E off p t n segments cache h m r)
  then show ?case using read_length_bound(1) [of "Length m" "length p - n"] by (simp add: not_le)
qed simp

declare plan_loop.simps [simp del]

definition planRead :: "'d env \<Rightarrow> i64 \<Rightarrow> byte list \<Rightarrow> nat \<Rightarrow> byte list \<times> nat \<times> (file_error + 'd read_segment list \<times> nat \<times> nat)" where
  "planRead E off p t = plan_loop E off p t 0 [] []"

section \<open>Reading\<close>

definition readSegment :: "'d env \<Rightarrow> nat \<Rightarrow> byte list \<Rightarrow> 'd read_segment \<Rightarrow> byte list \<times> file_error option" where
  "readSegment E t p s =
     (let dst = take (unat (seg_length s)) (drop (dstOff s) p) in
      case e_ReadAt E t (seg_diff s) dst (srcOff s) (seg_ft s) of
        (dst', Inl e) \<Rightarrow> (overwrite p (dstOff s) dst', Some e)
      | (dst', Inr n) \<Rightarrow> (overwrite p (dstOff s) dst', if word_of_nat n \<noteq> seg_length s then Some UnexpectedEOF else None))"

text \<open>One after the other, up to the first error.\<close>

fun read_in_turn :: "'d env \<Rightarrow> byte list \<Rightarrow> nat \<Rightarrow> 'd read_segment list \<Rightarrow> byte list \<times> nat \<times> file_error option" where
  "read_in_turn E p t [] = (p, t, None)"
| "read_in_turn E p t (s # ss) =
     (case readSegment E t p s of
        (p', None) \<Rightarrow> read_in_turn E p' (Suc t) ss
      | (p', Some e) \<Rightarrow> (p', Suc t, Some e))"

text \<open>The goroutines of an \<open>errgroup\<close>, in the order in which they finish: all of them run, and the first error is kept.\<close>

fun read_group ::
  "'d env \<Rightarrow> 'd read_segment list \<Rightarrow> byte list \<Rightarrow> nat \<Rightarrow> file_error option \<Rightarrow> nat list \<Rightarrow> byte list \<times> nat \<times> file_error option" where
  "read_group E ss p t err [] = (p, t, err)"
| "read_group E ss p t err (i # order) =
     (case readSegment E t p (ss ! i) of
        (p', e) \<Rightarrow> read_group E ss p' (Suc t) (case err of None \<Rightarrow> e | Some x \<Rightarrow> Some x) order)"

definition readSegments ::
  "'d env \<Rightarrow> i64 \<Rightarrow> byte list \<Rightarrow> nat \<Rightarrow> 'd read_segment list \<Rightarrow> byte list \<times> nat \<times> file_error option" where
  "readSegments E maxParallel p t segments =
     (if sint maxParallel > 1 \<and> length segments > 1
      then read_group E segments p t None (e_order E t (length segments))
      else read_in_turn E p t segments)"

text \<open>One round of the loop of \<open>readAt\<close>: the number of bytes that the plan covers, or an error.\<close>

definition read_round :: "'d env \<Rightarrow> i64 \<Rightarrow> i64 \<Rightarrow> byte list \<Rightarrow> nat \<Rightarrow> byte list \<times> nat \<times> (file_error + nat)" where
  "read_round E maxParallel off p t =
     (case planRead E off p t of
        (p1, t1, Inl e) \<Rightarrow> (p1, t1, Inl e)
      | (p1, t1, Inr (segments, n, distinctBuilds)) \<Rightarrow>
          (case readSegments E maxParallel p1 t1 segments of
             (p2, t2, Some e) \<Rightarrow> (p2, t2, Inl e)
           | (p2, t2, None) \<Rightarrow> (p2, t2, Inr n)))"

partial_function (option) readAt ::
  "'d env \<Rightarrow> i64 \<Rightarrow> i64 \<Rightarrow> byte list \<Rightarrow> nat \<Rightarrow> (byte list \<times> nat \<times> nat \<times> file_error option) option" where
  "readAt E maxParallel off p t =
     (case read_round E maxParallel off p t of
        (p', t', Inr n) \<Rightarrow> Some (p', t', n, if n < length p then Some EOF else None)
      | (p', t', Inl e) \<Rightarrow> if e = CacheClosed then readAt E maxParallel off p' t' else Some (p', t', 0, Some e))"

text \<open>\<open>ReadAt\<close> adds the timers. \<open>Slice\<close> returns the bytes of a single mapping without copying, or composes them.\<close>

definition File_ReadAt ::
  "'d env \<Rightarrow> i64 \<Rightarrow> byte list \<Rightarrow> i64 \<Rightarrow> nat \<Rightarrow> (byte list \<times> nat \<times> nat \<times> file_error option) option" where
  "File_ReadAt E maxParallel p off t = readAt E maxParallel off p t"

definition HugepageSize :: i64 where "HugepageSize = 2 * 2 ^ 20"

definition slice_fast :: "'d env \<Rightarrow> i64 \<Rightarrow> i64 \<Rightarrow> nat \<Rightarrow> nat \<times> byte list option" where
  "slice_fast E off len t =
     (let h = e_header E t in
      case GetShiftedMapping h off of
        Inl _ \<Rightarrow> (Suc t, None)
      | Inr m \<Rightarrow>
          if sint (Length m) \<ge> sint len then
            if BuildId m = uuid_Nil \<and> sint len \<le> sint HugepageSize then (Suc t, Some (replicate (unat len) 0))
            else if BuildId m \<noteq> uuid_Nil then
              (case e_getBuild E (Suc t) (BuildId m) of
                 Inl _ \<Rightarrow> (Suc (Suc t), None)
               | Inr d \<Rightarrow>
                   (case e_Slice E (Suc (Suc t)) d (Offset m) len (GetBuildFrameData h (BuildId m)) of
                      Inl _ \<Rightarrow> (Suc (Suc (Suc t)), None)
                    | Inr b \<Rightarrow> (Suc (Suc (Suc t)), Some b)))
            else (Suc t, None)
          else (Suc t, None))"

definition File_Slice :: "'d env \<Rightarrow> i64 \<Rightarrow> i64 \<Rightarrow> i64 \<Rightarrow> nat \<Rightarrow> (nat \<times> (file_error + byte list)) option" where
  "File_Slice E maxParallel off len t =
     (case (if sint len > 0 then slice_fast E off len t else (t, None)) of
        (t', Some b) \<Rightarrow> Some (t', Inr b)
      | (t', None) \<Rightarrow>
          if sint len < 0 then Some (t', Inl NegativeMake)
          else
            (case readAt E maxParallel off (replicate (unat len) 0) t' of
               None \<Rightarrow> None
             | Some (out, t'', n, Some e) \<Rightarrow> Some (t'', Inl e)
             | Some (out, t'', n, None) \<Rightarrow> Some (t'', Inr out)))"

section \<open>Residency\<close>

lemma seg_step:
  assumes "sint (n :: i64) < sint len" "0 < sint (i64_min a (len - n))"
  shows "sint (n + i64_min a (len - n)) = sint n + sint (i64_min a (len - n))" "sint (i64_min a (len - n)) \<le> sint len - sint n"
proof -
  have "sint (i64_min a (len - n)) \<le> sint (len - n)" by (simp add: i64_min_def)
  moreover have "sint (len - n) \<le> sint len - sint n"
  proof (cases "sint len - sint n < 2 ^ 63")
    case False
    then show ?thesis using sint_less [of "len - n"] by simp
  qed (use assms(1) in \<open>simp add: sint_word_ariths signed_take_bit_int_eq_self\<close>)
  ultimately show le: "sint (i64_min a (len - n)) \<le> sint len - sint n" by linarith
  show "sint (n + i64_min a (len - n)) = sint n + sint (i64_min a (len - n))"
    using le assms sint_ge [of n] sint_less [of len] by (intro sint_add_i64) simp_all
qed

text \<open>The header is loaded once; the loop looks every mapped build up in the store.\<close>

function is_cached_loop :: "'d env \<Rightarrow> Header \<Rightarrow> i64 \<Rightarrow> i64 \<Rightarrow> nat \<Rightarrow> i64 \<Rightarrow> bool" where
  "is_cached_loop E h off len t n =
     (if sint n < sint len then
        (case GetShiftedMapping h (off + n) of
           Inl _ \<Rightarrow> False
         | Inr m \<Rightarrow>
             let segLen = i64_min (Length m) (len - n) in
             if sint segLen \<le> 0 then False
             else if BuildId m \<noteq> uuid_Nil \<and>
               (case e_Lookup E t (BuildId m) of
                  None \<Rightarrow> True
                | Some d \<Rightarrow> (case e_IsCached E t d of None \<Rightarrow> True | Some peek \<Rightarrow> \<not> peek (Offset m) segLen))
             then False
             else is_cached_loop E h off len (Suc t) (n + segLen))
      else True)"
  by pat_completeness auto

termination
  by (relation "measure (\<lambda>(E, h, off, len, t, n). nat (sint len - sint n))") (auto simp: not_le seg_step)

declare is_cached_loop.simps [simp del]

definition File_IsCached :: "'d env \<Rightarrow> i64 \<Rightarrow> i64 \<Rightarrow> nat \<Rightarrow> bool" where
  "File_IsCached E off len t = is_cached_loop E (e_header E t) off len (Suc t) 0"

end
