(* ===== verification/Build_Reads.thy ===== *)
theory Build_Reads
  imports Build_File
begin

text \<open>
  What reads through a build file return. An image is what the bytes of the builds are under a header; as long as every header
  that is installed shows the same image, as the provisional, the deduplicated and the published header of a
  snapshot do, every read that succeeds returns bytes of the image, whichever headers its rounds saw.
\<close>

section \<open>Images\<close>

text \<open>The byte at an offset of a build's storage is \<open>st\<close>.\<close>

fun source_byte :: "(uuid \<Rightarrow> nat \<Rightarrow> byte) \<Rightarrow> source \<Rightarrow> byte" where
  "source_byte st Zeros = 0"
| "source_byte st (FromBuild b k) = st b k"

definition shows_image :: "(uuid \<Rightarrow> nat \<Rightarrow> byte) \<Rightarrow> byte list \<Rightarrow> Header \<Rightarrow> bool" where
  "shows_image st img h \<longleftrightarrow> header_wf h \<and> unat (md_Size (h_Metadata h)) = length img \<and>
     (\<forall>q < length img. map_option (source_byte st) (resolve (entries (h_Mapping h)) q) = Some (img ! q))"

lemma contiguous_mend_le: "contiguous k ms n \<Longrightarrow> m \<in> set ms \<Longrightarrow> mend m \<le> n"
  by (induction ms arbitrary: k) (auto dest: contiguous_le)

lemma GetShiftedMapping_extent:
  assumes "header_wf h" "unat off < unat (md_Size (h_Metadata h))" "4096 dvd unat off" "GetShiftedMapping h off = Inr b"
  shows "unat off + unat (Length b) \<le> unat (md_Size (h_Metadata h))" "4096 dvd unat (Length b)"
proof -
  let ?m = "h_Mapping h"
  obtain i where i: "i < length (offsets ?m)" and
    g: "getMapping h off = Inr (entry_at ?m i, off - Offset (entry_at ?m i))" and
    lo: "mstart (entry_at ?m i) \<le> unat off" and hi: "unat off < mend (entry_at ?m i)"
    by (rule getMapping_inside [OF assms(1-3)])
  let ?e = "entry_at ?m i"
  note e = entry_at_nat [OF header_wf_small [OF assms(1)], of i]
  have B: "unat (blockSize ?m) = 4096" and c: "contiguous 0 (entries ?m) (unat (md_Size (h_Metadata h)))"
    using assms(1) by (simp_all add: header_wf_def PageSize_def)
  have shift: "unat (off - Offset ?e) = unat off - mstart ?e"
    using lo by (simp add: mstart_def unat_sub word_le_nat_alt)
  have "off - Offset ?e \<le> Length ?e" using hi lo shift by (simp add: word_le_nat_alt mend_def mstart_def)
  then have len: "unat (Length ?e - (off - Offset ?e)) = mend ?e - unat off"
    using lo hi by (simp add: unat_sub shift mend_def mstart_def)
  then have b: "unat (Length b) = mend ?e - unat off"
    using assms(4) e(3) by (auto simp: GetShiftedMapping_def g Let_def sint_small_u64 bm_ok_def split: if_splits)
  have "mend ?e \<le> unat (md_Size (h_Metadata h))"
    using contiguous_mend_le [OF c, of ?e] i nth_mem [of i "entries ?m"] by simp
  then show "unat off + unat (Length b) \<le> unat (md_Size (h_Metadata h))" using b hi by simp
  show "4096 dvd unat (Length b)" unfolding b using assms(3) e(2) B by (intro dvd_diff_nat) simp_all
qed

lemma shows_image_mapping:
  assumes "shows_image st img h" "unat off < length img" "4096 dvd unat off"
  obtains m where "GetShiftedMapping h off = Inr m" "0 < unat (Length m)" "unat off + unat (Length m) \<le> length img"
    "4096 dvd unat (Length m)"
    "\<And>q. q < unat (Length m) \<Longrightarrow> img ! (unat off + q) = (if BuildId m = uuid_Nil then 0 else st (BuildId m) (unat (Offset m) + q))"
proof -
  have wf: "header_wf h" and sz: "unat (md_Size (h_Metadata h)) = length img" using assms(1) by (simp_all add: shows_image_def)
  obtain m where m: "GetShiftedMapping h off = Inr m" "0 < Length m" and
    res: "\<And>q. q < unat (Length m) \<Longrightarrow> resolve (entries (h_Mapping h)) (unat off + q) =
       Some (if BuildId m = uuid_Nil then Zeros else FromBuild (BuildId m) (unat (Offset m) + q))"
    using GetShiftedMapping_inside [OF wf _ assms(3)] assms(2) sz by auto
  note ext = GetShiftedMapping_extent [OF wf _ assms(3) m(1), unfolded sz, OF assms(2)]
  have "img ! (unat off + q) = (if BuildId m = uuid_Nil then 0 else st (BuildId m) (unat (Offset m) + q))"
    if "q < unat (Length m)" for q
  proof -
    have "map_option (source_byte st) (resolve (entries (h_Mapping h)) (unat off + q)) = Some (img ! (unat off + q))"
      using assms(1) that ext(1) by (simp add: shows_image_def)
    then show ?thesis unfolding res [OF that] by (simp split: if_splits)
  qed
  with m ext that show thesis by (auto simp: word_less_nat_alt)
qed

section \<open>Honest diffs\<close>

text \<open>What the diffs promise (the streaming chunker and the block cache keep it): a store hands out a diff of the build that was
  asked for, a read or a slice that succeeds gives the build's bytes, and a parallel read runs every segment.\<close>

definition honest_diffs :: "('d \<Rightarrow> uuid) \<Rightarrow> (uuid \<Rightarrow> nat \<Rightarrow> byte) \<Rightarrow> 'd env \<Rightarrow> bool" where
  "honest_diffs build_of st E \<longleftrightarrow>
     (\<forall>t b d. e_getBuild E t b = Inr d \<longrightarrow> build_of d = b) \<and>
     (\<forall>t d dst off ft dst' r. e_ReadAt E t d dst off ft = (dst', r) \<longrightarrow> length dst' = length dst \<and>
        (r = Inr (length dst) \<longrightarrow> (\<forall>q < length dst. dst' ! q = st (build_of d) (unat off + q)))) \<and>
     (\<forall>t d dst off ft dst' n. e_ReadAt E t d dst off ft = (dst', Inr n) \<longrightarrow> n \<le> length dst) \<and>
     (\<forall>t d off len ft b. e_Slice E t d off len ft = Inr b \<longrightarrow> length b = unat len \<and>
        (\<forall>q < unat len. b ! q = st (build_of d) (unat off + q))) \<and>
     (\<forall>t n. set (e_order E t n) = {..<n})"

section \<open>Segments\<close>

definition good_segment :: "('d \<Rightarrow> uuid) \<Rightarrow> (uuid \<Rightarrow> nat \<Rightarrow> byte) \<Rightarrow> byte list \<Rightarrow> nat \<Rightarrow> nat \<Rightarrow> 'd read_segment \<Rightarrow> bool" where
  "good_segment build_of st img off len s \<longleftrightarrow> dstOff s + unat (seg_length s) \<le> len \<and>
     (\<forall>q < unat (seg_length s). st (build_of (seg_diff s)) (unat (srcOff s) + q) = img ! (off + dstOff s + q))"

definition in_segment :: "nat \<Rightarrow> 'd read_segment \<Rightarrow> bool" where
  "in_segment q s \<longleftrightarrow> dstOff s \<le> q \<and> q < dstOff s + unat (seg_length s)"

text \<open>Bytes that are right stay right, and the bytes of the segments become right.\<close>

definition right :: "byte list \<Rightarrow> nat \<Rightarrow> byte list \<Rightarrow> nat \<Rightarrow> bool" where
  "right img off p q \<longleftrightarrow> p ! q = img ! (off + q)"

lemma nth_overwrite:
  "n + length ys \<le> length xs \<Longrightarrow> q < length xs \<Longrightarrow>
   overwrite xs n ys ! q = (if n \<le> q \<and> q < n + length ys then ys ! (q - n) else xs ! q)"
  by (auto simp: overwrite_def nth_append min_def)

lemma readSegment_ok:
  assumes E: "honest_diffs build_of st E" and s: "good_segment build_of st img off (length p) s"
    and r: "readSegment E t p s = (p', e)" and fits: "length p < 2 ^ 63"
  shows "length p' = length p" "e = None \<Longrightarrow> q < length p \<Longrightarrow> in_segment q s \<or> right img off p q \<Longrightarrow> right img off p' q"
proof -
  let ?len = "unat (seg_length s)" and ?dst = "take (unat (seg_length s)) (drop (dstOff s) p)"
  have fit: "dstOff s + ?len \<le> length p" using s by (simp add: good_segment_def)
  then have dst: "length ?dst = ?len" by simp
  obtain dst' x where x: "e_ReadAt E t (seg_diff s) ?dst (srcOff s) (seg_ft s) = (dst', x)" by fastforce
  have l: "length dst' = ?len" using E x dst unfolding honest_diffs_def by metis
  have p': "p' = overwrite p (dstOff s) dst'" using r x by (auto simp: readSegment_def split: sum.splits)
  then show len: "length p' = length p" using l fit by simp
  assume "e = None" and q: "q < length p" "in_segment q s \<or> right img off p q"
  then obtain n where n: "x = Inr n" "word_of_nat n = seg_length s"
    using r x by (auto simp: readSegment_def split: sum.splits if_splits)
  have "n \<le> ?len" using E x n dst unfolding honest_diffs_def by metis
  then have "unat (word_of_nat n :: i64) = n" using fit fits by (intro unat_word_of_nat_u64) simp
  then have "x = Inr (length ?dst)" using n dst by simp
  then have "\<forall>q < ?len. dst' ! q = st (build_of (seg_diff s)) (unat (srcOff s) + q)"
    using E x dst unfolding honest_diffs_def by metis
  then have "in_segment q s \<Longrightarrow> dst' ! (q - dstOff s) = img ! (off + q)"
    using s by (auto simp: good_segment_def in_segment_def)
  then show "right img off p' q"
    using q fit l unfolding p' right_def by (subst nth_overwrite) (auto simp: in_segment_def right_def)
qed

lemma read_in_turn_ok:
  assumes "honest_diffs build_of st E" "\<forall>s \<in> set ss. good_segment build_of st img off (length p) s" "length p < 2 ^ 63"
    and "read_in_turn E p t ss = (p', t', e)"
  shows "length p' = length p \<and> (e = None \<longrightarrow> (\<forall>q < length p. right img off p q \<or> (\<exists>s \<in> set ss. in_segment q s) \<longrightarrow> right img off p' q))"
  using assms
proof (induction ss arbitrary: p t)
  case (Cons s ss)
  obtain p1 e1 where r: "readSegment E t p s = (p1, e1)" by fastforce
  note s = readSegment_ok [OF Cons.prems(1) _ r Cons.prems(3), of img off]
  show ?case
  proof (cases e1)
    case None
    with Cons.prems(4) r have "read_in_turn E p1 (Suc t) ss = (p', t', e)" by simp
    with Cons.IH [of p1 "Suc t"] Cons.prems(1-3) s None show ?thesis by auto
  next
    case (Some x)
    with Cons.prems r s show ?thesis by auto
  qed
qed simp

lemma read_group_ok:
  assumes "honest_diffs build_of st E" "\<forall>i \<in> set order. good_segment build_of st img off (length p) (ss ! i)" "length p < 2 ^ 63"
    and "read_group E ss p t err order = (p', t', e)"
  shows "length p' = length p \<and> (e = None \<longrightarrow> err = None \<and>
    (\<forall>q < length p. right img off p q \<or> (\<exists>i \<in> set order. in_segment q (ss ! i)) \<longrightarrow> right img off p' q))"
  using assms
proof (induction order arbitrary: p t err)
  case (Cons i order)
  obtain p1 e1 where r: "readSegment E t p (ss ! i) = (p1, e1)" by fastforce
  note s = readSegment_ok [OF Cons.prems(1) _ r Cons.prems(3), of img off]
  have len: "length p1 = length p" using s(1) Cons.prems(2) by simp
  have "read_group E ss p1 (Suc t) (case err of None \<Rightarrow> e1 | Some x \<Rightarrow> Some x) order = (p', t', e)"
    using Cons.prems(4) r by simp
  from Cons.IH [OF Cons.prems(1) _ _ this] Cons.prems(2,3) len
  have "length p' = length p \<and> (e = None \<longrightarrow> (case err of None \<Rightarrow> e1 | Some x \<Rightarrow> Some x) = None \<and>
    (\<forall>q < length p. right img off p1 q \<or> (\<exists>i \<in> set order. in_segment q (ss ! i)) \<longrightarrow> right img off p' q))" by simp
  with s(2) Cons.prems(2) show ?case by (auto split: option.splits)
qed simp

lemma readSegments_ok:
  assumes E: "honest_diffs build_of st E" and ss: "\<forall>s \<in> set ss. good_segment build_of st img off (length p) s" and "length p < 2 ^ 63"
    and r: "readSegments E mp p t ss = (p', t', e)"
  shows "length p' = length p" "e = None \<Longrightarrow> q < length p \<Longrightarrow> right img off p q \<or> (\<exists>s \<in> set ss. in_segment q s) \<Longrightarrow> right img off p' q"
proof -
  have order: "set (e_order E t (length ss)) = {..<length ss}" using E by (simp add: honest_diffs_def)
  have "length p' = length p \<and>
      (e = None \<longrightarrow> (\<forall>q < length p. right img off p q \<or> (\<exists>s \<in> set ss. in_segment q s) \<longrightarrow> right img off p' q))"
  proof (cases "sint mp > 1 \<and> length ss > 1")
    case True
    then have "read_group E ss p t None (e_order E t (length ss)) = (p', t', e)" using r by (simp add: readSegments_def)
    moreover have "\<forall>i \<in> set (e_order E t (length ss)). good_segment build_of st img off (length p) (ss ! i)"
      using ss order by simp
    moreover have "(\<exists>i \<in> set (e_order E t (length ss)). in_segment q (ss ! i)) \<longleftrightarrow> (\<exists>s \<in> set ss. in_segment q s)" for q
      unfolding order by (metis in_set_conv_nth lessThan_iff)
    ultimately show ?thesis using read_group_ok [OF E _ assms(3), of "e_order E t (length ss)"] by blast
  next
    case False
    then have "read_in_turn E p t ss = (p', t', e)" using r by (auto simp: readSegments_def)
    from read_in_turn_ok [OF E ss assms(3) this] show ?thesis .
  qed
  then show "length p' = length p" "e = None \<Longrightarrow> q < length p \<Longrightarrow> right img off p q \<or> (\<exists>s \<in> set ss. in_segment q s) \<Longrightarrow> right img off p' q"
    by blast+
qed

section \<open>Plans\<close>

text \<open>A plan in progress: the bytes before \<open>n\<close> are right or belong to a segment, and the diffs are of the builds they are cached for.\<close>

definition plan_inv ::
  "('d \<Rightarrow> uuid) \<Rightarrow> (uuid \<Rightarrow> nat \<Rightarrow> byte) \<Rightarrow> byte list \<Rightarrow> nat \<Rightarrow> byte list \<Rightarrow> nat \<Rightarrow> 'd read_segment list \<Rightarrow> (uuid \<times> 'd) list \<Rightarrow> bool" where
  "plan_inv build_of st img off p n ss cache \<longleftrightarrow> n \<le> length p \<and> (4096 dvd off + n \<or> n = length p) \<and>
     (\<forall>(b, d) \<in> set cache. build_of d = b) \<and> (\<forall>s \<in> set ss. good_segment build_of st img off (length p) s) \<and>
     (\<forall>q < n. right img off p q \<or> (\<exists>s \<in> set ss. in_segment q s))"

lemma cachedBuild_ok:
  assumes "honest_diffs build_of st E" "\<forall>(b, d) \<in> set cache. build_of d = b" "cachedBuild E t b cache = (t', Inr (d, cache'))"
  shows "build_of d = b" "\<forall>(b, d) \<in> set cache'. build_of d = b"
  using assms by (auto simp: cachedBuild_def honest_diffs_def split: option.splits sum.splits if_splits dest!: map_of_SomeD)

lemma plan_inv_zeros:
  assumes "plan_inv build_of st img off p n ss cache" "n + k \<le> length p" "4096 dvd off + n + k \<or> n + k = length p"
    and "\<And>q. q < k \<Longrightarrow> img ! (off + n + q) = 0"
  shows "plan_inv build_of st img off (overwrite p n (replicate k 0)) (n + k) ss cache"
proof -
  have "right img off (overwrite p n (replicate k 0)) q \<or> (\<exists>s \<in> set ss. in_segment q s)" if "q < n + k" for q
  proof (cases "q < n")
    case True
    then have "right img off p q \<or> (\<exists>s \<in> set ss. in_segment q s)" using assms(1) by (simp add: plan_inv_def)
    then show ?thesis using True assms(2) by (auto simp: right_def nth_overwrite)
  next
    case False
    then show ?thesis using that assms(2) assms(4) [of "q - n"] by (simp add: right_def nth_overwrite)
  qed
  then show ?thesis using assms(1-3) by (simp add: plan_inv_def add.assoc)
qed

lemma plan_inv_segment:
  assumes "plan_inv build_of st img off p n ss cache" "n + k \<le> length p" "4096 dvd off + n + k \<or> n + k = length p"
    and "\<And>q. q < k \<Longrightarrow> img ! (off + n + q) = st (build_of d) (unat so + q)" "unat l = k" "\<forall>(b, d) \<in> set cache'. build_of d = b"
  shows "plan_inv build_of st img off p (n + k) (ss @ [\<lparr>dstOff = n, srcOff = so, seg_length = l, seg_diff = d, seg_ft = ft\<rparr>]) cache'"
proof -
  let ?s = "\<lparr>dstOff = n, srcOff = so, seg_length = l, seg_diff = d, seg_ft = ft\<rparr>"
  have "right img off p q \<or> (\<exists>s \<in> set (ss @ [?s]). in_segment q s)" if "q < n + k" for q
  proof (cases "q < n")
    case True
    then have "right img off p q \<or> (\<exists>s \<in> set ss. in_segment q s)" using assms(1) by (simp add: plan_inv_def)
    then show ?thesis by auto
  next
    case False
    then show ?thesis using that assms(5) by (simp add: in_segment_def)
  qed
  moreover have "good_segment build_of st img off (length p) ?s" using assms(2,4,5) by (simp add: good_segment_def)
  ultimately show ?thesis using assms(1-3,6) by (simp add: plan_inv_def add.assoc)
qed

text \<open>The length of a piece: to the end of its mapping, or to the end of the buffer.\<close>

lemma piece_length:
  assumes "0 < unat l" "unat l < 2 ^ 63" "n < len" "len < 2 ^ 63"
  shows "unat (i64_min l (word_of_nat (len - n))) = min (unat l) (len - n)" "0 < sint (i64_min l (word_of_nat (len - n)))"
proof -
  define w :: i64 where "w = word_of_nat (len - n)"
  have w: "unat w = len - n" unfolding w_def using assms(4) by (intro unat_word_of_nat_u64) simp
  show m: "unat (i64_min l (word_of_nat (len - n))) = min (unat l) (len - n)"
    unfolding w_def [symmetric] using assms w by (subst i64_min_nat) simp_all
  show "0 < sint (i64_min l (word_of_nat (len - n)))" using assms by (subst sint_small_u64) (simp_all add: m min_def del: of_nat_diff)
qed

text \<open>Diffs that always answer.\<close>

definition diffs_answer :: "'d env \<Rightarrow> bool" where
  "diffs_answer E \<longleftrightarrow> (\<forall>t b. \<exists>d. e_getBuild E t b = Inr d) \<and>
     (\<forall>t d dst off ft. \<exists>dst'. e_ReadAt E t d dst off ft = (dst', Inr (length dst)))"

lemma cachedBuild_answers: "diffs_answer E \<Longrightarrow> cachedBuild E t b cache \<noteq> (t', Inl e)"
  by (auto simp: cachedBuild_def diffs_answer_def split: option.splits sum.splits) (metis sum.distinct(1))

text \<open>One round of the planning loop inside the image.\<close>

lemma plan_step:
  assumes img: "shows_image st img (e_header E t)" and n: "n < length p" "4096 dvd unat off + n" "unat off + n < length img"
    and p: "length p < 2 ^ 63"
  obtains m :: BuildMap and k and l :: i64 where "0 < k" "n + k \<le> length p" "unat off + n + k \<le> length img" "4096 dvd unat off + n + k \<or> n + k = length p" "unat l = k"
    "\<And>q. q < k \<Longrightarrow> img ! (unat off + n + q) = (if BuildId m = uuid_Nil then 0 else st (BuildId m) (unat (Offset m) + q))"
    "plan_loop E off p t n ss cache =
       (if BuildId m = uuid_Nil then plan_loop E off (overwrite p n (replicate k 0)) (Suc t) (n + k) ss cache
        else case cachedBuild E (Suc t) (BuildId m) cache of
            (t', Inl e) \<Rightarrow> (p, t', Inl e)
          | (t', Inr (d, cache')) \<Rightarrow> plan_loop E off p t' (n + k) (ss @ [\<lparr>dstOff = n, srcOff = Offset m, seg_length = l, seg_diff = d,
              seg_ft = GetBuildFrameData (e_header E t) (BuildId m)\<rparr>]) cache')"
proof -
  have L: "length img < 2 ^ 63" using img by (simp add: shows_image_def header_wf_def)
  have w: "unat (word_of_nat n :: i64) = n" using n p by (intro unat_word_of_nat_u64) simp
  then have off: "unat (off + word_of_nat n) = unat off + n" using n(3) L by (subst unat_add_u64) simp_all
  obtain m where m: "GetShiftedMapping (e_header E t) (off + word_of_nat n) = Inr m" "0 < unat (Length m)"
    "unat off + n + unat (Length m) \<le> length img" "4096 dvd unat (Length m)" and
    b: "\<And>q. q < unat (Length m) \<Longrightarrow>
      img ! (unat off + n + q) = (if BuildId m = uuid_Nil then 0 else st (BuildId m) (unat (Offset m) + q))"
    by (rule shows_image_mapping [OF img, of "off + word_of_nat n"]) (use off n(2,3) in auto)
  define l where "l = i64_min (Length m) (word_of_nat (length p - n))"
  have l: "unat l = min (unat (Length m)) (length p - n)" "0 < sint l"
    unfolding l_def using piece_length [OF m(2) _ n(1) p] m(3) L by simp_all
  show thesis
  proof (rule that [of "unat l" l m])
    show "4096 dvd unat off + n + unat l \<or> n + unat l = length p" using l n m(4) by (auto simp: min_def)
    show "plan_loop E off p t n ss cache =
       (if BuildId m = uuid_Nil then plan_loop E off (overwrite p n (replicate (unat l) 0)) (Suc t) (n + unat l) ss cache
        else case cachedBuild E (Suc t) (BuildId m) cache of
            (t', Inl e) \<Rightarrow> (p, t', Inl e)
          | (t', Inr (d, cache')) \<Rightarrow> plan_loop E off p t' (n + unat l) (ss @ [\<lparr>dstOff = n, srcOff = Offset m, seg_length = l, seg_diff = d,
              seg_ft = GetBuildFrameData (e_header E t) (BuildId m)\<rparr>]) cache')"
      using n(1) m(1) l(2) by (subst plan_loop.simps) (simp add: Let_def l_def [symmetric] del: of_nat_diff)
  qed (use l n m b in \<open>auto simp: min_def split: if_splits\<close>)
qed

lemma plan_loop_ok:
  assumes E: "honest_diffs build_of st E" and img: "\<And>t. shows_image st img (e_header E t)"
  shows "unat off + length p \<le> length img \<Longrightarrow> length p < 2 ^ 63 \<Longrightarrow> plan_inv build_of st img (unat off) p n ss cache \<Longrightarrow>
    plan_loop E off p t n ss cache = (p', t', r) \<Longrightarrow> length p' = length p \<and>
      (\<forall>ss' n' k. r = Inr (ss', n', k) \<longrightarrow> n' = length p \<and> (\<exists>cache'. plan_inv build_of st img (unat off) p' (length p) ss' cache')) \<and>
      (diffs_answer E \<longrightarrow> (\<exists>y. r = Inr y))"
proof (induction "length p - n" arbitrary: p t n ss cache rule: less_induct)
  case less
  show ?case
  proof (cases "n < length p")
    case False
    then have "n = length p" using less.prems(3) by (simp add: plan_inv_def)
    then show ?thesis using less.prems(3,4) by (subst (asm) plan_loop.simps) auto
  next
    case True
    then have "4096 dvd unat off + n" using less.prems(3) by (simp add: plan_inv_def)
    then obtain m :: BuildMap and k and l :: i64 where k: "0 < k" "n + k \<le> length p" "unat off + n + k \<le> length img" "4096 dvd unat off + n + k \<or> n + k = length p" "unat l = k" and
      b: "\<And>q. q < k \<Longrightarrow> img ! (unat off + n + q) = (if BuildId m = uuid_Nil then 0 else st (BuildId m) (unat (Offset m) + q))" and
      pl: "plan_loop E off p t n ss cache =
       (if BuildId m = uuid_Nil then plan_loop E off (overwrite p n (replicate k 0)) (Suc t) (n + k) ss cache
        else case cachedBuild E (Suc t) (BuildId m) cache of
            (t', Inl e) \<Rightarrow> (p, t', Inl e)
          | (t', Inr (d, cache')) \<Rightarrow> plan_loop E off p t' (n + k) (ss @ [\<lparr>dstOff = n, srcOff = Offset m, seg_length = l, seg_diff = d,
              seg_ft = GetBuildFrameData (e_header E t) (BuildId m)\<rparr>]) cache')"
      by (rule plan_step [OF img True _ _ less.prems(2), where ss = ss and cache = cache]) (use True less.prems(1) in auto)
    show ?thesis
    proof (cases "BuildId m = uuid_Nil")
      case zero: True
      have "plan_inv build_of st img (unat off) (overwrite p n (replicate k 0)) (n + k) ss cache"
        using b zero by (intro plan_inv_zeros [OF less.prems(3) k(2,4)]) simp
      from less.hyps [OF _ _ _ this, of "Suc t"] k True less.prems pl zero show ?thesis by simp
    next
      case False
      obtain t1 x where x: "cachedBuild E (Suc t) (BuildId m) cache = (t1, x)" by fastforce
      show ?thesis
      proof (cases x)
        case (Inl e)
        then show ?thesis using pl False x less.prems(4) cachedBuild_answers [of E "Suc t" "BuildId m" cache t1 e] by auto
      next
        case (Inr y)
        then obtain d cache' where y: "x = Inr (d, cache')" by (cases y) auto
        have c: "\<forall>(b, d) \<in> set cache. build_of d = b" using less.prems(3) by (simp add: plan_inv_def)
        note d = cachedBuild_ok [OF E c x [unfolded y]]
        have "plan_inv build_of st img (unat off) p (n + k) (ss @ [\<lparr>dstOff = n, srcOff = Offset m, seg_length = l, seg_diff = d,
              seg_ft = GetBuildFrameData (e_header E t) (BuildId m)\<rparr>]) cache'"
          using b False d by (intro plan_inv_segment [OF less.prems(3) k(2,4)]) (simp_all add: k)
        from less.hyps [OF _ _ _ this, of t1] k True less.prems pl False x y show ?thesis by simp
      qed
    qed
  qed
qed

section \<open>Retries\<close>

text \<open>From time \<open>T\<close> on no diff is found closed: evictions stop overtaking the read.\<close>

definition settled :: "nat \<Rightarrow> 'd env \<Rightarrow> bool" where
  "settled T E \<longleftrightarrow> (\<forall>t \<ge> T. (\<forall>b. e_getBuild E t b \<noteq> Inl CacheClosed) \<and>
     (\<forall>d dst off ft. snd (e_ReadAt E t d dst off ft) \<noteq> Inl CacheClosed))"

lemma cachedBuild_time:
  assumes "settled T E" "cachedBuild E t b cache = (t', x)"
  shows "t \<le> t'" "x = Inl CacheClosed \<Longrightarrow> t < t' \<and> t < T"
  using assms by (auto simp: cachedBuild_def settled_def not_less split: option.splits sum.splits if_splits) (metis not_less)

lemma plan_loop_time:
  assumes "settled T E"
  shows "plan_loop E off p t n ss cache = (p', t', r) \<Longrightarrow> t \<le> t' \<and> (r = Inl CacheClosed \<longrightarrow> t < t' \<and> t < T)"
proof (induction "length p - n" arbitrary: p t n ss cache rule: less_induct)
  case less
  let ?g = "GetShiftedMapping (e_header E t) (off + word_of_nat n)"
  show ?case
  proof (cases "n < length p")
    case n: True
    show ?thesis
    proof (cases ?g)
      case (Inl e)
      then show ?thesis using n less.prems by (subst (asm) plan_loop.simps) auto
    next
      case (Inr m)
      define l where "l = i64_min (Length m) (word_of_nat (length p - n))"
      have l: "0 < unat l" "n + unat l \<le> length p" if "0 < sint l"
        using read_length_bound [of "Length m" "length p - n"] that n by (simp_all add: l_def del: of_nat_diff)
      have pl: "plan_loop E off p t n ss cache =
         (if sint l \<le> 0 then (p, Suc t, Inr (ss, n, length cache))
          else if BuildId m = uuid_Nil then plan_loop E off (overwrite p n (replicate (unat l) 0)) (Suc t) (n + unat l) ss cache
          else case cachedBuild E (Suc t) (BuildId m) cache of
            (t', Inl e) \<Rightarrow> (p, t', Inl e)
          | (t', Inr (d, cache')) \<Rightarrow> plan_loop E off p t' (n + unat l) (ss @ [\<lparr>dstOff = n, srcOff = Offset m, seg_length = l, seg_diff = d,
              seg_ft = GetBuildFrameData (e_header E t) (BuildId m)\<rparr>]) cache')"
        using n Inr by (subst plan_loop.simps) (simp add: Let_def l_def [symmetric] del: of_nat_diff)
      have dec: "length p - (n + unat l) < length p - n" if "0 < sint l" using l [OF that] by arith
      show ?thesis
      proof (cases "sint l \<le> 0 \<or> BuildId m = uuid_Nil")
        case True
        then show ?thesis
          using pl less.prems less.hyps [of "overwrite p n (replicate (unat l) 0)" "n + unat l" "Suc t" ss cache] l dec
          by (cases "0 < sint l") (auto simp: not_less)
      next
        case False
        obtain t1 x where x: "cachedBuild E (Suc t) (BuildId m) cache = (t1, x)" by fastforce
        note c = cachedBuild_time [OF assms x]
        show ?thesis
        proof (cases x)
          case (Inl e)
          then show ?thesis using pl less.prems x c False by auto
        next
          case (Inr y)
          then obtain d cache' where "x = Inr (d, cache')" by (cases y) auto
          then show ?thesis
            using pl less.prems x c(1) False dec less.hyps [of p "n + unat l" t1 _ cache'] by fastforce
        qed
      qed
    qed
  next
    case False
    then show ?thesis using less.prems by (subst (asm) plan_loop.simps) auto
  qed
qed

lemma readSegment_time: "settled T E \<Longrightarrow> readSegment E t p s = (p', Some CacheClosed) \<Longrightarrow> t < T"
  by (auto simp: readSegment_def settled_def not_less [symmetric] Let_def split: prod.splits sum.splits if_splits) (metis snd_conv)

lemma read_in_turn_time:
  "settled T E \<Longrightarrow> read_in_turn E p t ss = (p', t', e) \<Longrightarrow> t \<le> t' \<and> (e = Some CacheClosed \<longrightarrow> t < t' \<and> t < T)"
proof (induction ss arbitrary: p t)
  case (Cons s ss)
  obtain p1 e1 where r: "readSegment E t p s = (p1, e1)" by fastforce
  show ?case
  proof (cases e1)
    case None
    with Cons.prems r Cons.IH [of p1 "Suc t"] show ?thesis by auto
  next
    case (Some x)
    with Cons.prems r readSegment_time [of T E t p s p1] show ?thesis by auto
  qed
qed simp

lemma read_group_time:
  "settled T E \<Longrightarrow> read_group E ss p t err order = (p', t', e) \<Longrightarrow>
   t \<le> t' \<and> (e = Some CacheClosed \<longrightarrow> err = Some CacheClosed \<or> t < t' \<and> t < T)"
proof (induction order arbitrary: p t err)
  case (Cons i order)
  obtain p1 e1 where r: "readSegment E t p (ss ! i) = (p1, e1)" by fastforce
  from Cons.prems r Cons.IH [of p1 "Suc t" "case err of None \<Rightarrow> e1 | Some x \<Rightarrow> Some x"] readSegment_time [of T E t p "ss ! i" p1]
  show ?case by (auto split: option.splits)
qed simp

lemma read_round_time:
  assumes "settled T E" "read_round E mp off p t = (p', t', Inl CacheClosed)"
  shows "t < t'" "t < T"
proof -
  obtain p1 t1 r where r: "planRead E off p t = (p1, t1, r)" by (metis prod_cases3)
  note pl = plan_loop_time [OF assms(1) r [unfolded planRead_def]]
  have "t < t' \<and> t < T"
  proof (cases r)
    case (Inl e)
    then show ?thesis using pl r assms(2) by (auto simp: read_round_def)
  next
    case (Inr y)
    then obtain ss n k where y: "r = Inr (ss, n, k)" by (cases y) auto
    obtain p2 t2 e where e: "readSegments E mp p1 t1 ss = (p2, t2, e)" by (metis prod_cases3)
    then have "e = Some CacheClosed" "t' = t2" using assms(2) r y by (auto simp: read_round_def split: option.splits)
    moreover have "t1 \<le> t2 \<and> (e = Some CacheClosed \<longrightarrow> t1 < t2 \<and> t1 < T)"
      using e read_in_turn_time [OF assms(1), of p1 t1 ss] read_group_time [OF assms(1), of ss p1 t1 None]
      by (fastforce simp: readSegments_def split: if_splits)
    ultimately show ?thesis using pl by simp
  qed
  then show "t < t'" "t < T" by simp_all
qed

lemma readAt_returns:
  assumes "settled T E" and "\<And>p t p' t' r. P p \<Longrightarrow> read_round E mp off p t = (p', t', r) \<Longrightarrow> length p' = length p \<and> P p' \<and> (\<forall>n. r = Inr n \<longrightarrow> Q p' n)"
  shows "P p \<Longrightarrow> \<exists>p' t' n err. readAt E mp off p t = Some (p', t', n, err) \<and> length p' = length p \<and>
    ((\<exists>e. err = Some e \<and> n = 0 \<and> (\<exists>p1 t1. P p1 \<and> read_round E mp off p1 t1 = (p', t', Inl e)) ) \<or>
     Q p' n \<and> err = (if n < length p then Some EOF else None))"
proof (induction "T - t" arbitrary: p t rule: less_induct)
  case less
  obtain p1 t1 r where r: "read_round E mp off p t = (p1, t1, r)" by (metis prod_cases3)
  note ok = assms(2) [OF less.prems r]
  show ?case
  proof (cases "r = Inl CacheClosed")
    case True
    with read_round_time [OF assms(1)] r have "t < t1" "t < T" by blast+
    then have dec: "T - t1 < T - t" by arith
    obtain p' t' n err where "readAt E mp off p1 t1 = Some (p', t', n, err)" and rest: "length p' = length p1"
      "(\<exists>e. err = Some e \<and> n = 0 \<and> (\<exists>p1 t1. P p1 \<and> read_round E mp off p1 t1 = (p', t', Inl e))) \<or>
       Q p' n \<and> err = (if n < length p1 then Some EOF else None)"
      using less.hyps [OF dec, of p1] ok by blast
    moreover have "readAt E mp off p t = readAt E mp off p1 t1" by (subst readAt.simps) (simp add: r True)
    ultimately show ?thesis using ok by simp
  next
    case False
    then show ?thesis using ok r less.prems by (subst readAt.simps) (cases r; auto)
  qed
qed

section \<open>Rounds\<close>

lemma readSegment_answers:
  "diffs_answer E \<Longrightarrow> good_segment build_of st img off (length p) s \<Longrightarrow> snd (readSegment E t p s) = None"
proof -
  assume a: "diffs_answer E" "good_segment build_of st img off (length p) s"
  let ?dst = "take (unat (seg_length s)) (drop (dstOff s) p)"
  have "length ?dst = unat (seg_length s)" using a(2) by (auto simp: good_segment_def)
  moreover obtain dst' where "e_ReadAt E t (seg_diff s) ?dst (srcOff s) (seg_ft s) = (dst', Inr (length ?dst))"
    using a(1) unfolding diffs_answer_def by blast
  ultimately show ?thesis by (simp add: readSegment_def)
qed

lemma readSegments_answers:
  assumes E: "honest_diffs build_of st E" "diffs_answer E" and ss: "\<forall>s \<in> set ss. good_segment build_of st img off (length p) s"
    and p: "length p < 2 ^ 63"
  shows "snd (snd (readSegments E mp p t ss)) = None"
proof -
  have turn: "\<forall>s \<in> set ss. good_segment build_of st img off (length p) s \<Longrightarrow> length p < 2 ^ 63 \<Longrightarrow>
      snd (snd (read_in_turn E p t ss)) = None" for ss p t
  proof (induction ss arbitrary: p t)
    case (Cons s ss)
    obtain p1 where r: "readSegment E t p s = (p1, None)"
      using readSegment_answers [OF E(2), of build_of st img off p s t] Cons.prems(1) by (metis eq_snd_iff list.set_intros(1))
    have "length p1 = length p" by (rule readSegment_ok(1) [OF E(1) bspec [OF Cons.prems(1)] r Cons.prems(2)]) simp
    with r Cons.IH [of p1 "Suc t"] Cons.prems show ?case by simp
  qed simp
  have group: "\<forall>i \<in> set order. good_segment build_of st img off (length p) (ss ! i) \<Longrightarrow> length p < 2 ^ 63 \<Longrightarrow>
      snd (snd (read_group E ss p t None order)) = None" for order p t
  proof (induction order arbitrary: p t)
    case (Cons i order)
    obtain p1 where r: "readSegment E t p (ss ! i) = (p1, None)"
      using readSegment_answers [OF E(2), of build_of st img off p "ss ! i" t] Cons.prems(1) by (metis eq_snd_iff list.set_intros(1))
    have "length p1 = length p" by (rule readSegment_ok(1) [OF E(1) bspec [OF Cons.prems(1)] r Cons.prems(2)]) simp
    with r Cons.IH [of p1 "Suc t"] Cons.prems show ?case by simp
  qed simp
  have "set (e_order E t (length ss)) = {..<length ss}" using E(1) by (simp add: honest_diffs_def)
  then show ?thesis using turn [OF ss p] group [OF _ p, of "e_order E t (length ss)" t] ss by (simp add: readSegments_def)
qed

lemma read_round_ok:
  assumes E: "honest_diffs build_of st E" and img: "\<And>t. shows_image st img (e_header E t)"
    and off: "4096 dvd unat off" "unat off + length p \<le> length img" and r: "read_round E mp off p t = (p', t', r)"
  shows "length p' = length p" "r = Inr n \<Longrightarrow> n = length p \<and> p' = take (length p) (drop (unat off) img)"
    "diffs_answer E \<Longrightarrow> \<exists>n. r = Inr n"
proof -
  have p: "length p < 2 ^ 63" using img [of 0] off(2) by (simp add: shows_image_def header_wf_def)
  obtain p1 t1 x where x: "plan_loop E off p t 0 [] [] = (p1, t1, x)" by (metis prod_cases3)
  have "plan_inv build_of st img (unat off) p 0 [] []" using off(1) by (simp add: plan_inv_def)
  note pl = plan_loop_ok [OF E img off(2) p this x]
  have "length p' = length p \<and> (\<forall>n. r = Inr n \<longrightarrow> n = length p \<and> p' = take (length p) (drop (unat off) img)) \<and>
      (diffs_answer E \<longrightarrow> (\<exists>n. r = Inr n))"
  proof (cases x)
    case (Inl e)
    then show ?thesis using pl r x by (auto simp: read_round_def planRead_def)
  next
    case (Inr y)
    then obtain ss n k where y: "x = Inr (ss, n, k)" by (cases y) auto
    with pl obtain cache' where n: "n = length p" and inv: "plan_inv build_of st img (unat off) p1 (length p) ss cache'"
      and len: "length p1 = length p" by auto
    obtain p2 t2 e where e: "readSegments E mp p1 t1 ss = (p2, t2, e)" by (metis prod_cases3)
    have good: "\<forall>s \<in> set ss. good_segment build_of st img (unat off) (length p1) s" using inv by (simp add: plan_inv_def)
    note rs = readSegments_ok [OF E good p [folded len] e]
    have r': "p' = p2" "r = (case e of None \<Rightarrow> Inr n | Some e \<Rightarrow> Inl e)"
      using r x y e by (simp_all add: read_round_def planRead_def split: option.splits)
    have "p2 = take (length p) (drop (unat off) img)" if "e = None"
    proof (rule nth_equalityI)
      show "length p2 = length (take (length p) (drop (unat off) img))" using rs(1) len off(2) by simp
      show "p2 ! q = take (length p) (drop (unat off) img) ! q" if "q < length p2" for q
        using rs(2) [OF \<open>e = None\<close>, of q] inv that rs(1) len off(2) by (simp add: plan_inv_def right_def)
    qed
    then show ?thesis using r' rs(1) len n readSegments_answers [OF E _ good p [folded len], of mp t1] e by (auto split: option.splits)
  qed
  then show "length p' = length p" "r = Inr n \<Longrightarrow> n = length p \<and> p' = take (length p) (drop (unat off) img)"
    "diffs_answer E \<Longrightarrow> \<exists>n. r = Inr n" by blast+
qed

lemma readAt_image:
  assumes E: "honest_diffs build_of st E" and img: "\<And>t. shows_image st img (e_header E t)" and T: "settled T E"
    and off: "4096 dvd unat off" "unat off + length p \<le> length img"
  shows "\<exists>p' t' n err. readAt E mp off p t = Some (p', t', n, err) \<and> length p' = length p \<and>
    (err = None \<longrightarrow> n = length p \<and> p' = take (length p) (drop (unat off) img)) \<and> (diffs_answer E \<longrightarrow> err = None)"
proof -
  have "length p' = length q \<and> length p' = length p \<and> (\<forall>n. r = Inr n \<longrightarrow> n = length p \<and> p' = take (length p) (drop (unat off) img))"
    if "length q = length p" "read_round E mp off q t = (p', t', r)" for q t p' t' and r :: "file_error + nat"
    using read_round_ok(1,2) [OF E img off(1) _ that(2)] off(2) that(1) by auto
  then obtain p' t' n err where r: "readAt E mp off p t = Some (p', t', n, err)" "length p' = length p" and
    c: "(\<exists>e. err = Some e \<and> n = 0 \<and> (\<exists>p1 t1. length p1 = length p \<and> read_round E mp off p1 t1 = (p', t', Inl e))) \<or>
      (n = length p \<and> p' = take (length p) (drop (unat off) img)) \<and> err = (if n < length p then Some EOF else None)"
    using readAt_returns [OF T, of "\<lambda>q. length q = length p" mp off "\<lambda>p' n. n = length p \<and> p' = take (length p) (drop (unat off) img)" p t]
    by blast
  have "\<not> diffs_answer E" if "read_round E mp off p1 t1 = (p', t', Inl e)" "length p1 = length p" for p1 t1 e
    using read_round_ok(3) [OF E img off(1) _ that(1)] off(2) that(2) by auto
  with r c show ?thesis by auto
qed

section \<open>The properties\<close>

lemma slice_fast_image:
  assumes E: "honest_diffs build_of st E" and img: "\<And>t. shows_image st img (e_header E t)"
    and off: "4096 dvd unat off" "unat off + unat len \<le> length img" "0 < sint len" and r: "slice_fast E off len t = (t', Some b)"
  shows "b = take (unat len) (drop (unat off) img)"
proof -
  let ?h = "e_header E t"
  have L: "length img < 2 ^ 63" using img [of 0] by (simp add: shows_image_def header_wf_def)
  have len: "sint len = int (unat len)" using off(2) L by (intro sint_small_u64) simp
  obtain m where m: "GetShiftedMapping ?h off = Inr m" "unat off + unat (Length m) \<le> length img" and
    c: "\<And>q. q < unat (Length m) \<Longrightarrow> img ! (unat off + q) = (if BuildId m = uuid_Nil then 0 else st (BuildId m) (unat (Offset m) + q))"
    by (rule shows_image_mapping [OF img [of t], of off]) (use off len in auto)
  have "sint (Length m) = int (unat (Length m))" using m(2) L by (intro sint_small_u64) simp
  with r m(1) len have le: "unat len \<le> unat (Length m)" by (auto simp: slice_fast_def Let_def split: if_splits)
  have "length b = unat len \<and> (\<forall>q < unat len. b ! q = (if BuildId m = uuid_Nil then 0 else st (BuildId m) (unat (Offset m) + q)))"
  proof (cases "BuildId m = uuid_Nil")
    case True
    then show ?thesis using r m(1) by (auto simp: slice_fast_def Let_def split: if_splits)
  next
    case False
    then obtain d where "e_getBuild E (Suc t) (BuildId m) = Inr d"
      "e_Slice E (Suc (Suc t)) d (Offset m) len (GetBuildFrameData ?h (BuildId m)) = Inr b"
      using r m(1) by (auto simp: slice_fast_def Let_def split: if_splits sum.splits)
    then show ?thesis using E False unfolding honest_diffs_def by metis
  qed
  then show ?thesis using c le off(2) by (intro nth_equalityI) simp_all
qed

text \<open>
  C3. Reading a sandbox's disk or memory: as long as every header that is installed during the read shows the same image and
  diffs give the bytes of their builds, \<open>ReadAt\<close> and \<open>Slice\<close> of a page-aligned range inside the image return once evictions
  stop overtaking the read; what they return without error is exactly the bytes of the image, with any number of parallel segments,
  header swaps and retries; and when the diffs answer, so do they.
\<close>

theorem File_reads_image:
  assumes E: "honest_diffs build_of st E" and img: "\<And>t. shows_image st img (e_header E t)" and T: "settled T E"
    and off: "4096 dvd unat off" "unat off + length p \<le> length img" "unat off + unat len \<le> length img"
  shows "(\<exists>p' t' n err. File_ReadAt E mp p off t = Some (p', t', n, err) \<and> length p' = length p \<and>
      (err = None \<longrightarrow> n = length p \<and> p' = take (length p) (drop (unat off) img)) \<and> (diffs_answer E \<longrightarrow> err = None)) \<and>
    (\<exists>t' r. File_Slice E mp off len t = Some (t', r) \<and> (\<forall>b. r = Inr b \<longrightarrow> b = take (unat len) (drop (unat off) img)) \<and>
      (diffs_answer E \<longrightarrow> (\<exists>b. r = Inr b)))"
proof
  show "\<exists>p' t' n err. File_ReadAt E mp p off t = Some (p', t', n, err) \<and> length p' = length p \<and>
      (err = None \<longrightarrow> n = length p \<and> p' = take (length p) (drop (unat off) img)) \<and> (diffs_answer E \<longrightarrow> err = None)"
    unfolding File_ReadAt_def by (rule readAt_image [OF E img T off(1,2)])
  obtain t1 f where f: "(if sint len > 0 then slice_fast E off len t else (t, None)) = (t1, f)" by fastforce
  have "length img < 2 ^ 63" using img [of 0] by (simp add: shows_image_def header_wf_def)
  then have len: "\<not> sint len < 0" using off(3) by (subst sint_small_u64) simp_all
  have "unat off + length (replicate (unat len) 0) \<le> length img" using off(3) by simp
  from readAt_image [OF E img T off(1) this, of mp t1]
  obtain p' t' n err where r: "readAt E mp off (replicate (unat len) 0) t1 = Some (p', t', n, err)"
    "err = None \<longrightarrow> p' = take (unat len) (drop (unat off) img)" "diffs_answer E \<longrightarrow> err = None" by auto
  show "\<exists>t' r. File_Slice E mp off len t = Some (t', r) \<and> (\<forall>b. r = Inr b \<longrightarrow> b = take (unat len) (drop (unat off) img)) \<and>
      (diffs_answer E \<longrightarrow> (\<exists>b. r = Inr b))"
  proof (cases f)
    case None
    then show ?thesis using f r len by (cases err) (auto simp: File_Slice_def)
  next
    case (Some b)
    then have "b = take (unat len) (drop (unat off) img)" using slice_fast_image [OF E img off(1,3)] f by (auto split: if_splits)
    then show ?thesis using f Some by (auto simp: File_Slice_def)
  qed
qed




section \<open>A file of three pages\<close>

definition flat_env :: "(uuid \<Rightarrow> nat \<Rightarrow> byte) \<Rightarrow> Header \<Rightarrow> uuid env" where
  "flat_env st h = \<lparr>e_header = \<lambda>t. h, e_getBuild = \<lambda>t b. Inr b,
     e_ReadAt = \<lambda>t d dst off ft. (map (\<lambda>q. st d (unat off + q)) [0..<length dst], Inr (length dst)),
     e_Slice = \<lambda>t d off len ft. Inr (map (\<lambda>q. st d (unat off + q)) [0..<unat len]),
     e_Lookup = \<lambda>t b. Some b, e_IsCached = \<lambda>t d. None, e_order = \<lambda>t n. rev [0..<n]\<rparr>"

abbreviation sevens :: "uuid \<Rightarrow> nat \<Rightarrow> byte" where "sevens \<equiv> \<lambda>b q. 7"

abbreviation three_pages :: "byte list" where "three_pages \<equiv> replicate 8192 7 @ replicate 4096 0"

lemma flat_env_ok:
  "honest_diffs id st (flat_env st h)" "settled 0 (flat_env st h)" "diffs_answer (flat_env st h)" "e_header (flat_env st h) t = h"
  by (auto simp: honest_diffs_def settled_def diffs_answer_def flat_env_def)

lemma sample_image: "shows_image sevens three_pages sample_header" "IsNormalizeFixApplied sample_header"
proof -
  have "contiguous 0 (entries (h_Mapping sample_header)) 12288"
    unfolding sample_entries by (simp add: mstart_def mend_def bm_ok_def)
  then have "header_wf sample_header"
    by (simp add: header_wf_def sample_header_def mapping_wf_def nilBuildIdx_def PageSize_def NewTemplateMetadata_def)
  then show "shows_image sevens three_pages sample_header"
    unfolding shows_image_def sample_entries
    by (simp add: sample_header_def NewTemplateMetadata_def mstart_def mend_def source_of_def nth_append)
  show "IsNormalizeFixApplied sample_header"
    by (simp add: sample_header_def IsNormalizeFixApplied_def NewTemplateMetadata_def metadataVersion_def NormalizeFixVersion_def)
qed

theorem File_reads_image_witness:
  "(\<exists>p' t' n. File_ReadAt (flat_env sevens sample_header) 4 (replicate 8192 0) 4096 0 = Some (p', t', n, None) \<and>
     p' = take 8192 (drop 4096 three_pages)) \<and>
   (\<exists>t' b. File_Slice (flat_env sevens sample_header) 4 4096 4096 0 = Some (t', Inr b) \<and> b = take 4096 (drop 4096 three_pages))"
proof -
  have "4096 dvd unat (4096 :: i64)" "unat (4096 :: i64) + length (replicate 8192 0 :: byte list) \<le> length three_pages"
    "unat (4096 :: i64) + unat (4096 :: i64) \<le> length three_pages" by simp_all
  from File_reads_image [OF flat_env_ok(1) _ flat_env_ok(2) this, of sevens sample_header 4 0] sample_image(1)
  show ?thesis by (auto simp: flat_env_ok)
qed


end
